(* ===== verification/Prelude.thy ===== *)
theory Prelude
  imports Main "HOL-Library.Word"
begin

text \<open>
  Shared vocabulary of the development: the C integer types of \<^verbatim>\<open>kernel/types.h\<close>, the
  result type of code that may call \<^verbatim>\<open>panic\<close>, the collections that the component proofs
  feed to the simplifier, and the generic facts on machine words and lists that
  several components use.
\<close>

unbundle bit_operations_syntax

section \<open>C integer types\<close>

type_synonym uint8 = "8 word"
type_synonym uint16 = "16 word"
type_synonym uint32 = "32 word"
type_synonym uint64 = "64 word"

section \<open>Fallible code\<close>

text \<open>
  \<^verbatim>\<open>panic(msg)\<close> prints its message and spins forever (\<^verbatim>\<open>kernel/printf.c\<close>), so a call that
  panics never returns a value: it is the constructor \<open>Panic\<close>.
\<close>

datatype 'a res = Panic string | Ret 'a

definition rbind :: "'a res \<Rightarrow> ('a \<Rightarrow> 'b res) \<Rightarrow> 'b res" where
  "rbind r f = (case r of Panic e \<Rightarrow> Panic e | Ret x \<Rightarrow> f x)"

named_theorems res_simps \<open>unfolding of sequenced fallible code\<close>
named_theorems mem_simps \<open>reads of memory after writes\<close>
named_theorems frame_intros \<open>what an operation leaves unchanged\<close>

lemma rbind_simps [simp, res_simps]:
  "rbind (Ret x) f = f x"
  "rbind (Panic e) f = Panic e"
  by (simp_all add: rbind_def)

lemma rbind_Ret_iff [res_simps]:
  "rbind r f = Ret y \<longleftrightarrow> (\<exists>x. r = Ret x \<and> f x = Ret y)"
  by (cases r) auto

lemma rbind_RetE:
  assumes "rbind r f = Ret y"
  obtains x where "r = Ret x" and "f x = Ret y"
  using assms by (auto simp: rbind_Ret_iff)

lemma rbind_cong [fundef_cong]:
  assumes "r = r'" and "\<And>x. r' = Ret x \<Longrightarrow> f x = g x"
  shows "rbind r f = rbind r' g"
  using assms by (cases r') (auto simp: rbind_def)

section \<open>Alignment of machine words\<close>

text \<open>
  \<open>align_down n a\<close> clears the low \<open>n\<close> bits.  An address lies in the \<open>2^n\<close>-byte cell that
  starts at an aligned address exactly when it rounds down to it; every disjointness
  argument about pages and page-table slots goes through this fact.
\<close>

definition align_down :: "nat \<Rightarrow> uint64 \<Rightarrow> uint64" where
  "align_down n a = a AND NOT (mask n)"

definition aligned :: "nat \<Rightarrow> uint64 \<Rightarrow> bool" where
  "aligned n a \<longleftrightarrow> align_down n a = a"

lemma bit_align_down: "bit (align_down n a) i \<longleftrightarrow> i < 64 \<and> n \<le> i \<and> bit a i"
  by (auto simp: align_down_def bit_simps dest: bit_imp_le_length)

lemma align_down_idem [simp]: "align_down n (align_down n a) = align_down n a"
  by (rule bit_word_eqI) (auto simp: bit_align_down)

lemma aligned_align_down [simp]: "aligned n (align_down n a)"
  by (simp add: aligned_def)

lemma align_down_plus: "align_down n a + (a AND mask n) = a"
proof -
  have "align_down n a AND (a AND mask n) = 0"
    by (rule bit_word_eqI) (auto simp: align_down_def bit_simps)
  then have "align_down n a + (a AND mask n) = align_down n a OR (a AND mask n)"
    by (rule disjunctive_add_eq_or)
  also have "\<dots> = a"
    by (rule bit_word_eqI) (auto simp: align_down_def bit_simps)
  finally show ?thesis .
qed

lemma aligned_or_add:
  assumes "aligned n a" and "b AND mask n = b"
  shows "a + b = a OR b"
proof -
  have "bit b i \<Longrightarrow> i < n" for i
    using assms(2) by (metis bit_and_iff bit_mask_iff)
  moreover have "bit a i \<Longrightarrow> n \<le> i" for i
    using assms(1) by (metis aligned_def bit_align_down)
  ultimately have "a AND b = 0"
    by (intro bit_word_eqI) (metis bit_0_eq bit_and_iff bot_apply bot_bool_def not_le)
  then show ?thesis by (rule disjunctive_add_eq_or)
qed

lemma less_2p_mask:
  fixes x :: uint64
  assumes "n < 64"
  shows "x < 2 ^ n \<longleftrightarrow> x AND mask n = x"
proof -
  have "x < 2 ^ n \<longleftrightarrow> uint x < 2 ^ n"
    using assms by (simp add: word_2p_lem word_size)
  also have "\<dots> \<longleftrightarrow> x AND mask n = x"
    by (simp add: mask_eq_iff)
  finally show ?thesis .
qed

lemma bit_less_2p:
  fixes x :: uint64
  assumes "x < 2 ^ n" "n < 64" "bit x i"
  shows "i < n"
proof -
  have "x AND mask n = x" using assms(1) less_2p_mask [OF assms(2)] by blast
  then have "bit (x AND mask n) i" using assms(3) by simp
  then show ?thesis by (simp add: bit_and_iff bit_mask_iff)
qed

lemma in_cell_iff:
  assumes "aligned n a" and "n < 64"
  shows "x - a < 2 ^ n \<longleftrightarrow> align_down n x = a"
proof
  assume "x - a < 2 ^ n"
  then have m: "(x - a) AND mask n = x - a"
    using less_2p_mask [OF assms(2)] by blast
  have "x = a + (x - a)" by simp
  also have "\<dots> = a OR (x - a)" by (rule aligned_or_add [OF assms(1) m])
  finally have x: "x = a OR (x - a)" .
  show "align_down n x = a"
  proof (rule bit_word_eqI)
    fix i assume "i < LENGTH(64)"
    moreover have "bit (x - a) i \<Longrightarrow> i < n"
      using m by (metis bit_and_iff bit_mask_iff)
    moreover have "bit a i \<Longrightarrow> n \<le> i"
      using assms(1) by (metis aligned_def bit_align_down)
    ultimately show "bit (align_down n x) i = bit a i"
      by (subst x) (auto simp: bit_align_down bit_simps)
  qed
next
  assume "align_down n x = a"
  then have "x - a = x AND mask n"
    using align_down_plus [of n x] by (metis add_diff_cancel_left')
  then show "x - a < 2 ^ n"
    using less_2p_mask [OF assms(2), of "x AND mask n"] by (simp add: and.assoc)
qed

lemma aligned_cell_disjoint:
  assumes "aligned n a" "aligned n b" "n < 64" "x - a < 2 ^ n" "x - b < 2 ^ n"
  shows "a = b"
  using assms in_cell_iff by metis

lemma aligned_weaken: "aligned n p \<Longrightarrow> k \<le> n \<Longrightarrow> aligned k p"
  unfolding aligned_def bit_eq_iff by (auto simp: bit_align_down)

lemma aligned_iff_mask: "aligned n a \<longleftrightarrow> a AND mask n = 0"
proof
  assume "aligned n a"
  then show "a AND mask n = 0"
    using align_down_plus [of n a] by (simp add: aligned_def)
next
  assume "a AND mask n = 0"
  then show "aligned n a"
    using align_down_plus [of n a] by (simp add: aligned_def)
qed

lemma aligned_iff_dvd: "aligned n a \<longleftrightarrow> 2 ^ n dvd unat a"
  by (simp add: aligned_iff_mask and_mask_dvd_nat)

lemma unat_align_down: "n < 64 \<Longrightarrow> unat (align_down n a) = unat a div 2 ^ n * 2 ^ n"
proof -
  assume n: "n < 64"
  have m: "unat (a AND mask n) = unat a mod 2 ^ n"
    by (simp flip: take_bit_eq_mask take_bit_eq_mod unsigned_take_bit_eq)
  have "a AND mask n \<le> a" by (simp add: word_and_le2)
  then have "unat (a - (a AND mask n)) = unat a - unat a mod 2 ^ n"
    using m by (simp add: unat_sub)
  moreover have "align_down n a = a - (a AND mask n)"
    using align_down_plus [of n a] by (metis add_diff_cancel_right')
  ultimately show ?thesis by (simp add: minus_mod_eq_div_mult)
qed

end
