(* ===== verification/Phys_Mem.thy ===== *)
theory Phys_Mem
  imports Prelude
begin

text \<open>
  Physical memory as an array of bytes, with the 64-bit little-endian loads and stores
  that C pointer dereferences of \<^verbatim>\<open>uint64\<close> compile to, and the routines of
  \<^verbatim>\<open>kernel/string.c\<close> that touch memory: \<open>memset\<close>, \<open>memmove\<close>, \<open>memcmp\<close>, \<open>strlen\<close>,
  \<open>strncmp\<close>, \<open>strncpy\<close> and \<open>safestrcpy\<close>.  The loops are translated as loops; the lemmas give the
  closed form the rest of the development computes with.
\<close>

type_synonym memory = "uint64 \<Rightarrow> uint8"

section \<open>Loads and stores\<close>

definition load64 :: "memory \<Rightarrow> uint64 \<Rightarrow> uint64" where
  "load64 m a =
     ucast (m a) OR push_bit 8 (ucast (m (a + 1))) OR push_bit 16 (ucast (m (a + 2)))
     OR push_bit 24 (ucast (m (a + 3))) OR push_bit 32 (ucast (m (a + 4)))
     OR push_bit 40 (ucast (m (a + 5))) OR push_bit 48 (ucast (m (a + 6)))
     OR push_bit 56 (ucast (m (a + 7)))"

definition store64 :: "memory \<Rightarrow> uint64 \<Rightarrow> uint64 \<Rightarrow> memory" where
  "store64 m a v = (\<lambda>x. if x - a < 8 then ucast (drop_bit (8 * unat (x - a)) v) else m x)"

lemma bit_byte_lane:
  fixes w :: uint8
  assumes "r < 8" and "q < 8"
  shows "bit (push_bit (8 * k) (ucast w :: uint64)) (8 * q + r) \<longleftrightarrow> k = q \<and> bit w r"
proof -
  have "8 * k \<le> 8 * q + r \<and> 8 * q + r - 8 * k < 8 \<longleftrightarrow> k = q" using assms by auto
  moreover have "8 * q + r < 64" using assms by simp
  ultimately show ?thesis
    using assms by (auto simp: bit_simps dest: bit_imp_le_length)
qed

lemma bit_load64:
  "bit (load64 m a) i \<longleftrightarrow> i < 64 \<and> bit (m (a + of_nat (i div 8))) (i mod 8)"
proof (cases "i < 64")
  case False
  then show ?thesis by (auto dest: bit_imp_le_length)
next
  case True
  define q r where "q = i div 8" and "r = i mod 8"
  have i: "i = 8 * q + r" and r: "r < 8" and q: "q < 8"
    using True by (simp_all add: q_def r_def)
  note lane = bit_byte_lane [OF r q]
  note lanes = lane [of 0, simplified mult_0_right push_bit_0_id id_apply]
    lane [of 1, simplified mult_1_right] lane [of 2, simplified] lane [of 3, simplified]
    lane [of 4, simplified] lane [of 5, simplified] lane [of 6, simplified] lane [of 7, simplified]
  have "bit (load64 m a) (8 * q + r) \<longleftrightarrow>
      (0 = q \<and> bit (m a) r) \<or> (1 = q \<and> bit (m (a + 1)) r) \<or> (q = 2 \<and> bit (m (a + 2)) r) \<or>
      (q = 3 \<and> bit (m (a + 3)) r) \<or> (q = 4 \<and> bit (m (a + 4)) r) \<or>
      (q = 5 \<and> bit (m (a + 5)) r) \<or> (q = 6 \<and> bit (m (a + 6)) r) \<or> (q = 7 \<and> bit (m (a + 7)) r)"
    by (simp only: load64_def bit_or_iff lanes disj_assoc)
  also have "\<dots> \<longleftrightarrow> bit (m (a + of_nat q)) r"
  proof -
    from q consider "q = 0" | "q = 1" | "q = 2" | "q = 3" | "q = 4" | "q = 5" | "q = 6" | "q = 7"
      by linarith
    then show ?thesis by cases simp_all
  qed
  finally show ?thesis using True by (simp add: q_def r_def)
qed

lemma load64_cong:
  assumes "\<And>i. i < 8 \<Longrightarrow> m (a + of_nat i) = m' (a + of_nat i)"
  shows "load64 m a = load64 m' a"
  by (rule bit_word_eqI) (simp add: bit_load64 assms)

lemma of_nat_less8: "i < 8 \<Longrightarrow> (of_nat i :: uint64) < 8"
  by (simp add: word_less_nat_alt unat_of_nat)

lemma load64_store64_same [simp, mem_simps]: "load64 (store64 m a v) a = v"
proof (rule bit_word_eqI)
  fix i assume i: "i < LENGTH(64)"
  then have "i div 8 < 8" by simp
  then have u: "unat (of_nat (i div 8) :: uint64) = i div 8" by (simp add: unat_of_nat)
  have "8 * (i div 8) + i mod 8 = i" by simp
  then show "bit (load64 (store64 m a v) a) i = bit v i"
    using i u of_nat_less8 [OF \<open>i div 8 < 8\<close>]
    by (simp add: bit_load64 store64_def bit_simps)
qed

lemma load64_store64_other [mem_simps]:
  assumes "aligned 3 a" and "aligned 3 b" and "a \<noteq> b"
  shows "load64 (store64 m b v) a = load64 m a"
proof (rule load64_cong)
  fix i :: nat assume "i < 8"
  then have "(a + of_nat i) - a < 2 ^ 3" using of_nat_less8 by simp
  then have "\<not> (a + of_nat i) - b < 2 ^ 3"
    using assms aligned_cell_disjoint [of 3 a b "a + of_nat i"] by auto
  then show "store64 m b v (a + of_nat i) = m (a + of_nat i)"
    by (simp add: store64_def)
qed

section \<open>memset and memmove\<close>

text \<open>
  \<open>memset_loop m d c n\<close> is the memory after \<open>n\<close> iterations of
  \<^verbatim>\<open>for(i = 0; i < n; i++) cdst[i] = c\<close>.
\<close>

primrec memset_loop :: "memory \<Rightarrow> uint64 \<Rightarrow> uint8 \<Rightarrow> nat \<Rightarrow> memory" where
  "memset_loop m d c 0 = m"
| "memset_loop m d c (Suc i) = (memset_loop m d c i)(d + of_nat i := c)"

definition memset :: "memory \<Rightarrow> uint64 \<Rightarrow> uint8 \<Rightarrow> nat \<Rightarrow> memory" where
  "memset m dst c n = memset_loop m dst c n"

text \<open>
  The two loops of \<open>memmove\<close>: upwards from \<open>s\<close> and \<open>d\<close>, and downwards from one past the
  end, chosen by the overlap test.
\<close>

fun memmove_fwd :: "memory \<Rightarrow> uint64 \<Rightarrow> uint64 \<Rightarrow> nat \<Rightarrow> memory" where
  "memmove_fwd m d s 0 = m"
| "memmove_fwd m d s (Suc n) = memmove_fwd (m(d := m s)) (d + 1) (s + 1) n"

fun memmove_back :: "memory \<Rightarrow> uint64 \<Rightarrow> uint64 \<Rightarrow> nat \<Rightarrow> memory" where
  "memmove_back m d s 0 = m"
| "memmove_back m d s (Suc n) = memmove_back (m(d - 1 := m (s - 1))) (d - 1) (s - 1) n"

definition memmove :: "memory \<Rightarrow> uint64 \<Rightarrow> uint64 \<Rightarrow> nat \<Rightarrow> memory" where
  "memmove m dst src n =
     (if n = 0 then m
      else if src < dst \<and> src + of_nat n > dst
      then memmove_back m (dst + of_nat n) (src + of_nat n) n
      else memmove_fwd m dst src n)"

lemma of_nat_unat64: "of_nat (unat x) = (x :: uint64)"
  by simp

lemma unat_of_nat64: "i < 2 ^ 64 \<Longrightarrow> unat (of_nat i :: uint64) = i"
  by (simp add: unat_of_nat)

lemma memset_closed:
  "n \<le> 2 ^ 64 \<Longrightarrow> memset m d c n = (\<lambda>x. if unat (x - d) < n then c else m x)"
  unfolding memset_def
proof (induction n)
  case 0
  then show ?case by simp
next
  case (Suc n)
  have eq: "x = d + of_nat n \<longleftrightarrow> unat (x - d) = n" for x
  proof
    show "x = d + of_nat n \<Longrightarrow> unat (x - d) = n"
      using Suc.prems by (simp add: unat_of_nat64)
    show "unat (x - d) = n \<Longrightarrow> x = d + of_nat n"
      by (metis add.commute diff_add_cancel of_nat_unat64)
  qed
  show ?case using Suc by (auto simp: fun_eq_iff eq)
qed

lemma memmove_fwd_closed:
  assumes "n < 2 ^ 64"
    and "\<And>i j. j < i \<Longrightarrow> i < n \<Longrightarrow> d + of_nat j \<noteq> s + of_nat i"
  shows "memmove_fwd m d s n = (\<lambda>x. if unat (x - d) < n then m (s + (x - d)) else m x)"
  using assms
proof (induction n arbitrary: m d s)
  case 0
  then show ?case by simp
next
  case (Suc n)
  have "(d + 1) + of_nat j \<noteq> (s + 1) + of_nat i" if "j < i" "i < n" for i j
    using Suc.prems(2) [of "Suc j" "Suc i"] that by (simp add: algebra_simps)
  then have IH: "memmove_fwd (m(d := m s)) (d + 1) (s + 1) n =
      (\<lambda>x. if unat (x - (d + 1)) < n then (m(d := m s)) (s + 1 + (x - (d + 1)))
           else (m(d := m s)) x)"
    using Suc.IH Suc.prems(1) by simp
  show ?case
  proof
    fix x
    show "memmove_fwd m d s (Suc n) x = (if unat (x - d) < Suc n then m (s + (x - d)) else m x)"
    proof (cases "x = d")
      case True
      have "unat (- 1 :: uint64) = 2 ^ 64 - 1"
        by (simp add: unsigned_minus_1_eq_mask mask_eq_exp_minus_1)
      then show ?thesis using True IH Suc.prems(1) by simp
    next
      case False
      then have "unat (x - (d + 1)) = unat (x - d) - 1"
        using unat_minus_one [of "x - d"] by (simp add: diff_diff_eq)
      moreover have pos: "unat (x - d) \<noteq> 0" using False by (simp add: unat_0_iff)
      ultimately have u: "unat (x - d) = Suc (unat (x - (d + 1)))" by simp
      have "d \<noteq> s + (x - d)" if "unat (x - d) < Suc n"
        using Suc.prems(2) [of 0 "unat (x - d)"] that pos by simp
      then show ?thesis using False IH u by (auto simp: algebra_simps)
    qed
  qed
qed

lemma memmove_back_closed:
  assumes "n < 2 ^ 64"
    and "\<And>i j. j < i \<Longrightarrow> i < n \<Longrightarrow> d + of_nat i \<noteq> s + of_nat j"
  shows "memmove_back m (d + of_nat n) (s + of_nat n) n =
    (\<lambda>x. if unat (x - d) < n then m (s + (x - d)) else m x)"
  using assms
proof (induction n arbitrary: m)
  case 0
  then show ?case by simp
next
  case (Suc n)
  let ?m = "m(d + of_nat n := m (s + of_nat n))"
  have IH: "memmove_back ?m (d + of_nat n) (s + of_nat n) n =
      (\<lambda>x. if unat (x - d) < n then ?m (s + (x - d)) else ?m x)"
    using Suc by simp
  have eq: "x = d + of_nat n \<longleftrightarrow> unat (x - d) = n" for x
    using Suc.prems(1)
    by (metis Suc_lessD add.commute add_diff_cancel_left' diff_add_cancel unat_of_nat64 of_nat_unat64)
  have ne: "s + (x - d) \<noteq> d + of_nat n" if "unat (x - d) < n" for x
    using Suc.prems(2) [of "unat (x - d)" n] that by (metis lessI of_nat_unat64)
  have "memmove_back m (d + of_nat (Suc n)) (s + of_nat (Suc n)) (Suc n) =
      memmove_back ?m (d + of_nat n) (s + of_nat n) n"
    by (simp add: algebra_simps)
  then show ?case
    unfolding IH using eq ne by (auto simp: fun_eq_iff less_Suc_eq)
qed

lemma memmove_closed:
  assumes "unat dst + n < 2 ^ 64" and "unat src + n < 2 ^ 64"
  shows "memmove m dst src n = (\<lambda>x. if unat (x - dst) < n then m (src + (x - dst)) else m x)"
proof -
  have n: "n < 2 ^ 64" using assms by simp
  have un: "unat (of_nat n :: uint64) = n" using n by (rule unat_of_nat64)
  have ud: "unat (dst + of_nat i) = unat dst + i" if "i \<le> n" for i
    using assms(1) that by (simp add: unat_word_ariths unat_of_nat)
  have us: "unat (src + of_nat i) = unat src + i" if "i \<le> n" for i
    using assms(2) that by (simp add: unat_word_ariths unat_of_nat)
  show ?thesis
  proof (cases "src < dst \<and> src + of_nat n > dst")
    case True
    have "dst + of_nat i \<noteq> src + of_nat j" if "j < i" "i < n" for i j
      using True that ud [of i] us [of j] by (auto simp: word_less_nat_alt dest: arg_cong [of _ _ unat])
    then show ?thesis
      using memmove_back_closed [OF n] True by (auto simp: memmove_def)
  next
    case False
    have "dst + of_nat j \<noteq> src + of_nat i" if "j < i" "i < n" for i j
      using False that ud [of j] us [of i] us [of n]
      by (auto simp: word_less_nat_alt not_less dest: arg_cong [of _ _ unat])
    then have "memmove_fwd m dst src n = (\<lambda>x. if unat (x - dst) < n then m (src + (x - dst)) else m x)"
      by (rule memmove_fwd_closed [OF n])
    moreover have "memmove m dst src n = memmove_fwd m dst src n"
      using False by (auto simp: memmove_def)
    ultimately show ?thesis by simp
  qed
qed

text \<open>
  \<open>memcmp\<close> compares byte by byte and returns the difference of the first two bytes that
  differ, as C ints.
\<close>

fun memcmp :: "memory \<Rightarrow> uint64 \<Rightarrow> uint64 \<Rightarrow> nat \<Rightarrow> int" where
  "memcmp m s1 s2 0 = 0"
| "memcmp m s1 s2 (Suc n) =
     (if m s1 \<noteq> m s2 then uint (m s1) - uint (m s2) else memcmp m (s1 + 1) (s2 + 1) n)"

lemma memcmp_eq_0_iff:
  "memcmp m s1 s2 n = 0 \<longleftrightarrow> (\<forall>i < n. m (s1 + of_nat i) = m (s2 + of_nat i))"
proof (induction n arbitrary: s1 s2)
  case 0
  then show ?case by simp
next
  case (Suc n)
  show ?case
    by (auto simp: Suc.IH All_less_Suc2 algebra_simps word_uint_eq_iff)
qed

section \<open>Pages\<close>

text \<open>
  \<^verbatim>\<open>PGSIZE\<close> and the rounding macros of \<^verbatim>\<open>kernel/riscv.h\<close>.
\<close>

definition PGSIZE :: uint64 where
  "PGSIZE = 4096"

definition PGROUNDUP :: "uint64 \<Rightarrow> uint64" where
  "PGROUNDUP sz = (sz + PGSIZE - 1) AND NOT (PGSIZE - 1)"

definition PGROUNDDOWN :: "uint64 \<Rightarrow> uint64" where
  "PGROUNDDOWN a = a AND NOT (PGSIZE - 1)"

lemma PGROUNDDOWN_align: "PGROUNDDOWN a = align_down 12 a"
  by (simp add: PGROUNDDOWN_def PGSIZE_def align_down_def mask_eq_exp_minus_1)

lemma in_page_iff: "aligned 12 p \<Longrightarrow> x - p < 4096 \<longleftrightarrow> PGROUNDDOWN x = p"
  using in_cell_iff [of 12 p x] by (simp add: PGROUNDDOWN_align)

lemmas aligned12_3 = aligned_weaken [of 12 _ 3, simplified]

lemma aligned12_mod: "p mod PGSIZE = 0 \<longleftrightarrow> aligned 12 p"
  using word_mod_2p_is_mask [where 'a = 64 and n = 12 and x = p]
  by (simp add: PGSIZE_def aligned_iff_mask)

text \<open>The \<open>i\<close>-th 64-bit slot of a page: the address \<^verbatim>\<open>&pagetable[i]\<close>.\<close>

definition slot :: "uint64 \<Rightarrow> uint64 \<Rightarrow> uint64" where
  "slot p i = p + 8 * i"

lemma unat_slot_index: "i < 512 \<Longrightarrow> unat (8 * i :: uint64) = 8 * unat i"
  by (simp add: unat_word_ariths word_less_nat_alt)

lemma aligned_slot [simp]:
  assumes "aligned 12 p"
  shows "aligned 3 (slot p i)"
proof -
  have "8 dvd unat p" using aligned12_3 [OF assms] by (simp add: aligned_iff_dvd)
  then have "8 dvd unat (p + 8 * i)"
    by (auto simp: unat_word_ariths intro!: dvd_mod dvd_add)
  then show ?thesis by (simp add: slot_def aligned_iff_dvd)
qed

lemma page_of_slot:
  assumes "aligned 12 p" and "i < 512" and "k < 8"
  shows "PGROUNDDOWN (slot p i + of_nat k) = p"
proof -
  have "unat (8 * i + of_nat k) = 8 * unat i + k"
    using assms(2,3) by (simp add: unat_word_ariths word_less_nat_alt unat_of_nat)
  then have "(slot p i + of_nat k) - p < 4096"
    using assms(2,3) by (simp add: slot_def word_less_nat_alt)
  then show ?thesis using in_page_iff [OF assms(1)] by blast
qed

lemma slot_inj:
  assumes "aligned 12 p" "aligned 12 q" "i < 512" "j < 512" "slot p i = slot q j"
  shows "p = q \<and> i = j"
proof -
  have "p = q"
    using page_of_slot [of p i 0] page_of_slot [of q j 0] assms by simp
  then have "8 * i = 8 * j" using assms(5) by (simp add: slot_def)
  then have "unat i = unat j"
    using unat_slot_index assms(3,4) by (metis mult_cancel1 zero_neq_numeral)
  then show ?thesis using \<open>p = q\<close> by (simp add: word_unat_eq_iff)
qed

text \<open>Two memories that agree on a page, and on everything outside one.\<close>

definition same_page :: "memory \<Rightarrow> memory \<Rightarrow> uint64 \<Rightarrow> bool" where
  "same_page m m' p \<longleftrightarrow> (\<forall>x. PGROUNDDOWN x = p \<longrightarrow> m' x = m x)"

lemma load64_same_page:
  assumes "same_page m m' p" "aligned 12 p" "i < 512"
  shows "load64 m' (slot p i) = load64 m (slot p i)"
  using assms by (intro load64_cong) (simp add: same_page_def page_of_slot)

lemma slot_0 [simp]: "slot p 0 = p"
  by (simp add: slot_def)

lemmas load64_same_page_0 = load64_same_page [where i = 0, simplified]

lemma same_page_refl [simp]: "same_page m m p"
  by (simp add: same_page_def)

lemma same_page_trans: "same_page m m' p \<Longrightarrow> same_page m' m'' p \<Longrightarrow> same_page m m'' p"
  by (simp add: same_page_def)

lemma memset_page:
  "aligned 12 p \<Longrightarrow> memset m p c 4096 = (\<lambda>x. if PGROUNDDOWN x = p then c else m x)"
  using in_page_iff [of p] by (simp add: memset_closed word_less_nat_alt fun_eq_iff)

lemma same_page_memset [frame_intros]:
  "aligned 12 p \<Longrightarrow> p \<noteq> q \<Longrightarrow> same_page m (memset m p c 4096) q"
  by (simp add: same_page_def memset_page)

lemma same_page_store64 [frame_intros]:
  assumes "aligned 12 p" "i < 512" "p \<noteq> q"
  shows "same_page m (store64 m (slot p i) v) q"
  unfolding same_page_def
proof (intro allI impI)
  fix x assume x: "PGROUNDDOWN x = q"
  have "\<not> x - slot p i < 8"
  proof
    assume "x - slot p i < 8"
    then have "unat (x - slot p i) < 8" by (simp add: word_less_nat_alt)
    then have "PGROUNDDOWN (slot p i + of_nat (unat (x - slot p i))) = p"
      by (rule page_of_slot [OF assms(1,2)])
    then show False using x assms(3) by simp
  qed
  then show "store64 m (slot p i) v x = m x" by (simp add: store64_def)
qed

lemma load64_zero_page:
  assumes "aligned 12 p" "i < 512" "\<And>x. PGROUNDDOWN x = p \<Longrightarrow> m x = 0"
  shows "load64 m (slot p i) = 0"
  using assms by (intro bit_word_eqI) (simp add: bit_load64 page_of_slot)

end
