(* ===== verification/Kalloc.thy ===== *)
theory Kalloc
  imports Phys_Mem
begin

text \<open>
  \<^verbatim>\<open>kernel/kalloc.c\<close>: the allocator of 4096-byte physical pages.  The free list is a linked
  list threaded through the free pages themselves (\<^verbatim>\<open>struct run\<close>), so its links live in the
  byte memory.  \<^verbatim>\<open>kmem.lock\<close> is left out: an operation is one step.  The locale
  \<open>page_allocator\<close> is the contract the page-table code relies on, and
  \<open>kalloc\<close>/\<open>kfree\<close> are shown to satisfy it.
\<close>

section \<open>State and operations\<close>

text \<open>
  \<open>kend\<close> is the linker symbol \<^verbatim>\<open>end\<close>, the first address after the kernel; it never changes.
\<close>

record kmem =
  mem :: memory
  freelist :: uint64
  kend :: uint64

definition KERNBASE :: uint64 where
  "KERNBASE = 0x80000000"

definition PHYSTOP :: uint64 where
  "PHYSTOP = KERNBASE + 128 * 1024 * 1024"

definition kfree :: "'a kmem_scheme \<Rightarrow> uint64 \<Rightarrow> 'a kmem_scheme res" where
  "kfree s pa =
     (if pa mod PGSIZE \<noteq> 0 \<or> pa < kend s \<or> pa \<ge> PHYSTOP then Panic ''kfree''
      else let m = memset (mem s) pa 1 4096
           in Ret (s\<lparr>mem := store64 m pa (freelist s), freelist := pa\<rparr>))"

definition kalloc :: "'a kmem_scheme \<Rightarrow> uint64 \<times> 'a kmem_scheme" where
  "kalloc s =
     (let r = freelist s;
          s1 = (if r \<noteq> 0 then s\<lparr>freelist := load64 (mem s) r\<rparr> else s)
      in if r \<noteq> 0 then (r, s1\<lparr>mem := memset (mem s1) r 5 4096\<rparr>) else (r, s1))"

text \<open>
  \<^verbatim>\<open>freerange\<close>'s loop.  It stops because a page at or past \<^verbatim>\<open>PHYSTOP\<close> makes \<^verbatim>\<open>kfree\<close> panic.
\<close>

lemma kfree_Ret_bound: "kfree s p = Ret s' \<Longrightarrow> p < PHYSTOP"
  by (auto simp: kfree_def split: if_splits)

function freerange_loop :: "'a kmem_scheme \<Rightarrow> uint64 \<Rightarrow> uint64 \<Rightarrow> 'a kmem_scheme res" where
  "freerange_loop s p pa_end =
     (if p + PGSIZE \<le> pa_end
      then rbind (kfree s p) (\<lambda>s'. freerange_loop s' (p + PGSIZE) pa_end)
      else Ret s)"
  by pat_completeness auto
termination
proof (relation "measure (\<lambda>(s, p, pa_end). 2 ^ 64 - unat p)")
  fix s :: "'a kmem_scheme" and p pa_end s'
  assume "kfree s p = Ret s'"
  then have "unat p < unat PHYSTOP"
    using kfree_Ret_bound by (auto simp: word_less_nat_alt)
  then have "unat p < 0x88000000" by (simp add: PHYSTOP_def KERNBASE_def)
  then have "unat (p + PGSIZE) = unat p + 4096"
    by (simp add: PGSIZE_def unat_word_ariths)
  then show "((s', p + PGSIZE, pa_end), s, p, pa_end) \<in> measure (\<lambda>(s, p, pa_end). 2 ^ 64 - unat p)"
    using \<open>unat p < 0x88000000\<close> by simp
qed simp

declare freerange_loop.simps [simp del]

definition freerange :: "'a kmem_scheme \<Rightarrow> uint64 \<Rightarrow> uint64 \<Rightarrow> 'a kmem_scheme res" where
  "freerange s pa_start pa_end = freerange_loop s (PGROUNDUP pa_start) pa_end"

definition kinit :: "'a kmem_scheme \<Rightarrow> 'a kmem_scheme res" where
  "kinit s = freerange s (kend s) PHYSTOP"

section \<open>The free list as a list of pages\<close>

primrec freelist_at :: "memory \<Rightarrow> uint64 \<Rightarrow> uint64 list \<Rightarrow> bool" where
  "freelist_at m p [] \<longleftrightarrow> p = 0"
| "freelist_at m p (x # xs) \<longleftrightarrow> p = x \<and> p \<noteq> 0 \<and> freelist_at m (load64 m p) xs"

definition phys_page :: "'a kmem_scheme \<Rightarrow> uint64 \<Rightarrow> bool" where
  "phys_page s a \<longleftrightarrow> aligned 12 a \<and> kend s \<le> a \<and> a < PHYSTOP \<and> a \<noteq> 0"

definition kmem_inv :: "'a kmem_scheme \<Rightarrow> uint64 list \<Rightarrow> bool" where
  "kmem_inv s fl \<longleftrightarrow>
     freelist_at (mem s) (freelist s) fl \<and> distinct fl \<and> (\<forall>x \<in> set fl. phys_page s x)"

lemma phys_page_aligned: "phys_page s a \<Longrightarrow> aligned 12 a"
  by (simp add: phys_page_def)

lemma phys_page_update [simp]:
  "phys_page (s\<lparr>mem := m\<rparr>) a = phys_page s a"
  "phys_page (s\<lparr>freelist := f\<rparr>) a = phys_page s a"
  by (simp_all add: phys_page_def)

lemma freelist_at_cong:
  assumes "\<And>x. x \<in> set fl \<Longrightarrow> load64 m' x = load64 m x"
  shows "freelist_at m' p fl = freelist_at m p fl"
  using assms by (induction fl arbitrary: p) auto

lemma kmem_inv_frame:
  assumes "kmem_inv s fl"
    and "\<And>x. x \<in> set fl \<Longrightarrow> same_page (mem s) (mem s') x"
    and "freelist s' = freelist s" and "kend s' = kend s"
  shows "kmem_inv s' fl"
proof -
  have pages: "\<forall>x \<in> set fl. phys_page s x" using assms(1) by (simp add: kmem_inv_def)
  have "load64 (mem s') x = load64 (mem s) x" if "x \<in> set fl" for x
    using load64_same_page_0 [OF assms(2) [OF that]] pages that by (simp add: phys_page_def)
  then have "freelist_at (mem s') (freelist s) fl = freelist_at (mem s) (freelist s) fl"
    by (rule freelist_at_cong)
  then show ?thesis
    using assms by (simp add: kmem_inv_def phys_page_def)
qed

lemma kfree_effect:
  assumes "phys_page s p"
  shows "kfree s p = Ret (s\<lparr>mem := store64 (memset (mem s) p 1 4096) p (freelist s), freelist := p\<rparr>)"
  using assms by (auto simp: kfree_def phys_page_def aligned12_mod Let_def)

lemma kfree_inv:
  assumes inv: "kmem_inv s fl" and p: "phys_page s p" and fresh: "p \<notin> set fl"
  obtains s' where "kfree s p = Ret s'" and "kmem_inv s' (p # fl)"
    and "\<And>q. q \<noteq> p \<Longrightarrow> same_page (mem s) (mem s') q" and "kend s' = kend s"
    and "kmem.more s' = kmem.more s"
proof -
  define m where "m = store64 (memset (mem s) p 1 4096) p (freelist s)"
  have al: "aligned 12 p" using p by (rule phys_page_aligned)
  have fr: "same_page (mem s) m q" if "q \<noteq> p" for q
  proof -
    have "same_page (memset (mem s) p 1 4096) m q"
      using same_page_store64 [OF al, of 0 q] that by (simp add: m_def)
    then show ?thesis
      using same_page_memset [OF al, of q] that by (blast intro: same_page_trans)
  qed
  have "load64 m x = load64 (mem s) x" if "x \<in> set fl" for x
  proof (rule load64_same_page_0 [OF fr])
    show "x \<noteq> p" using that fresh by auto
    show "aligned 12 x" using inv that by (auto simp: kmem_inv_def phys_page_def)
  qed
  then have "freelist_at m (freelist s) fl"
    using inv freelist_at_cong [of fl m] by (simp add: kmem_inv_def)
  then have "kmem_inv (s\<lparr>mem := m, freelist := p\<rparr>) (p # fl)"
    using inv p fresh by (auto simp: kmem_inv_def m_def) (auto simp: phys_page_def)
  then show ?thesis
    using that [of "s\<lparr>mem := m, freelist := p\<rparr>"] kfree_effect [OF p] fr by (simp add: m_def)
qed

lemma kalloc_empty: "kmem_inv s [] \<Longrightarrow> kalloc s = (0, s)"
  by (simp add: kmem_inv_def kalloc_def Let_def)

lemma kalloc_cons:
  assumes "kmem_inv s (x # fl)"
  obtains s' where "kalloc s = (x, s')" and "kmem_inv s' fl"
    and "mem s' = memset (mem s) x 5 4096"
    and "\<And>q. q \<noteq> x \<Longrightarrow> same_page (mem s) (mem s') q" and "kend s' = kend s"
    and "kmem.more s' = kmem.more s"
proof -
  define s1 where "s1 = s\<lparr>freelist := load64 (mem s) x\<rparr>"
  define s' where "s' = s1\<lparr>mem := memset (mem s) x 5 4096\<rparr>"
  have al: "aligned 12 x" using assms by (simp add: kmem_inv_def phys_page_def)
  have inv1: "kmem_inv s1 fl" using assms by (auto simp: kmem_inv_def s1_def)
  have fr: "same_page (mem s) (mem s') q" if "q \<noteq> x" for q
    using same_page_memset [OF al, of q] that by (simp add: s'_def s1_def)
  have "kmem_inv s' fl"
  proof (rule kmem_inv_frame [OF inv1])
    fix y assume "y \<in> set fl"
    then have "y \<noteq> x" using assms by (auto simp: kmem_inv_def)
    then show "same_page (mem s1) (mem s') y" using fr by (simp add: s1_def)
  qed (simp_all add: s'_def)
  moreover have "kalloc s = (x, s')"
    using assms by (auto simp: kmem_inv_def kalloc_def s'_def s1_def Let_def)
  ultimately show ?thesis using that fr by (simp add: s'_def s1_def)
qed

section \<open>The allocator's contract\<close>

text \<open>
  What a client of an allocator of pages may rely on: \<open>inv s fl\<close> says that \<open>fl\<close> are the pages
  available in state \<open>s\<close>, next one first, and \<open>bytes\<close> is the memory the pages belong to.
\<close>

locale page_allocator =
  fixes alloc :: "'s \<Rightarrow> uint64 \<times> 's"
    and free :: "'s \<Rightarrow> uint64 \<Rightarrow> 's res"
    and inv :: "'s \<Rightarrow> uint64 list \<Rightarrow> bool"
    and page :: "'s \<Rightarrow> uint64 \<Rightarrow> bool"
    and bytes :: "'s \<Rightarrow> memory"
  assumes inv_pages: "inv s fl \<Longrightarrow> distinct fl \<and> (\<forall>x \<in> set fl. page s x)"
    and page_nonnull: "page s x \<Longrightarrow> x \<noteq> 0"
    and alloc_none: "inv s [] \<Longrightarrow> alloc s = (0, s)"
    and alloc_some: "inv s (x # fl) \<Longrightarrow>
      \<exists>s'. alloc s = (x, s') \<and> inv s' fl \<and> page s' = page s \<and>
           (\<forall>q. q \<noteq> x \<longrightarrow> same_page (bytes s) (bytes s') q)"
    and free_page: "inv s fl \<Longrightarrow> page s p \<Longrightarrow> p \<notin> set fl \<Longrightarrow>
      \<exists>s'. free s p = Ret s' \<and> inv s' (p # fl) \<and> page s' = page s \<and>
           (\<forall>q. q \<noteq> p \<longrightarrow> same_page (bytes s) (bytes s') q)"
begin

lemma alloc_cases:
  assumes "inv s fl"
  obtains (none) "fl = []" and "alloc s = (0, s)"
    | (some) x xs s' where "fl = x # xs" and "alloc s = (x, s')" and "inv s' xs"
      and "page s' = page s" and "\<And>q. q \<noteq> x \<Longrightarrow> same_page (bytes s) (bytes s') q"
proof (cases fl)
  case Nil
  then show ?thesis using assms alloc_none none by simp
next
  case (Cons x xs)
  then show ?thesis using assms alloc_some [of s x xs] some by auto
qed

lemma alloc_zero_iff:
  assumes "inv s fl"
  shows "fst (alloc s) = 0 \<longleftrightarrow> fl = []"
  using assms
proof (cases rule: alloc_cases)
  case (some x xs s')
  then show ?thesis using inv_pages [OF assms] page_nonnull by auto
qed simp

lemma alloc_after_free:
  assumes "inv s fl" "page s p" "p \<notin> set fl"
  shows "\<exists>s' s''. free s p = Ret s' \<and> alloc s' = (p, s'') \<and> inv s'' fl"
  using free_page [OF assms] alloc_some by blast

lemma pages_bounded:
  assumes "inv s fl" "finite P" "\<And>x. page s x \<Longrightarrow> x \<in> P"
  shows "length fl \<le> card P"
proof -
  have "set fl \<subseteq> P" using assms inv_pages by blast
  then show ?thesis
    using inv_pages [OF assms(1)] assms(2) by (metis card_mono distinct_card)
qed

end

interpretation kalloc: page_allocator kalloc kfree kmem_inv phys_page mem
proof unfold_locales
  fix s :: "'a kmem_scheme" and x fl
  assume "kmem_inv s (x # fl)"
  then obtain s' where "kalloc s = (x, s')" "kmem_inv s' fl" "kend s' = kend s"
      "\<And>q. q \<noteq> x \<Longrightarrow> same_page (mem s) (mem s') q"
    by (rule kalloc_cons) blast
  then show "\<exists>s'. kalloc s = (x, s') \<and> kmem_inv s' fl \<and> phys_page s' = phys_page s \<and>
      (\<forall>q. q \<noteq> x \<longrightarrow> same_page (mem s) (mem s') q)"
    by (auto simp: phys_page_def fun_eq_iff)
next
  fix s :: "'a kmem_scheme" and p fl
  assume "kmem_inv s fl" "phys_page s p" "p \<notin> set fl"
  then obtain s' where "kfree s p = Ret s'" "kmem_inv s' (p # fl)" "kend s' = kend s"
      "\<And>q. q \<noteq> p \<Longrightarrow> same_page (mem s) (mem s') q"
    by (rule kfree_inv) blast
  then show "\<exists>s'. kfree s p = Ret s' \<and> kmem_inv s' (p # fl) \<and> phys_page s' = phys_page s \<and>
      (\<forall>q. q \<noteq> p \<longrightarrow> same_page (mem s) (mem s') q)"
    by (auto simp: phys_page_def fun_eq_iff)
qed (auto simp: kmem_inv_def phys_page_def kalloc_empty)

section \<open>Initialisation\<close>

lemma unat_PHYSTOP: "unat PHYSTOP = 0x88000000"
  by (simp add: PHYSTOP_def KERNBASE_def)

lemma freerange_loop_inv:
  assumes "kmem_inv s fl" "aligned 12 p" "kend s \<le> p" "p \<noteq> 0" "p \<le> PHYSTOP"
    and "\<And>x. x \<in> set fl \<Longrightarrow> x < p"
  shows "\<exists>s' fl'. freerange_loop s p PHYSTOP = Ret s' \<and> kmem_inv s' fl' \<and> kend s' = kend s \<and>
    set fl' = set fl \<union> {a. aligned 12 a \<and> p \<le> a \<and> a < PHYSTOP}"
  using assms
proof (induction s p PHYSTOP arbitrary: fl rule: freerange_loop.induct)
  case (1 s p)
  have dvd: "4096 dvd unat p" using "1.prems" by (simp add: aligned_iff_dvd)
  show ?case
  proof (cases "p + PGSIZE \<le> PHYSTOP \<and> p < PHYSTOP")
    case False
    have "unat p \<le> 0x88000000" using "1.prems" by (simp add: word_le_nat_alt unat_PHYSTOP)
    then have u: "unat (p + PGSIZE) = unat p + 4096"
      by (simp add: PGSIZE_def unat_word_ariths)
    then have "p = PHYSTOP"
      using False dvd \<open>unat p \<le> 0x88000000\<close>
      by (auto simp: word_le_nat_alt word_less_nat_alt unat_PHYSTOP word_unat_eq_iff)
    then have "\<not> p + PGSIZE \<le> PHYSTOP" using u by (simp add: word_le_nat_alt unat_PHYSTOP)
    then show ?thesis
      using "1.prems" \<open>p = PHYSTOP\<close> by (subst freerange_loop.simps) (auto intro: exI [of _ fl])
  next
    case True
    then have up: "unat p < 0x88000000" by (simp add: word_less_nat_alt unat_PHYSTOP)
    then have u: "unat (p + PGSIZE) = unat p + 4096"
      by (simp add: PGSIZE_def unat_word_ariths)
    have "phys_page s p" "p \<notin> set fl"
      using True "1.prems" by (auto simp: phys_page_def)
    with "1.prems"(1) obtain s1 where s1: "kfree s p = Ret s1" "kmem_inv s1 (p # fl)" "kend s1 = kend s"
      by (rule kfree_inv) blast
    have lt: "p < p + PGSIZE" using u by (simp add: word_less_nat_alt)
    have "\<exists>s' fl'. freerange_loop s1 (p + PGSIZE) PHYSTOP = Ret s' \<and> kmem_inv s' fl' \<and>
        kend s' = kend s1 \<and>
        set fl' = set (p # fl) \<union> {a. aligned 12 a \<and> p + PGSIZE \<le> a \<and> a < PHYSTOP}"
    proof (rule "1.hyps" [OF _ s1(1,2)])
      show "p + PGSIZE \<le> PHYSTOP" using True by simp
      then show "p + PGSIZE \<le> PHYSTOP" .
      show "aligned 12 (p + PGSIZE)" using dvd u by (simp add: aligned_iff_dvd)
      show "kend s1 \<le> p + PGSIZE" using s1(3) "1.prems"(3) lt by auto
      show "p + PGSIZE \<noteq> 0" using lt by auto
      show "x < p + PGSIZE" if "x \<in> set (p # fl)" for x
        using that lt "1.prems"(6) by (metis order.strict_trans set_ConsD)
    qed
    then obtain s' fl' where s': "freerange_loop s1 (p + PGSIZE) PHYSTOP = Ret s'" "kmem_inv s' fl'"
        "kend s' = kend s1"
        "set fl' = set (p # fl) \<union> {a. aligned 12 a \<and> p + PGSIZE \<le> a \<and> a < PHYSTOP}"
      by blast
    have "p + PGSIZE \<le> a \<longleftrightarrow> p \<le> a \<and> a \<noteq> p" if al: "aligned 12 a" for a
    proof -
      obtain k where "unat a = 4096 * k" using al by (auto simp: aligned_iff_dvd)
      moreover obtain j where "unat p = 4096 * j" using dvd by auto
      ultimately have "unat p + 4096 \<le> unat a \<longleftrightarrow> unat p \<le> unat a \<and> unat a \<noteq> unat p"
        by auto
      then show ?thesis using u by (simp add: word_le_nat_alt word_unat_eq_iff)
    qed
    then have "set fl' = set fl \<union> {a. aligned 12 a \<and> p \<le> a \<and> a < PHYSTOP}"
      using s'(4) True "1.prems"(2) by auto
    then show ?thesis
      using s' s1 True by (subst freerange_loop.simps) auto
  qed
qed

lemma unat_PGROUNDUP:
  assumes "unat x + 4095 < 2 ^ 64"
  shows "unat (PGROUNDUP x) = (unat x + 4095) div 4096 * 4096"
proof -
  have "PGROUNDUP x = align_down 12 (x + 4095)"
    by (simp add: PGROUNDUP_def PGSIZE_def align_down_def mask_eq_exp_minus_1 add.commute)
  moreover have "unat (x + 4095) = unat x + 4095"
    using assms by (simp add: unat_word_ariths)
  ultimately show ?thesis by (simp add: unat_align_down)
qed

lemma PGROUNDUP_align: "PGROUNDUP x = align_down 12 (x + 4095)"
  by (simp add: PGROUNDUP_def PGSIZE_def align_down_def mask_eq_exp_minus_1 add.commute)

lemma aligned_PGROUNDUP [simp]: "aligned 12 (PGROUNDUP x)"
  by (simp add: PGROUNDUP_align)

lemma PGROUNDUP_le_aligned:
  assumes "aligned 12 a" "unat x + 4095 < 2 ^ 64"
  shows "PGROUNDUP x \<le> a \<longleftrightarrow> x \<le> a"
proof -
  obtain k where k: "unat a = k * 4096" using assms(1) by (auto simp: aligned_iff_dvd mult.commute)
  have "(unat x + 4095) div 4096 < Suc k \<longleftrightarrow> unat x + 4095 < Suc k * 4096"
    by (rule div_less_iff_less_mult) simp
  then have "(unat x + 4095) div 4096 * 4096 \<le> unat a \<longleftrightarrow> unat x \<le> unat a"
    using k by auto
  then show ?thesis using unat_PGROUNDUP [OF assms(2)] by (simp add: word_le_nat_alt)
qed

text \<open>
  C10: booting the allocator puts every physical page between the end of the kernel and
  \<^verbatim>\<open>PHYSTOP\<close> on the free list exactly once, without panicking.
\<close>

theorem kinit_frees_all:
  assumes "freelist s = 0" and "kend s \<noteq> 0" and "kend s \<le> PHYSTOP"
  shows "\<exists>s' fl. kinit s = Ret s' \<and> kmem_inv s' fl \<and> distinct fl \<and>
    set fl = {a. a mod PGSIZE = 0 \<and> kend s \<le> a \<and> a < PHYSTOP}"
proof -
  have le: "unat (kend s) \<le> 0x88000000"
    using assms(3) by (simp add: word_le_nat_alt unat_PHYSTOP)
  then have ov: "unat (kend s) + 4095 < 2 ^ 64" by simp
  have ks: "kend s \<le> PGROUNDUP (kend s)"
    using PGROUNDUP_le_aligned [OF aligned_PGROUNDUP ov] by blast
  have al: "aligned 12 PHYSTOP" by (simp add: aligned_iff_dvd unat_PHYSTOP)
  have "\<exists>s' fl'. freerange_loop s (PGROUNDUP (kend s)) PHYSTOP = Ret s' \<and> kmem_inv s' fl' \<and>
      kend s' = kend s \<and>
      set fl' = set [] \<union> {a. aligned 12 a \<and> PGROUNDUP (kend s) \<le> a \<and> a < PHYSTOP}"
  proof (rule freerange_loop_inv)
    show "kmem_inv s []" using assms(1) by (simp add: kmem_inv_def)
    show "PGROUNDUP (kend s) \<noteq> 0" using ks assms(2) by auto
    show "PGROUNDUP (kend s) \<le> PHYSTOP"
      using PGROUNDUP_le_aligned [OF al ov] assms(3) by blast
  qed (use ks in simp_all)
  moreover have "{a. aligned 12 a \<and> PGROUNDUP (kend s) \<le> a \<and> a < PHYSTOP} =
      {a. a mod PGSIZE = 0 \<and> kend s \<le> a \<and> a < PHYSTOP}"
    using PGROUNDUP_le_aligned [OF _ ov] by (auto simp: aligned12_mod)
  ultimately show ?thesis
    by (auto simp: kinit_def freerange_def kmem_inv_def)
qed

theorem kinit_frees_all_witness:
  "\<exists>s' fl. kinit \<lparr>mem = (\<lambda>_. 0), freelist = 0, kend = 0x80021d38\<rparr> = Ret s' \<and>
     kmem_inv s' fl \<and> distinct fl \<and>
     set fl = {a. a mod PGSIZE = 0 \<and> 0x80021d38 \<le> a \<and> a < PHYSTOP}"
  using kinit_frees_all [of "\<lparr>mem = (\<lambda>_. 0), freelist = 0, kend = 0x80021d38\<rparr>"]
  by (simp add: PHYSTOP_def KERNBASE_def)


text \<open>A small machine with two free pages, used by the witnesses.\<close>

definition demo_kmem :: kmem where
  "demo_kmem =
     \<lparr>mem = (\<lambda>x. if x = 0x80100001 then 0x20 else if x = 0x80100002 then 0x10 else if x = 0x80100003 then 0x80 else 0),
      freelist = 0x80100000, kend = 0x80021d38\<rparr>"

lemma demo_kmem_inv: "kmem_inv demo_kmem [0x80100000, 0x80102000]"
  by (simp add: kmem_inv_def demo_kmem_def load64_def phys_page_def aligned_def align_down_def
      PHYSTOP_def KERNBASE_def mask_eq_exp_minus_1)


end
