(* ===== verification/Page_Table.thy ===== *)
theory Page_Table
  imports Kalloc
begin

text \<open>
  The Sv39 page tables of \<^verbatim>\<open>kernel/riscv.h\<close> and \<^verbatim>\<open>kernel/vm.c\<close>.  A page table is a tree of
  pages of 512 64-bit entries that lives in the byte memory, so \<open>walk\<close> follows entries by
  loading them and builds missing levels by allocating, clearing and linking pages.  Calls
  that return a pointer return its address, 0 for null; \<^verbatim>\<open>int\<close> status codes are \<open>int\<close>.
\<close>

section \<open>Entries and indices\<close>

definition PTE_V :: uint64 where "PTE_V = 1"
definition PTE_R :: uint64 where "PTE_R = 2"
definition PTE_W :: uint64 where "PTE_W = 4"
definition PTE_X :: uint64 where "PTE_X = 8"
definition PTE_U :: uint64 where "PTE_U = 16"

definition PA2PTE :: "uint64 \<Rightarrow> uint64" where
  "PA2PTE pa = push_bit 10 (drop_bit 12 pa)"

definition PTE2PA :: "uint64 \<Rightarrow> uint64" where
  "PTE2PA pte = push_bit 12 (drop_bit 10 pte)"

definition PTE_FLAGS :: "uint64 \<Rightarrow> uint64" where
  "PTE_FLAGS pte = pte AND 0x3FF"

definition PX :: "nat \<Rightarrow> uint64 \<Rightarrow> uint64" where
  "PX level va = drop_bit (12 + 9 * level) va AND 0x1FF"

definition MAXVA :: uint64 where
  "MAXVA = push_bit (9 + 9 + 9 + 12 - 1) 1"

section \<open>Walking and mapping\<close>

fun walk_levels :: "nat \<Rightarrow> 'a kmem_scheme \<Rightarrow> uint64 \<Rightarrow> uint64 \<Rightarrow> bool \<Rightarrow> uint64 \<times> 'a kmem_scheme" where
  "walk_levels 0 s pagetable va alloc = (slot pagetable (PX 0 va), s)"
| "walk_levels (Suc l) s pagetable va alloc =
     (let pte = slot pagetable (PX (Suc l) va); v = load64 (mem s) pte
      in if v AND PTE_V \<noteq> 0 then walk_levels l s (PTE2PA v) va alloc
         else if \<not> alloc then (0, s)
         else case kalloc s of (pt, s1) \<Rightarrow>
           if pt = 0 then (0, s1)
           else let m = memset (mem s1) pt 0 4096
                in walk_levels l (s1\<lparr>mem := store64 m pte (PA2PTE pt OR PTE_V)\<rparr>) pt va alloc)"

definition walk :: "'a kmem_scheme \<Rightarrow> uint64 \<Rightarrow> uint64 \<Rightarrow> bool \<Rightarrow> (uint64 \<times> 'a kmem_scheme) res" where
  "walk s pagetable va alloc =
     (if va \<ge> MAXVA then Panic ''walk'' else Ret (walk_levels 2 s pagetable va alloc))"

definition walkaddr :: "'a kmem_scheme \<Rightarrow> uint64 \<Rightarrow> uint64 \<Rightarrow> uint64 res" where
  "walkaddr s pagetable va =
     (if va \<ge> MAXVA then Ret 0
      else rbind (walk s pagetable va False) (\<lambda>(pte, s).
        if pte = 0 then Ret 0
        else let v = load64 (mem s) pte in
          if v AND PTE_V = 0 then Ret 0
          else if v AND PTE_U = 0 then Ret 0
          else Ret (PTE2PA v)))"

lemma walk_Ret_bound: "walk s pt a al = Ret r \<Longrightarrow> unat a < 2 ^ 38"
  by (auto simp: walk_def MAXVA_def word_le_nat_alt not_le split: if_splits)

lemma unat_next_page: "unat a < 2 ^ 38 \<Longrightarrow> unat (a + PGSIZE) = unat a + 4096"
  by (simp add: PGSIZE_def unat_word_ariths)

function mappages_loop ::
  "'a kmem_scheme \<Rightarrow> uint64 \<Rightarrow> uint64 \<Rightarrow> uint64 \<Rightarrow> uint64 \<Rightarrow> uint64 \<Rightarrow> (int \<times> 'a kmem_scheme) res" where
  "mappages_loop s pagetable a last_a pa perm =
     rbind (walk s pagetable a True) (\<lambda>(pte, s1).
       if pte = 0 then Ret (-1, s1)
       else if load64 (mem s1) pte AND PTE_V \<noteq> 0 then Panic ''mappages: remap''
       else let s2 = s1\<lparr>mem := store64 (mem s1) pte (PA2PTE pa OR perm OR PTE_V)\<rparr>
            in if a = last_a then Ret (0, s2)
               else mappages_loop s2 pagetable (a + PGSIZE) last_a (pa + PGSIZE) perm)"
  by pat_completeness auto
termination
  by (relation "measure (\<lambda>(s, pt, a, last_a, pa, perm). 2 ^ 64 - unat a)")
    (auto dest!: walk_Ret_bound simp: unat_next_page)

declare mappages_loop.simps [simp del]

definition mappages ::
  "'a kmem_scheme \<Rightarrow> uint64 \<Rightarrow> uint64 \<Rightarrow> uint64 \<Rightarrow> uint64 \<Rightarrow> uint64 \<Rightarrow> (int \<times> 'a kmem_scheme) res" where
  "mappages s pagetable va sz pa perm =
     (if va mod PGSIZE \<noteq> 0 then Panic ''mappages: va not aligned''
      else if sz mod PGSIZE \<noteq> 0 then Panic ''mappages: size not aligned''
      else if sz = 0 then Panic ''mappages: size''
      else mappages_loop s pagetable va (va + sz - PGSIZE) pa perm)"

definition uvmcreate :: "'a kmem_scheme \<Rightarrow> uint64 \<times> 'a kmem_scheme" where
  "uvmcreate s =
     (case kalloc s of (pagetable, s1) \<Rightarrow>
        if pagetable = 0 then (0, s1)
        else (pagetable, s1\<lparr>mem := memset (mem s1) pagetable 0 4096\<rparr>))"

function uvmunmap_loop ::
  "'a kmem_scheme \<Rightarrow> uint64 \<Rightarrow> uint64 \<Rightarrow> uint64 \<Rightarrow> bool \<Rightarrow> 'a kmem_scheme res" where
  "uvmunmap_loop s pagetable a bound do_free =
     (if a < bound then
        rbind (walk s pagetable a False) (\<lambda>(pte, s1).
          if pte = 0 then uvmunmap_loop s1 pagetable (a + PGSIZE) bound do_free
          else if load64 (mem s1) pte AND PTE_V = 0
          then uvmunmap_loop s1 pagetable (a + PGSIZE) bound do_free
          else rbind (if do_free then kfree s1 (PTE2PA (load64 (mem s1) pte)) else Ret s1) (\<lambda>s2.
            uvmunmap_loop (s2\<lparr>mem := store64 (mem s2) pte 0\<rparr>) pagetable (a + PGSIZE) bound do_free))
      else Ret s)"
  by pat_completeness auto
termination
  by (relation "measure (\<lambda>(s, pt, a, bound, do_free). 2 ^ 64 - unat a)")
    (auto dest!: walk_Ret_bound simp: unat_next_page)

declare uvmunmap_loop.simps [simp del]

definition uvmunmap ::
  "'a kmem_scheme \<Rightarrow> uint64 \<Rightarrow> uint64 \<Rightarrow> uint64 \<Rightarrow> bool \<Rightarrow> 'a kmem_scheme res" where
  "uvmunmap s pagetable va npages do_free =
     (if va mod PGSIZE \<noteq> 0 then Panic ''uvmunmap: not aligned''
      else uvmunmap_loop s pagetable va (va + npages * PGSIZE) do_free)"

text \<open>
  \<^verbatim>\<open>npages\<close> of \<^verbatim>\<open>uvmdealloc\<close> is an \<^verbatim>\<open>int\<close> and is sign-extended when it is passed on as a
  \<^verbatim>\<open>uint64\<close>.
\<close>

definition uvmdealloc ::
  "'a kmem_scheme \<Rightarrow> uint64 \<Rightarrow> uint64 \<Rightarrow> uint64 \<Rightarrow> (uint64 \<times> 'a kmem_scheme) res" where
  "uvmdealloc s pagetable oldsz newsz =
     (if newsz \<ge> oldsz then Ret (oldsz, s)
      else if PGROUNDUP newsz < PGROUNDUP oldsz then
        (let npages = (ucast ((PGROUNDUP oldsz - PGROUNDUP newsz) div PGSIZE) :: uint32)
         in rbind (uvmunmap s pagetable (PGROUNDUP newsz) (scast npages) True) (\<lambda>s1. Ret (newsz, s1)))
      else Ret (newsz, s))"

lemma mappages_Ret_bound:
  assumes "mappages s pt a sz pa perm = Ret r"
  shows "unat a < 2 ^ 38"
proof -
  have "mappages_loop s pt a (a + sz - PGSIZE) pa perm = Ret r"
    using assms by (simp add: mappages_def split: if_splits)
  then obtain x where "walk s pt a True = Ret x"
    by (subst (asm) mappages_loop.simps) (auto elim: rbind_RetE)
  then show ?thesis by (rule walk_Ret_bound)
qed

function uvmalloc_loop ::
  "'a kmem_scheme \<Rightarrow> uint64 \<Rightarrow> uint64 \<Rightarrow> uint64 \<Rightarrow> uint64 \<Rightarrow> uint64 \<Rightarrow> (uint64 \<times> 'a kmem_scheme) res" where
  "uvmalloc_loop s pagetable oldsz a newsz xperm =
     (if a < newsz then
        (case kalloc s of (mm, s1) \<Rightarrow>
          if mm = 0 then rbind (uvmdealloc s1 pagetable a oldsz) (\<lambda>(_, s2). Ret (0, s2))
          else let s2 = s1\<lparr>mem := memset (mem s1) mm 0 4096\<rparr> in
            rbind (mappages s2 pagetable a PGSIZE mm (PTE_R OR PTE_U OR xperm)) (\<lambda>(r, s3).
              if r \<noteq> 0 then
                rbind (kfree s3 mm) (\<lambda>s4.
                  rbind (uvmdealloc s4 pagetable a oldsz) (\<lambda>(_, s5). Ret (0, s5)))
              else uvmalloc_loop s3 pagetable oldsz (a + PGSIZE) newsz xperm))
      else Ret (newsz, s))"
  by pat_completeness auto
termination
  by (relation "measure (\<lambda>(s, pt, oldsz, a, newsz, xperm). 2 ^ 64 - unat a)")
    (auto dest!: mappages_Ret_bound simp: unat_next_page)

declare uvmalloc_loop.simps [simp del]

definition uvmalloc ::
  "'a kmem_scheme \<Rightarrow> uint64 \<Rightarrow> uint64 \<Rightarrow> uint64 \<Rightarrow> uint64 \<Rightarrow> (uint64 \<times> 'a kmem_scheme) res" where
  "uvmalloc s pagetable oldsz newsz xperm =
     (if newsz < oldsz then Ret (oldsz, s)
      else uvmalloc_loop s pagetable (PGROUNDUP oldsz) (PGROUNDUP oldsz) newsz xperm)"

text \<open>
  \<^verbatim>\<open>freewalk\<close> recurses into every entry that is valid and has no R, W or X bit.  The depth
  bound makes the recursion structural: three levels are all that Sv39 has, and a table
  whose non-leaf entries nest deeper is the result \<open>None\<close>.  \<open>i\<close> counts the entries still to
  be visited, so the index is \<open>512 - i\<close>.
\<close>

fun freewalk_at :: "nat \<Rightarrow> nat \<Rightarrow> 'a kmem_scheme \<Rightarrow> uint64 \<Rightarrow> 'a kmem_scheme res option" where
  "freewalk_at 0 i s pagetable = None"
| "freewalk_at (Suc d) 0 s pagetable = Some (kfree s pagetable)"
| "freewalk_at (Suc d) (Suc i) s pagetable =
     (let j = of_nat (512 - Suc i); pte = load64 (mem s) (slot pagetable j) in
      if pte AND PTE_V \<noteq> 0 \<and> pte AND (PTE_R OR PTE_W OR PTE_X) = 0 then
        (case freewalk_at d 512 s (PTE2PA pte) of
           None \<Rightarrow> None
         | Some (Panic e) \<Rightarrow> Some (Panic e)
         | Some (Ret s1) \<Rightarrow>
             freewalk_at (Suc d) i (s1\<lparr>mem := store64 (mem s1) (slot pagetable j) 0\<rparr>) pagetable)
      else freewalk_at (Suc d) i s pagetable)"

definition freewalk :: "'a kmem_scheme \<Rightarrow> uint64 \<Rightarrow> 'a kmem_scheme res option" where
  "freewalk s pagetable = freewalk_at 3 512 s pagetable"

definition uvmfree :: "'a kmem_scheme \<Rightarrow> uint64 \<Rightarrow> uint64 \<Rightarrow> 'a kmem_scheme res option" where
  "uvmfree s pagetable sz =
     (case (if sz > 0 then uvmunmap s pagetable 0 (PGROUNDUP sz div PGSIZE) True else Ret s) of
        Panic e \<Rightarrow> Some (Panic e)
      | Ret s1 \<Rightarrow> freewalk s1 pagetable)"

function uvmcopy_loop ::
  "'a kmem_scheme \<Rightarrow> uint64 \<Rightarrow> uint64 \<Rightarrow> uint64 \<Rightarrow> uint64 \<Rightarrow> (int \<times> 'a kmem_scheme) res" where
  "uvmcopy_loop s old new i sz =
     (if i < sz then
        rbind (walk s old i False) (\<lambda>(pte, s1).
          if pte = 0 then uvmcopy_loop s1 old new (i + PGSIZE) sz
          else let v = load64 (mem s1) pte in
            if v AND PTE_V = 0 then uvmcopy_loop s1 old new (i + PGSIZE) sz
            else case kalloc s1 of (mm, s2) \<Rightarrow>
              if mm = 0 then rbind (uvmunmap s2 new 0 (i div PGSIZE) True) (\<lambda>s3. Ret (-1, s3))
              else let s3 = s2\<lparr>mem := memmove (mem s2) mm (PTE2PA v) 4096\<rparr> in
                rbind (mappages s3 new i PGSIZE mm (PTE_FLAGS v)) (\<lambda>(r, s4).
                  if r \<noteq> 0 then
                    rbind (kfree s4 mm) (\<lambda>s5.
                      rbind (uvmunmap s5 new 0 (i div PGSIZE) True) (\<lambda>s6. Ret (-1, s6)))
                  else uvmcopy_loop s4 old new (i + PGSIZE) sz))
      else Ret (0, s))"
  by pat_completeness auto
termination
  by (relation "measure (\<lambda>(s, old, new, i, sz). 2 ^ 64 - unat i)")
    (auto dest!: walk_Ret_bound simp: unat_next_page)

declare uvmcopy_loop.simps [simp del]

definition uvmcopy ::
  "'a kmem_scheme \<Rightarrow> uint64 \<Rightarrow> uint64 \<Rightarrow> uint64 \<Rightarrow> (int \<times> 'a kmem_scheme) res" where
  "uvmcopy s old new sz = uvmcopy_loop s old new 0 sz"

definition uvmclear :: "'a kmem_scheme \<Rightarrow> uint64 \<Rightarrow> uint64 \<Rightarrow> 'a kmem_scheme res" where
  "uvmclear s pagetable va =
     rbind (walk s pagetable va False) (\<lambda>(pte, s1).
       if pte = 0 then Panic ''uvmclear''
       else Ret (s1\<lparr>mem := store64 (mem s1) pte (load64 (mem s1) pte AND NOT PTE_U)\<rparr>))"

definition ismapped :: "'a kmem_scheme \<Rightarrow> uint64 \<Rightarrow> uint64 \<Rightarrow> bool res" where
  "ismapped s pagetable va =
     rbind (walk s pagetable va False) (\<lambda>(pte, s1).
       if pte = 0 then Ret False else Ret (load64 (mem s1) pte AND PTE_V \<noteq> 0))"

definition kvmmap ::
  "'a kmem_scheme \<Rightarrow> uint64 \<Rightarrow> uint64 \<Rightarrow> uint64 \<Rightarrow> uint64 \<Rightarrow> uint64 \<Rightarrow> 'a kmem_scheme res" where
  "kvmmap s kpgtbl va pa sz perm =
     rbind (mappages s kpgtbl va sz pa perm) (\<lambda>(r, s1).
       if r \<noteq> 0 then Panic ''kvmmap'' else Ret s1)"

end
