(* ===== verification/Page_Tree.thy ===== *)
theory Page_Tree
  imports Page_Table
begin

text \<open>
  What a page table means: the tree of table pages (\<open>node\<close>), the leaf entry of a virtual
  address (\<open>pte_of\<close>), the invariant that makes the tree a tree (\<open>pt_inv\<close>: no page is used
  twice and none is free), and the effect of \<open>walk\<close>, \<open>mappages\<close> and \<open>uvmunmap\<close> on that
  view: an address space is a finite map from pages to entries.
\<close>

section \<open>Encoding of entries and addresses\<close>

lemma bit_PA2PTE: "bit (PA2PTE pa) i \<longleftrightarrow> 10 \<le> i \<and> i < 64 \<and> bit pa (i + 2)"
  by (auto simp: PA2PTE_def bit_simps)

lemma bit_PTE2PA: "bit (PTE2PA v) i \<longleftrightarrow> 12 \<le> i \<and> i < 64 \<and> bit v (i - 2)"
  by (auto simp: PTE2PA_def bit_simps)

definition phys_addr :: "uint64 \<Rightarrow> bool" where
  "phys_addr pa \<longleftrightarrow> aligned 12 pa \<and> pa < 2 ^ 56"

definition low_flags :: "uint64 \<Rightarrow> bool" where
  "low_flags f \<longleftrightarrow> f AND mask 10 = f"

lemma bit_less_56: "(pa :: uint64) < 2 ^ 56 \<Longrightarrow> bit pa i \<Longrightarrow> i < 56"
  using bit_less_2p [of pa 56 i] by simp

lemma PTE2PA_encode:
  assumes "phys_addr pa" "low_flags f"
  shows "PTE2PA (PA2PTE pa OR f) = pa"
proof (rule bit_word_eqI)
  fix i assume i: "i < LENGTH(64)"
  have f: "bit f j \<Longrightarrow> j < 10" for j
    using assms(2) unfolding low_flags_def by (metis bit_and_iff bit_mask_iff)
  have a: "bit pa j \<Longrightarrow> 12 \<le> j \<and> j < 56" for j
    using assms(1) unfolding phys_addr_def aligned_def by (metis bit_align_down bit_less_56)
  show "bit (PTE2PA (PA2PTE pa OR f)) i = bit pa i"
  proof (cases "12 \<le> i")
    case True
    then obtain k where "i = 12 + k" using le_Suc_ex by blast
    then show ?thesis
      using i f [of "10 + k"] a [of i] by (auto simp: bit_PTE2PA bit_PA2PTE bit_or_iff)
  next
    case False
    then show ?thesis using a [of i] by (auto simp: bit_PTE2PA)
  qed
qed

lemma PTE_FLAGS_encode:
  assumes "low_flags f"
  shows "PTE_FLAGS (PA2PTE pa OR f) = f"
proof (rule bit_word_eqI)
  fix i assume i: "i < LENGTH(64)"
  have m: "PTE_FLAGS v = v AND mask 10" for v by (simp add: PTE_FLAGS_def mask_eq_exp_minus_1)
  have f: "bit f j \<Longrightarrow> j < 10" for j
    using assms unfolding low_flags_def by (metis bit_and_iff bit_mask_iff)
  show "bit (PTE_FLAGS (PA2PTE pa OR f)) i = bit f i"
    unfolding m using i f [of i] by (auto simp: bit_simps bit_PA2PTE)
qed

lemma phys_page_addr: "phys_page s a \<Longrightarrow> phys_addr a"
  by (auto simp: phys_page_def phys_addr_def PHYSTOP_def KERNBASE_def word_less_nat_alt)

lemma low_flags_or [simp]: "low_flags a \<Longrightarrow> low_flags b \<Longrightarrow> low_flags (a OR b)"
  by (simp add: low_flags_def bit.conj_disj_distrib2)

lemma low_flags_consts [simp]:
  "low_flags PTE_V" "low_flags PTE_R" "low_flags PTE_W" "low_flags PTE_X" "low_flags PTE_U"
  by (simp_all add: low_flags_def PTE_V_def PTE_R_def PTE_W_def PTE_X_def PTE_U_def mask_eq_exp_minus_1)

lemma and_PTE_V_iff: "v AND PTE_V \<noteq> 0 \<longleftrightarrow> bit v 0"
  by (simp add: PTE_V_def and_one_eq odd_iff_mod_2_eq_one bit_0)

lemma PX_less [simp]: "PX l va < 512"
proof -
  have "PX l va AND mask 9 = PX l va"
    by (simp add: PX_def and.assoc mask_eq_exp_minus_1)
  then show ?thesis using less_2p_mask [of 9 "PX l va"] by simp
qed

lemma bit_PX: "bit (PX l va) i \<longleftrightarrow> i < 9 \<and> bit va (12 + 9 * l + i)"
proof -
  have m: "PX l va = drop_bit (12 + 9 * l) va AND mask 9" by (simp add: PX_def mask_eq_exp_minus_1)
  show ?thesis unfolding m by (auto simp: bit_simps add.assoc)
qed

lemma PX_eq_imp_page_eq:
  assumes "a < MAXVA" "b < MAXVA" "PX 2 a = PX 2 b" "PX 1 a = PX 1 b" "PX 0 a = PX 0 b"
  shows "PGROUNDDOWN a = PGROUNDDOWN b"
proof (rule bit_word_eqI)
  fix i assume "i < LENGTH(64)"
  have "(2 ^ 38 :: uint64) = MAXVA" by (simp add: MAXVA_def)
  then have top: "bit a i \<Longrightarrow> i < 38" "bit b i \<Longrightarrow> i < 38" for i
    using assms(1,2) bit_less_2p [of a 38 i] bit_less_2p [of b 38 i] by simp_all
  consider "i < 12" | k where "i = 12 + k" "k < 9" | k where "i = 21 + k" "k < 9"
    | k where "i = 30 + k" "k < 9" | "39 \<le> i"
  proof -
    have "i < 12 \<or> i = 12 + (i - 12) \<and> i - 12 < 9 \<or> i = 21 + (i - 21) \<and> i - 21 < 9 \<or>
      i = 30 + (i - 30) \<and> i - 30 < 9 \<or> 39 \<le> i" by arith
    then show ?thesis using that by metis
  qed
  then show "bit (PGROUNDDOWN a) i = bit (PGROUNDDOWN b) i"
  proof cases
    case (2 k)
    then show ?thesis using assms(5) bit_PX [of 0 _ k] by (simp add: PGROUNDDOWN_align bit_align_down) metis
  next
    case (3 k)
    then show ?thesis using assms(4) bit_PX [of 1 _ k] by (simp add: PGROUNDDOWN_align bit_align_down) metis
  next
    case (4 k)
    then show ?thesis using assms(3) bit_PX [of 2 _ k] by (simp add: PGROUNDDOWN_align bit_align_down) metis
  next
    case 5
    then show ?thesis using top [of i] by (auto simp: PGROUNDDOWN_align bit_align_down)
  qed (simp add: PGROUNDDOWN_align bit_align_down)
qed

lemma PX_PGROUNDDOWN [simp]: "PX l (PGROUNDDOWN a) = PX l a"
  by (rule bit_word_eqI) (auto simp: bit_PX PGROUNDDOWN_align bit_align_down dest: bit_imp_le_length)

section \<open>The tree of tables\<close>

text \<open>\<open>node m t p\<close> is the table page reached from table \<open>t\<close> by the indices \<open>p\<close>.\<close>

fun node :: "memory \<Rightarrow> uint64 \<Rightarrow> uint64 list \<Rightarrow> uint64 option" where
  "node m t [] = Some t"
| "node m t (i # p) =
     (let e = load64 m (slot t i) in if e AND PTE_V \<noteq> 0 then node m (PTE2PA e) p else None)"

definition valid_path :: "uint64 list \<Rightarrow> bool" where
  "valid_path p \<longleftrightarrow> length p \<le> 2 \<and> (\<forall>i \<in> set p. i < 512)"

text \<open>The indices \<open>walk\<close> follows from level \<open>l\<close> down to level 1.\<close>

fun vpath :: "nat \<Rightarrow> uint64 \<Rightarrow> uint64 list" where
  "vpath 0 va = []"
| "vpath (Suc l) va = PX (Suc l) va # vpath l va"

definition pte_of :: "memory \<Rightarrow> uint64 \<Rightarrow> uint64 \<Rightarrow> uint64" where
  "pte_of m root va =
     (case node m root (vpath 2 va) of None \<Rightarrow> 0 | Some t \<Rightarrow> load64 m (slot t (PX 0 va)))"

definition pt_inv :: "'a kmem_scheme \<Rightarrow> uint64 list \<Rightarrow> uint64 \<Rightarrow> bool" where
  "pt_inv s fl root \<longleftrightarrow>
     (\<forall>p t. valid_path p \<longrightarrow> node (mem s) root p = Some t \<longrightarrow> phys_page s t \<and> t \<notin> set fl) \<and>
     (\<forall>p q t. valid_path p \<longrightarrow> valid_path q \<longrightarrow>
        node (mem s) root p = Some t \<longrightarrow> node (mem s) root q = Some t \<longrightarrow> p = q)"

lemma pt_invD:
  assumes "pt_inv s fl root" "valid_path p" "node (mem s) root p = Some t"
  shows "phys_page s t" "t \<notin> set fl" "aligned 12 t"
  using assms by (auto simp: pt_inv_def phys_page_def)

lemma pt_inv_inj:
  assumes "pt_inv s fl root" "valid_path p" "valid_path q"
    "node (mem s) root p = Some t" "node (mem s) root q = Some t"
  shows "p = q"
  using assms by (auto simp: pt_inv_def)

lemma length_vpath [simp]: "length (vpath l va) = l"
  by (induction l) auto

lemma vpath_less: "i \<in> set (vpath l va) \<Longrightarrow> i < 512"
  by (induction l) auto

lemma valid_vpath [simp]: "l \<le> 2 \<Longrightarrow> valid_path (vpath l va)"
  by (simp add: valid_path_def vpath_less)

lemma vpath_2: "vpath 2 va = [PX 2 va, PX 1 va]"
  by (simp add: numeral_2_eq_2)

lemma vpath_PGROUNDDOWN [simp]: "vpath l (PGROUNDDOWN va) = vpath l va"
  by (induction l) auto

lemma node_append:
  "node m t (p @ q) = (case node m t p of None \<Rightarrow> None | Some u \<Rightarrow> node m u q)"
  by (induction p arbitrary: t) (auto simp: Let_def)

lemma node_cong:
  assumes "\<And>q i r u. p = q @ i # r \<Longrightarrow> node m t q = Some u \<Longrightarrow>
    load64 m' (slot u i) = load64 m (slot u i)"
  shows "node m' t p = node m t p"
  using assms
proof (induction p arbitrary: t)
  case Nil
  then show ?case by simp
next
  case (Cons i p)
  have e: "load64 m' (slot t i) = load64 m (slot t i)"
    using Cons.prems [of "[]" i p t] by simp
  show ?case
  proof (cases "load64 m (slot t i) AND PTE_V \<noteq> 0")
    case True
    have "node m' (PTE2PA (load64 m (slot t i))) p = node m (PTE2PA (load64 m (slot t i))) p"
    proof (rule Cons.IH)
      fix q j r u
      assume "p = q @ j # r" "node m (PTE2PA (load64 m (slot t i))) q = Some u"
      then show "load64 m' (slot u j) = load64 m (slot u j)"
        using Cons.prems [of "i # q" j r u] True by (simp add: Let_def)
    qed
    then show ?thesis using e True by (simp add: Let_def)
  next
    case False
    then show ?thesis using e by (simp add: Let_def)
  qed
qed

lemma valid_path_prefix: "valid_path (q @ i # r) \<Longrightarrow> valid_path q \<and> i < 512 \<and> length q \<le> 1"
  by (auto simp: valid_path_def)

text \<open>Memory that agrees on every table page has the same tree and the same entries.\<close>

lemma node_frame:
  assumes inv: "pt_inv s fl root"
    and fr: "\<And>p t. valid_path p \<Longrightarrow> node (mem s) root p = Some t \<Longrightarrow> same_page (mem s) m' t"
    and p: "valid_path p"
  shows "node m' root p = node (mem s) root p"
proof (rule node_cong)
  fix q i r u
  assume "p = q @ i # r" and u: "node (mem s) root q = Some u"
  then have q: "valid_path q" "i < 512" using p valid_path_prefix by auto
  show "load64 m' (slot u i) = load64 (mem s) (slot u i)"
    using load64_same_page [OF fr [OF q(1) u]] pt_invD(3) [OF inv q(1) u] q(2) by blast
qed

lemma pte_of_frame:
  assumes "pt_inv s fl root"
    and "\<And>p t. valid_path p \<Longrightarrow> node (mem s) root p = Some t \<Longrightarrow> same_page (mem s) m' t"
  shows "pte_of m' root va = pte_of (mem s) root va"
proof -
  have n: "node m' root (vpath 2 va) = node (mem s) root (vpath 2 va)"
    by (rule node_frame [OF assms]) simp_all
  show ?thesis
  proof (cases "node (mem s) root (vpath 2 va)")
    case (Some t)
    have "aligned 12 t" using pt_invD(3) [OF assms(1) _ Some] by simp
    then have "load64 m' (slot t (PX 0 va)) = load64 (mem s) (slot t (PX 0 va))"
      using load64_same_page [OF assms(2) [OF _ Some]] by simp
    then show ?thesis using n Some by (simp add: pte_of_def)
  qed (use n in \<open>simp add: pte_of_def\<close>)
qed

lemma walk_levels_noalloc:
  "walk_levels l s t va False =
     (case node (mem s) t (vpath l va) of None \<Rightarrow> 0 | Some u \<Rightarrow> slot u (PX 0 va), s)"
  by (induction l arbitrary: t) (auto simp: Let_def)

text \<open>Linking a cleared page \<open>n\<close> into the free slot \<open>i\<close> of the table at path \<open>p\<close>.\<close>

lemma node_link:
  assumes inv: "pt_inv s fl root"
    and p: "valid_path p" "length p \<le> 1" "node (mem s) root p = Some t" "i < 512"
    and inval: "load64 (mem s) (slot t i) AND PTE_V = 0"
    and n: "phys_page s n" "\<And>q. valid_path q \<Longrightarrow> node (mem s) root q \<noteq> Some n"
    and m1: "\<And>q. q \<noteq> n \<Longrightarrow> same_page (mem s) m1 q" "\<And>x. PGROUNDDOWN x = n \<Longrightarrow> m1 x = 0"
    and m': "m' = store64 m1 (slot t i) (PA2PTE n OR PTE_V)"
    and q: "valid_path q"
  shows "node m' root q =
    (if q = p @ [i] then Some n else if \<exists>j r. q = p @ i # j # r then None else node (mem s) root q)"
proof -
  have alt: "aligned 12 t" using pt_invD(3) [OF inv p(1,3)] .
  have aln: "aligned 12 n" using n(1) by (rule phys_page_aligned)
  have tn: "t \<noteq> n" using n(2) p by auto
  have entry: "load64 m' (slot u k) = load64 (mem s) (slot u k)"
    if "valid_path w" "node (mem s) root w = Some u" "k < 512" "w \<noteq> p \<or> k \<noteq> i" for w u k
  proof -
    have un: "u \<noteq> n" using that n(2) by auto
    have alu: "aligned 12 u" using pt_invD(3) [OF inv that(1,2)] .
    have ne: "slot u k \<noteq> slot t i"
    proof
      assume "slot u k = slot t i"
      then have "u = t \<and> k = i" using slot_inj [OF alu alt that(3) p(4)] by blast
      then show False using pt_inv_inj [OF inv that(1) p(1)] that(2,4) p(3) by auto
    qed
    have "load64 m' (slot u k) = load64 m1 (slot u k)"
      unfolding m' by (rule load64_store64_other) (use alu alt ne in simp_all)
    also have "\<dots> = load64 (mem s) (slot u k)"
      by (rule load64_same_page [OF m1(1) alu that(3)]) (use un in simp)
    finally show ?thesis .
  qed
  have nodep: "node m' root p = Some t"
  proof -
    have "node m' root p = node (mem s) root p"
    proof (rule node_cong)
      fix w k r u assume w: "p = w @ k # r" "node (mem s) root w = Some u"
      then show "load64 m' (slot u k) = load64 (mem s) (slot u k)"
        using valid_path_prefix [of w k r] p(1) by (intro entry [of w]) auto
    qed
    then show ?thesis using p(3) by simp
  qed
  have step: "node m' root (p @ i # r) = node m' n r" for r
  proof -
    have "PTE2PA (PA2PTE n OR PTE_V) = n"
      by (rule PTE2PA_encode) (use n(1) phys_page_addr in auto)
    moreover have "(PA2PTE n OR PTE_V) AND PTE_V \<noteq> 0"
      by (simp add: and_PTE_V_iff) (simp add: bit_or_iff PTE_V_def)
    ultimately show ?thesis using nodep by (simp add: node_append m' Let_def)
  qed
  have zero: "load64 m' (slot n k) = 0" if "k < 512" for k
  proof -
    have "load64 m' (slot n k) = load64 m1 (slot n k)"
      unfolding m' using slot_inj [OF aln alt that p(4)] tn aln alt
      by (intro load64_store64_other) auto
    then show ?thesis using load64_zero_page [OF aln that m1(2)] by simp
  qed
  show ?thesis
  proof (cases "\<exists>r. q = p @ i # r")
    case True
    then obtain r where r: "q = p @ i # r" by blast
    then show ?thesis
    proof (cases r)
      case Nil
      then show ?thesis using r step [of "[]"] by simp
    next
      case (Cons j r')
      then have "j < 512" using q r by (auto simp: valid_path_def)
      then show ?thesis using r step [of r] zero [of j] Cons by (simp add: Let_def)
    qed
  next
    case False
    have "node m' root q = node (mem s) root q"
    proof (rule node_cong)
      fix w k r u assume w: "q = w @ k # r" "node (mem s) root w = Some u"
      then have "w \<noteq> p \<or> k \<noteq> i" using False by auto
      then show "load64 m' (slot u k) = load64 (mem s) (slot u k)"
        using valid_path_prefix [of w k r] q w by (intro entry [of w]) auto
    qed
    then show ?thesis using False by auto
  qed
qed

section \<open>Walking with allocation\<close>

definition is_table :: "memory \<Rightarrow> uint64 \<Rightarrow> uint64 \<Rightarrow> bool" where
  "is_table m root t \<longleftrightarrow> (\<exists>p. valid_path p \<and> node m root p = Some t)"

text \<open>
  \<open>pt_ext s fl s' fl' root\<close>: from \<open>s\<close> to \<open>s'\<close> the page table only gained cleared table
  pages, taken from the front of the free list; no entry of any address changed, and no
  page that is neither free nor a table was written.
\<close>

definition pt_ext :: "'a kmem_scheme \<Rightarrow> uint64 list \<Rightarrow> 'a kmem_scheme \<Rightarrow> uint64 list \<Rightarrow> uint64 \<Rightarrow> bool" where
  "pt_ext s fl s' fl' root \<longleftrightarrow>
     kmem_inv s' fl' \<and> pt_inv s' fl' root \<and> (\<exists>ns. fl = ns @ fl') \<and>
     kend s' = kend s \<and> kmem.more s' = kmem.more s \<and>
     (\<forall>va. pte_of (mem s') root va = pte_of (mem s) root va) \<and>
     (\<forall>q. q \<notin> set fl \<longrightarrow> \<not> is_table (mem s) root q \<longrightarrow> same_page (mem s) (mem s') q) \<and>
     (\<forall>u. is_table (mem s') root u \<longrightarrow> is_table (mem s) root u \<or> u \<in> set fl)"

lemma pt_ext_refl: "kmem_inv s fl \<Longrightarrow> pt_inv s fl root \<Longrightarrow> pt_ext s fl s fl root"
  by (simp add: pt_ext_def)

lemma pt_ext_trans:
  assumes a: "pt_ext s fl s1 fl1 root" and b: "pt_ext s1 fl1 s2 fl2 root"
  shows "pt_ext s fl s2 fl2 root"
proof -
  have sub: "set fl1 \<subseteq> set fl" using a by (auto simp: pt_ext_def)
  have "same_page (mem s) (mem s2) q" if "q \<notin> set fl" "\<not> is_table (mem s) root q" for q
  proof (rule same_page_trans)
    show "same_page (mem s) (mem s1) q" using a that by (simp add: pt_ext_def)
    have "\<not> is_table (mem s1) root q" "q \<notin> set fl1"
      using a that sub unfolding pt_ext_def by blast+
    then show "same_page (mem s1) (mem s2) q" using b by (simp add: pt_ext_def)
  qed
  moreover have "is_table (mem s) root u \<or> u \<in> set fl" if "is_table (mem s2) root u" for u
    using a b that sub unfolding pt_ext_def by blast
  moreover have "\<exists>ns. fl = ns @ fl2"
    using a b unfolding pt_ext_def by (metis append_assoc)
  ultimately show ?thesis using a b by (auto simp: pt_ext_def)
qed

lemma kmem_more_mem [simp]: "kmem.more (s\<lparr>mem := m\<rparr>) = kmem.more s"
  by (cases s) simp

lemma link_pt_ext:
  assumes km: "kmem_inv s (n # fl)" and inv: "pt_inv s (n # fl) root"
    and p: "valid_path p" "length p \<le> 1" "node (mem s) root p = Some t" "i < 512"
    and inval: "load64 (mem s) (slot t i) AND PTE_V = 0"
    and k: "kalloc s = (n, s1)"
    and s': "s' = s1\<lparr>mem := store64 (memset (mem s1) n 0 4096) (slot t i) (PA2PTE n OR PTE_V)\<rparr>"
  shows "pt_ext s (n # fl) s' fl root" "node (mem s') root (p @ [i]) = Some n"
proof -
  from km obtain s1' where "kalloc s = (n, s1')" "kmem_inv s1' fl"
      "\<And>q. q \<noteq> n \<Longrightarrow> same_page (mem s) (mem s1') q" "kend s1' = kend s"
      "kmem.more s1' = kmem.more s"
    by (rule kalloc_cons) blast
  with k have s1: "kmem_inv s1 fl" "\<And>q. q \<noteq> n \<Longrightarrow> same_page (mem s) (mem s1) q"
      "kend s1 = kend s" "kmem.more s1 = kmem.more s"
    by auto
  have n: "phys_page s n" "n \<notin> set fl" using km by (auto simp: kmem_inv_def)
  have aln: "aligned 12 n" using n(1) by (rule phys_page_aligned)
  have alt: "aligned 12 t" and tfl: "t \<notin> set (n # fl)"
    using pt_invD [OF inv p(1,3)] by auto
  have nonode: "node (mem s) root q \<noteq> Some n" if "valid_path q" for q
    using inv that by (auto simp: pt_inv_def)
  let ?m1 = "memset (mem s1) n 0 4096"
  have fr1: "same_page (mem s) ?m1 q" if "q \<noteq> n" for q
    using same_page_trans [OF s1(2) [OF that] same_page_memset [OF aln]] that by metis
  have z1: "?m1 x = 0" if "PGROUNDDOWN x = n" for x
    using aln that by (simp add: memset_page)
  have m': "mem s' = store64 ?m1 (slot t i) (PA2PTE n OR PTE_V)" by (simp add: s')
  have link: "node (mem s') root q =
      (if q = p @ [i] then Some n else if \<exists>j r. q = p @ i # j # r then None else node (mem s) root q)"
    if "valid_path q" for q
    by (rule node_link [OF inv p inval n(1) nonode fr1 z1 m' that])
  have before: "node (mem s) root (p @ i # r) = None" for r
    using p(3) inval by (simp add: node_append Let_def)
  have vp: "valid_path (p @ [i])" using p by (auto simp: valid_path_def)
  show nn: "node (mem s') root (p @ [i]) = Some n" using link [OF vp] by simp
  have sub: "node (mem s') root q = Some u \<Longrightarrow> valid_path q \<Longrightarrow>
      q = p @ [i] \<and> u = n \<or> node (mem s) root q = Some u" for q u
    using link [of q] by (auto split: if_splits)
  have frt: "same_page (mem s) (mem s') q" if "q \<noteq> n" "q \<noteq> t" for q
    unfolding m' using same_page_trans [OF fr1 [OF that(1)] same_page_store64 [OF alt p(4)]] that by metis
  have kend': "phys_page s' a = phys_page s a" for a using s1(3) by (simp add: s' phys_page_def)
  have inv': "pt_inv s' fl root"
    unfolding pt_inv_def kend'
  proof (intro conjI allI impI)
    fix q u assume "valid_path q" "node (mem s') root q = Some u"
    then show "phys_page s u" "u \<notin> set fl"
      using sub n pt_invD [OF inv] by fastforce+
  next
    fix q r u assume "valid_path q" "valid_path r" "node (mem s') root q = Some u" "node (mem s') root r = Some u"
    then show "q = r" using sub [of q u] sub [of r u] nonode pt_inv_inj [OF inv] by metis
  qed
  have km': "kmem_inv s' fl"
  proof (rule kmem_inv_frame [OF s1(1)])
    fix x assume x: "x \<in> set fl"
    then have "x \<noteq> n" "t \<noteq> x" using n(2) tfl by auto
    then show "same_page (mem s1) (mem s') x"
      unfolding m' using same_page_trans [OF same_page_memset [OF aln] same_page_store64 [OF alt p(4)]] by metis
  qed (simp_all add: s')
  have pte: "pte_of (mem s') root va = pte_of (mem s) root va" for va
  proof (cases "\<exists>r. vpath 2 va = p @ i # r")
    case True
    then obtain r where r: "vpath 2 va = p @ i # r" by blast
    have "load64 (mem s') (slot n (PX 0 va)) = 0"
    proof -
      have "n \<noteq> t" using tfl by auto
      then have "same_page ?m1 (mem s') n"
        unfolding m' by (intro same_page_store64 [OF alt p(4)]) simp
      then have "load64 (mem s') (slot n (PX 0 va)) = load64 ?m1 (slot n (PX 0 va))"
        using load64_same_page aln by simp
      then show ?thesis using load64_zero_page [OF aln _ z1] by simp
    qed
    moreover have "valid_path (p @ i # r)" unfolding r [symmetric] by simp
    ultimately show ?thesis
      using r before [of r] link [of "p @ i # r"] by (cases r) (simp_all add: pte_of_def)
  next
    case False
    then have nv: "node (mem s') root (vpath 2 va) = node (mem s) root (vpath 2 va)"
      using link [of "vpath 2 va"] by auto
    show ?thesis
    proof (cases "node (mem s) root (vpath 2 va)")
      case (Some u)
      have "u \<noteq> t"
        using pt_inv_inj [OF inv p(1) _ p(3), of "vpath 2 va"] Some p(2) by auto
      moreover have "u \<noteq> n" using Some nonode by auto
      moreover have "aligned 12 u" using pt_invD(3) [OF inv _ Some] by simp
      ultimately show ?thesis
        using load64_same_page [OF frt] nv Some by (simp add: pte_of_def)
    qed (use nv in \<open>simp add: pte_of_def\<close>)
  qed
  have "same_page (mem s) (mem s') q" if "q \<notin> set (n # fl)" "\<not> is_table (mem s) root q" for q
    using that p frt by (auto simp: is_table_def)
  moreover have "is_table (mem s) root u \<or> u \<in> set (n # fl)" if "is_table (mem s') root u" for u
    using that sub by (fastforce simp: is_table_def)
  ultimately show "pt_ext s (n # fl) s' fl root"
    using km' inv' pte s1(3,4) by (auto simp: pt_ext_def s')
qed

lemma walk_levels_alloc:
  assumes "kmem_inv s fl" "pt_inv s fl root"
    and "valid_path p" "length p + l = 2" "node (mem s) root p = Some t"
  shows "\<exists>r s' fl'. walk_levels l s t va True = (r, s') \<and> pt_ext s fl s' fl' root \<and>
    (if r = 0 then fl' = [] \<and> length fl < l
     else \<exists>u. node (mem s') root (p @ vpath l va) = Some u \<and> r = slot u (PX 0 va))"
  using assms
proof (induction l arbitrary: s fl p t)
  case 0
  have "aligned 12 t" "t \<noteq> 0" using pt_invD [OF "0.prems"(2,3,5)] by (auto simp: phys_page_def)
  then have "slot t (PX 0 va) \<noteq> 0"
    using page_of_slot [of t "PX 0 va" 0] by (auto simp: PGROUNDDOWN_def)
  then show ?case using "0.prems" pt_ext_refl by auto
next
  case (Suc l)
  let ?i = "PX (Suc l) va"
  have p1: "length p \<le> 1" using Suc.prems(4) by simp
  have vp: "valid_path (p @ [?i])" using Suc.prems(3) p1 by (auto simp: valid_path_def)
  show ?case
  proof (cases "load64 (mem s) (slot t ?i) AND PTE_V = 0")
    case False
    have "node (mem s) root (p @ [?i]) = Some (PTE2PA (load64 (mem s) (slot t ?i)))"
      using False Suc.prems(5) by (simp add: node_append Let_def)
    from Suc.IH [OF Suc.prems(1,2) vp _ this] Suc.prems(4)
    obtain r s' fl' where
      "walk_levels l s (PTE2PA (load64 (mem s) (slot t ?i))) va True = (r, s')"
      "pt_ext s fl s' fl' root"
      "if r = 0 then fl' = [] \<and> length fl < l
       else \<exists>u. node (mem s') root ((p @ [?i]) @ vpath l va) = Some u \<and> r = slot u (PX 0 va)"
      by auto
    then show ?thesis using False by (auto simp: Let_def split: if_splits)
  next
    case inval: True
    show ?thesis
    proof (cases fl)
      case Nil
      then show ?thesis
        using Suc.prems(1,2) inval kalloc_empty [of s] pt_ext_refl [of s "[]" root] by (auto simp: Let_def)
    next
      case (Cons n fl1)
      then obtain s1 where k: "kalloc s = (n, s1)"
        using Suc.prems(1) kalloc_cons by metis
      have n0: "n \<noteq> 0" using Suc.prems(1) Cons by (simp add: kmem_inv_def phys_page_def)
      define s2 where "s2 = s1\<lparr>mem := store64 (memset (mem s1) n 0 4096) (slot t ?i) (PA2PTE n OR PTE_V)\<rparr>"
      have ext: "pt_ext s fl s2 fl1 root" and nn: "node (mem s2) root (p @ [?i]) = Some n"
        using link_pt_ext [of s n fl1 root p t ?i s1 s2] Suc.prems Cons p1 inval k
        by (simp_all add: s2_def)
      then have "kmem_inv s2 fl1" "pt_inv s2 fl1 root" by (simp_all add: pt_ext_def)
      from Suc.IH [OF this vp _ nn] Suc.prems(4)
      obtain r s' fl' where w: "walk_levels l s2 n va True = (r, s')" "pt_ext s2 fl1 s' fl' root"
        "if r = 0 then fl' = [] \<and> length fl1 < l
         else \<exists>u. node (mem s') root ((p @ [?i]) @ vpath l va) = Some u \<and> r = slot u (PX 0 va)"
        by auto
      have "pt_ext s fl s' fl' root" by (rule pt_ext_trans [OF ext w(2)])
      then show ?thesis
        using w(1,3) k n0 inval Cons by (intro exI [of _ r] exI [of _ s'] exI [of _ fl']) (auto simp: Let_def s2_def)
    qed
  qed
qed

section \<open>Writing a leaf entry\<close>

lemma same_leaf_iff:
  assumes "a < MAXVA" "b < MAXVA"
  shows "vpath 2 a = vpath 2 b \<and> PX 0 a = PX 0 b \<longleftrightarrow> PGROUNDDOWN a = PGROUNDDOWN b"
proof
  assume "vpath 2 a = vpath 2 b \<and> PX 0 a = PX 0 b"
  then show "PGROUNDDOWN a = PGROUNDDOWN b"
    using PX_eq_imp_page_eq [OF assms] by (simp add: vpath_2)
next
  assume "PGROUNDDOWN a = PGROUNDDOWN b"
  then show "vpath 2 a = vpath 2 b \<and> PX 0 a = PX 0 b"
    by (metis PX_PGROUNDDOWN vpath_PGROUNDDOWN)
qed

lemma store_leaf:
  assumes inv: "pt_inv s fl root" and u: "node (mem s) root (vpath 2 va) = Some u"
    and m': "m' = store64 (mem s) (slot u (PX 0 va)) v"
  shows "\<And>q. q \<noteq> u \<Longrightarrow> same_page (mem s) m' q"
    and "\<And>q. valid_path q \<Longrightarrow> node m' root q = node (mem s) root q"
    and "pte_of m' root va' =
      (if vpath 2 va' = vpath 2 va \<and> PX 0 va' = PX 0 va then v else pte_of (mem s) root va')"
    and "pt_inv (s\<lparr>mem := m'\<rparr>) fl root"
    and "kmem_inv s fl \<Longrightarrow> kmem_inv (s\<lparr>mem := m'\<rparr>) fl"
proof -
  have al: "aligned 12 u" and ufl: "u \<notin> set fl" using pt_invD [OF inv _ u] by auto
  show fr: "same_page (mem s) m' q" if "q \<noteq> u" for q
    unfolding m' using that by (intro same_page_store64 [OF al]) auto
  show nd: "node m' root q = node (mem s) root q" if q: "valid_path q" for q
  proof (rule node_cong)
    fix w k r t assume w: "q = w @ k # r" "node (mem s) root w = Some t"
    then have vw: "valid_path w" "k < 512" "length w \<le> 1" using q valid_path_prefix by auto
    then have "w \<noteq> vpath 2 va" by auto
    then have "t \<noteq> u" using pt_inv_inj [OF inv vw(1) _ w(2), of "vpath 2 va"] u by auto
    then show "load64 m' (slot t k) = load64 (mem s) (slot t k)"
      using load64_same_page [OF fr] pt_invD(3) [OF inv vw(1) w(2)] vw(2) by blast
  qed
  show "pte_of m' root va' =
      (if vpath 2 va' = vpath 2 va \<and> PX 0 va' = PX 0 va then v else pte_of (mem s) root va')"
  proof (cases "node (mem s) root (vpath 2 va')")
    case None
    then have "vpath 2 va' \<noteq> vpath 2 va" using u by auto
    then show ?thesis using None nd [of "vpath 2 va'"] by (simp add: pte_of_def)
  next
    case (Some t)
    have alt: "aligned 12 t" using pt_invD(3) [OF inv _ Some] by simp
    have tu: "t = u \<longleftrightarrow> vpath 2 va' = vpath 2 va"
      using pt_inv_inj [OF inv _ _ Some] Some u by auto
    show ?thesis
    proof (cases "vpath 2 va' = vpath 2 va \<and> PX 0 va' = PX 0 va")
      case True
      then show ?thesis using Some nd [of "vpath 2 va'"] tu by (simp add: pte_of_def m')
    next
      case False
      then have "slot t (PX 0 va') \<noteq> slot u (PX 0 va)"
        using slot_inj [OF alt al PX_less PX_less] tu by blast
      then have "load64 m' (slot t (PX 0 va')) = load64 (mem s) (slot t (PX 0 va'))"
        unfolding m' using alt al by (intro load64_store64_other) auto
      then show ?thesis using False Some nd [of "vpath 2 va'"] by (auto simp: pte_of_def)
    qed
  qed
  show "pt_inv (s\<lparr>mem := m'\<rparr>) fl root"
    using inv nd by (simp add: pt_inv_def)
  show "kmem_inv (s\<lparr>mem := m'\<rparr>) fl" if km: "kmem_inv s fl"
  proof (rule kmem_inv_frame [OF km])
    fix x assume "x \<in> set fl"
    then have "x \<noteq> u" using ufl by auto
    then show "same_page (mem s) (mem (s\<lparr>mem := m'\<rparr>)) x" using fr by simp
  qed simp_all
qed

lemma page_range_iff:
  assumes "aligned 12 a" "unat a + 4096 \<le> 2 ^ 64"
  shows "PGROUNDDOWN x = a \<longleftrightarrow> unat a \<le> unat x \<and> unat x < unat a + 4096"
proof -
  have "PGROUNDDOWN x = a \<longleftrightarrow> unat (x - a) < 4096"
    using in_page_iff [OF assms(1), of x] by (simp add: word_less_nat_alt)
  also have "\<dots> \<longleftrightarrow> unat a \<le> unat x \<and> unat x < unat a + 4096"
  proof (cases "unat a \<le> unat x")
    case True
    then show ?thesis by (simp add: unat_sub word_le_nat_alt less_diff_conv2 add.commute)
  next
    case False
    then have "unat (x - a) = 2 ^ 64 + unat x - unat a"
      by (simp add: unat_sub_if_size word_size)
    then show ?thesis using False assms(2) by simp
  qed
  finally show ?thesis .
qed

lemma walk_noalloc:
  assumes "va < MAXVA"
  shows "walk s root va False =
    Ret (case node (mem s) root (vpath 2 va) of None \<Rightarrow> 0 | Some u \<Rightarrow> slot u (PX 0 va), s)"
  using assms by (simp add: walk_def walk_levels_noalloc not_le)

lemma slot_nonnull: "phys_page s u \<Longrightarrow> i < 512 \<Longrightarrow> slot u i \<noteq> 0"
  using page_of_slot [of u i 0] by (auto simp: phys_page_def PGROUNDDOWN_def)

section \<open>mappages\<close>

lemma node_nonnull: "pt_inv s fl root \<Longrightarrow> node (mem s) root (vpath 2 va) = Some u \<Longrightarrow> slot u (PX 0 va) \<noteq> 0"
  using pt_invD(1) slot_nonnull by (metis PX_less order_refl valid_vpath)

text \<open>
  One iteration of \<open>mappages\<close>: the entry of page \<open>a\<close> becomes \<open>v\<close>, or the walk fails for lack
  of memory and no entry changes.
\<close>

lemma map_one_page:
  assumes km: "kmem_inv s fl" and inv: "pt_inv s fl root" and a: "a < MAXVA"
  obtains (full) s1 where "walk s root a True = Ret (0, s1)" "pt_ext s fl s1 [] root" "length fl < 2"
  | (mapped) pte s1 fl1 where "walk s root a True = Ret (pte, s1)" "pte \<noteq> 0"
      "pt_ext s fl s1 fl1 root" "load64 (mem s1) pte = pte_of (mem s) root a"
      "\<And>v. kmem_inv (s1\<lparr>mem := store64 (mem s1) pte v\<rparr>) fl1"
      "\<And>v. pt_inv (s1\<lparr>mem := store64 (mem s1) pte v\<rparr>) fl1 root"
      "\<And>v va'. va' < MAXVA \<Longrightarrow> pte_of (store64 (mem s1) pte v) root va' =
         (if PGROUNDDOWN va' = PGROUNDDOWN a then v else pte_of (mem s) root va')"
      "\<And>v q. \<not> is_table (mem s1) root q \<Longrightarrow> same_page (mem s1) (store64 (mem s1) pte v) q"
      "\<And>v q. is_table (store64 (mem s1) pte v) root q = is_table (mem s1) root q"
proof -
  obtain r s1 fl1 where w: "walk_levels 2 s root a True = (r, s1)" "pt_ext s fl s1 fl1 root"
    and r: "if r = 0 then fl1 = [] \<and> length fl < 2
      else \<exists>u. node (mem s1) root ([] @ vpath 2 a) = Some u \<and> r = slot u (PX 0 a)"
    using walk_levels_alloc [OF km inv, of "[]" 2 root a] by (auto simp: valid_path_def)
  have wk: "walk s root a True = Ret (r, s1)" using w a by (simp add: walk_def not_le)
  show ?thesis
  proof (cases "r = 0")
    case True
    then show ?thesis using full wk w(2) r by auto
  next
    case False
    then obtain u where u: "node (mem s1) root (vpath 2 a) = Some u" and ru: "r = slot u (PX 0 a)"
      using r by auto
    have inv1: "pt_inv s1 fl1 root" and km1: "kmem_inv s1 fl1"
      and pte: "\<And>va. pte_of (mem s1) root va = pte_of (mem s) root va"
      using w(2) by (auto simp: pt_ext_def)
    note leaf = store_leaf [OF inv1 u refl]
    have tab: "is_table (store64 (mem s1) r v) root q = is_table (mem s1) root q" for v q
      unfolding is_table_def ru using leaf(2) by metis
    show ?thesis
    proof (rule mapped [OF wk False w(2)])
      show "load64 (mem s1) r = pte_of (mem s) root a"
        using pte [of a] u by (simp add: pte_of_def ru)
      show "kmem_inv (s1\<lparr>mem := store64 (mem s1) r v\<rparr>) fl1" for v
        unfolding ru by (rule leaf(5) [OF km1])
      show "pt_inv (s1\<lparr>mem := store64 (mem s1) r v\<rparr>) fl1 root" for v
        unfolding ru by (rule leaf(4))
      show "pte_of (store64 (mem s1) r v) root va' =
          (if PGROUNDDOWN va' = PGROUNDDOWN a then v else pte_of (mem s) root va')"
        if "va' < MAXVA" for v va'
        unfolding ru leaf(3) using same_leaf_iff [OF that a] pte by simp
      show "same_page (mem s1) (store64 (mem s1) r v) q" if "\<not> is_table (mem s1) root q" for v q
      proof -
        have "is_table (mem s1) root u" using u unfolding is_table_def by (metis order_refl valid_vpath)
        then show ?thesis unfolding ru using leaf(1) that by metis
      qed
      show "is_table (store64 (mem s1) r v) root q = is_table (mem s1) root q" for v q
        by (rule tab)
    qed
  qed
qed

end
