(* ===== verification/Address_Space.thy ===== *)
theory Address_Space
  imports Page_Tree
begin

text \<open>
  Address spaces: \<open>mappages\<close>, \<open>uvmunmap\<close> and \<open>walkaddr\<close> as operations on a finite map from
  virtual pages to entries, the invariant that ties the map to the allocator (\<open>as_inv\<close>:
  every user page is a physical page of its own, neither free nor a table), and the
  interface locale \<open>address_space\<close> the paging code uses.
\<close>

section \<open>mappages\<close>

definition in_range :: "uint64 \<Rightarrow> nat \<Rightarrow> uint64 \<Rightarrow> bool" where
  "in_range a n va \<longleftrightarrow> unat a \<le> unat va \<and> unat va < unat a + 4096 * n"

lemma unat_MAXVA: "unat MAXVA = 2 ^ 38"
  by (simp add: MAXVA_def)

lemma less_MAXVA: "va < MAXVA \<longleftrightarrow> unat va < 2 ^ 38"
  by (simp add: word_less_nat_alt unat_MAXVA)

lemma in_range_1: "aligned 12 a \<Longrightarrow> a < MAXVA \<Longrightarrow> in_range a 1 va \<longleftrightarrow> PGROUNDDOWN va = a"
  using page_range_iff [of a va] by (auto simp: in_range_def less_MAXVA)

lemma in_range_Suc:
  assumes "aligned 12 a" "a < MAXVA"
  shows "in_range a (Suc n) va \<longleftrightarrow> PGROUNDDOWN va = a \<or> in_range (a + PGSIZE) n va"
proof -
  have "unat (a + PGSIZE) = unat a + 4096" using unat_next_page assms(2) by (simp add: less_MAXVA)
  then show ?thesis
    using page_range_iff [OF assms(1), of va] assms(2) by (auto simp: in_range_def less_MAXVA)
qed

lemma aligned_next: "aligned 12 a \<Longrightarrow> a < MAXVA \<Longrightarrow> aligned 12 (a + PGSIZE)"
  using unat_next_page by (simp add: aligned_iff_dvd less_MAXVA)

lemma PGROUNDDOWN_aligned: "aligned 12 a \<Longrightarrow> PGROUNDDOWN a = a"
  by (simp add: PGROUNDDOWN_align aligned_def)

text \<open>
  What a call of \<open>mappages\<close> that maps the first \<open>k\<close> of its pages does to the state.
\<close>

definition mapped_upto ::
  "'a kmem_scheme \<Rightarrow> uint64 list \<Rightarrow> 'a kmem_scheme \<Rightarrow> uint64 list \<Rightarrow> uint64 \<Rightarrow> uint64 \<Rightarrow> nat \<Rightarrow> uint64 \<Rightarrow> uint64 \<Rightarrow> bool" where
  "mapped_upto s fl s' fl' root a k pa perm \<longleftrightarrow>
     kmem_inv s' fl' \<and> pt_inv s' fl' root \<and> (\<exists>ns. fl = ns @ fl') \<and>
     kend s' = kend s \<and> kmem.more s' = kmem.more s \<and>
     (\<forall>va < MAXVA. pte_of (mem s') root va =
        (if in_range a k va then PA2PTE (pa + (PGROUNDDOWN va - a)) OR perm OR PTE_V
         else pte_of (mem s) root va)) \<and>
     (\<forall>q. q \<notin> set fl \<longrightarrow> \<not> is_table (mem s) root q \<longrightarrow> same_page (mem s) (mem s') q) \<and>
     (\<forall>u. is_table (mem s') root u \<longrightarrow> is_table (mem s) root u \<or> u \<in> set fl)"

lemma mapped_upto_0: "pt_ext s fl s' fl' root \<Longrightarrow> mapped_upto s fl s' fl' root a 0 pa perm"
  by (auto simp: mapped_upto_def pt_ext_def in_range_def)

lemma mapped_upto_Suc:
  assumes a: "aligned 12 a" "a < MAXVA"
    and 1: "mapped_upto s fl s1 fl1 root a 1 pa perm"
    and 2: "mapped_upto s1 fl1 s2 fl2 root (a + PGSIZE) k (pa + PGSIZE) perm"
  shows "mapped_upto s fl s2 fl2 root a (Suc k) pa perm"
proof -
  have sub: "set fl1 \<subseteq> set fl" using 1 by (auto simp: mapped_upto_def)
  have "pte_of (mem s2) root va =
      (if in_range a (Suc k) va then PA2PTE (pa + (PGROUNDDOWN va - a)) OR perm OR PTE_V
       else pte_of (mem s) root va)" if "va < MAXVA" for va
    using 1 2 that in_range_1 [OF a, of va] in_range_Suc [OF a, of k va]
    by (auto simp: mapped_upto_def algebra_simps)
  moreover have "same_page (mem s) (mem s2) q" if "q \<notin> set fl" "\<not> is_table (mem s) root q" for q
  proof -
    have "\<not> is_table (mem s1) root q" "q \<notin> set fl1"
      using 1 that sub unfolding mapped_upto_def by blast+
    then have "same_page (mem s1) (mem s2) q" using 2 by (simp add: mapped_upto_def)
    moreover have "same_page (mem s) (mem s1) q" using 1 that by (simp add: mapped_upto_def)
    ultimately show ?thesis by (rule same_page_trans [rotated])
  qed
  moreover have "is_table (mem s) root u \<or> u \<in> set fl" if "is_table (mem s2) root u" for u
    using 1 2 that sub unfolding mapped_upto_def by blast
  moreover have "\<exists>ns. fl = ns @ fl2"
    using 1 2 unfolding mapped_upto_def by (metis append_assoc)
  ultimately show ?thesis using 1 2 by (auto simp: mapped_upto_def)
qed

lemma map_step:
  assumes km: "kmem_inv s fl" and inv: "pt_inv s fl root" and a: "aligned 12 a" "a < MAXVA"
  obtains (full) s1 where "walk s root a True = Ret (0, s1)"
      "mapped_upto s fl s1 [] root a 0 pa perm" "length fl < 2"
  | (mapped) pte s1 fl1 where "walk s root a True = Ret (pte, s1)" "pte \<noteq> 0"
      "load64 (mem s1) pte = pte_of (mem s) root a"
      "mapped_upto s fl (s1\<lparr>mem := store64 (mem s1) pte (PA2PTE pa OR perm OR PTE_V)\<rparr>) fl1 root a 1 pa perm"
proof (cases rule: map_one_page [OF km inv a(2)])
  case (1 s1)
  then show ?thesis using full mapped_upto_0 by blast
next
  case (2 pte s1 fl1)
  let ?m = "store64 (mem s1) pte (PA2PTE pa OR perm OR PTE_V)"
  have ext: "(\<exists>ns. fl = ns @ fl1)" "kend s1 = kend s" "kmem.more s1 = kmem.more s"
    "\<And>q. q \<notin> set fl \<Longrightarrow> \<not> is_table (mem s) root q \<Longrightarrow> same_page (mem s) (mem s1) q"
    "\<And>u. is_table (mem s1) root u \<Longrightarrow> is_table (mem s) root u \<or> u \<in> set fl"
    using 2(3) by (auto simp: pt_ext_def)
  have "pte_of ?m root va =
      (if in_range a 1 va then PA2PTE (pa + (PGROUNDDOWN va - a)) OR perm OR PTE_V
       else pte_of (mem s) root va)" if "va < MAXVA" for va
    using 2(7) [OF that] in_range_1 [OF a, of va] PGROUNDDOWN_aligned [OF a(1)] by simp
  moreover have "same_page (mem s) ?m q" if "q \<notin> set fl" "\<not> is_table (mem s) root q" for q
    using ext(4) [OF that] 2(8) ext(5) that by (metis same_page_trans)
  ultimately have "mapped_upto s fl (s1\<lparr>mem := ?m\<rparr>) fl1 root a 1 pa perm"
    unfolding mapped_upto_def using 2(5,6,9) ext by simp
  then show ?thesis using mapped 2(1,2,4) by blast
qed

lemma mappages_loop_mapped:
  assumes "kmem_inv s fl" "pt_inv s fl root" "aligned 12 a" "unat a + 4096 * Suc n \<le> 2 ^ 38"
    and "\<And>va. va < MAXVA \<Longrightarrow> in_range a (Suc n) va \<Longrightarrow> pte_of (mem s) root va AND PTE_V = 0"
  shows "\<exists>r s' fl' k. mappages_loop s root a (a + of_nat n * PGSIZE) pa perm = Ret (r, s') \<and>
    mapped_upto s fl s' fl' root a k pa perm \<and>
    (r = 0 \<and> k = Suc n \<or> r = -1 \<and> k < Suc n \<and> fl' = [])"
  using assms
proof (induction n arbitrary: s fl a pa)
  case 0
  have am: "a < MAXVA" using "0.prems"(4) by (simp add: less_MAXVA)
  have iv: "pte_of (mem s) root a AND PTE_V = 0"
    using "0.prems"(5) [OF am] by (simp add: in_range_def)
  show ?case
  proof (cases rule: map_step [OF "0.prems"(1-3) am, of pa perm])
    case (1 s1)
    then show ?thesis by (subst mappages_loop.simps) auto
  next
    case (2 pte s1 fl1)
    then show ?thesis using iv by (subst mappages_loop.simps) (auto simp: Let_def)
  qed
next
  case (Suc n)
  have am: "a < MAXVA" using Suc.prems(4) by (simp add: less_MAXVA)
  have iv: "pte_of (mem s) root a AND PTE_V = 0"
    using Suc.prems(5) [OF am] by (simp add: in_range_def)
  have ua: "unat (a + PGSIZE) = unat a + 4096" using unat_next_page am by (simp add: less_MAXVA)
  have "of_nat (Suc n) * PGSIZE \<noteq> 0"
  proof -
    have "unat (of_nat (Suc n) * PGSIZE) = Suc n * 4096"
      using Suc.prems(4) by (simp add: PGSIZE_def unat_word_ariths unat_of_nat del: of_nat_Suc)
    then show ?thesis by (auto simp: unat_0_iff [symmetric])
  qed
  then have ne: "a \<noteq> a + of_nat (Suc n) * PGSIZE" by (simp del: of_nat_Suc)
  have last_eq: "a + of_nat (Suc n) * PGSIZE = (a + PGSIZE) + of_nat n * PGSIZE"
    by (simp add: algebra_simps)
  show ?case
  proof (cases rule: map_step [OF Suc.prems(1-3) am, of pa perm])
    case (1 s1)
    then show ?thesis by (subst mappages_loop.simps) auto
  next
    case (2 pte s1 fl1)
    define s2 where "s2 = s1\<lparr>mem := store64 (mem s1) pte (PA2PTE pa OR perm OR PTE_V)\<rparr>"
    have m1: "mapped_upto s fl s2 fl1 root a 1 pa perm" using 2 by (simp add: s2_def)
    have "pte_of (mem s2) root va AND PTE_V = 0" if "va < MAXVA" "in_range (a + PGSIZE) (Suc n) va" for va
    proof -
      have "\<not> in_range a 1 va" "in_range a (Suc (Suc n)) va" using that(2) ua by (auto simp: in_range_def)
      then show ?thesis using m1 that(1) Suc.prems(5) [OF that(1)] by (simp add: mapped_upto_def)
    qed
    then have "\<exists>r s' fl' k. mappages_loop s2 root (a + PGSIZE) ((a + PGSIZE) + of_nat n * PGSIZE) (pa + PGSIZE) perm = Ret (r, s') \<and>
        mapped_upto s2 fl1 s' fl' root (a + PGSIZE) k (pa + PGSIZE) perm \<and>
        (r = 0 \<and> k = Suc n \<or> r = -1 \<and> k < Suc n \<and> fl' = [])"
      using m1 aligned_next [OF Suc.prems(3) am] ua Suc.prems(4)
      by (intro Suc.IH) (auto simp: mapped_upto_def)
    then obtain r s' fl' k where
      *: "mappages_loop s2 root (a + PGSIZE) (a + of_nat (Suc n) * PGSIZE) (pa + PGSIZE) perm = Ret (r, s')"
        "mapped_upto s2 fl1 s' fl' root (a + PGSIZE) k (pa + PGSIZE) perm"
        "r = 0 \<and> k = Suc n \<or> r = -1 \<and> k < Suc n \<and> fl' = []"
      unfolding last_eq by blast
    have "mappages_loop s root a (a + of_nat (Suc n) * PGSIZE) pa perm = Ret (r, s')"
      using 2 iv ne *(1) by (subst mappages_loop.simps) (simp add: Let_def s2_def del: of_nat_Suc)
    moreover have "mapped_upto s fl s' fl' root a (Suc k) pa perm"
      by (rule mapped_upto_Suc [OF Suc.prems(3) am m1 *(2)])
    ultimately show ?thesis using *(3) by (intro exI [of _ r] exI [of _ s'] exI [of _ fl'] exI [of _ "Suc k"]) auto
  qed
qed

lemma unat_npages: "n * 4096 < 2 ^ 64 \<Longrightarrow> unat (of_nat n * PGSIZE) = n * 4096"
  by (simp add: PGSIZE_def unat_word_ariths unat_of_nat)

lemma mappages_mapped:
  assumes "kmem_inv s fl" "pt_inv s fl root" "aligned 12 a" "unat a + 4096 * Suc n \<le> 2 ^ 38"
    and "\<And>va. va < MAXVA \<Longrightarrow> in_range a (Suc n) va \<Longrightarrow> pte_of (mem s) root va AND PTE_V = 0"
  shows "\<exists>r s' fl' k. mappages s root a (of_nat (Suc n) * PGSIZE) pa perm = Ret (r, s') \<and>
    mapped_upto s fl s' fl' root a k pa perm \<and>
    (r = 0 \<and> k = Suc n \<or> r = -1 \<and> k < Suc n \<and> fl' = [])"
proof -
  have u: "unat (of_nat (Suc n) * PGSIZE) = Suc n * 4096"
    using assms(4) by (intro unat_npages) simp
  then have "aligned 12 (of_nat (Suc n) * PGSIZE)" "of_nat (Suc n) * PGSIZE \<noteq> 0"
    by (auto simp: aligned_iff_dvd unat_0_iff [symmetric] simp del: of_nat_Suc)
  moreover have "a + of_nat (Suc n) * PGSIZE - PGSIZE = a + of_nat n * PGSIZE"
    by (simp add: algebra_simps)
  ultimately have "mappages s root a (of_nat (Suc n) * PGSIZE) pa perm =
      mappages_loop s root a (a + of_nat n * PGSIZE) pa perm"
    using assms(3) unfolding mappages_def aligned12_mod by presburger
  then show ?thesis using mappages_loop_mapped [OF assms] by presburger
qed

lemma aligned_MAXVA_room:
  assumes "aligned 12 a" "a < MAXVA"
  shows "unat a + 4096 \<le> 2 ^ 38"
proof -
  have "4096 dvd unat a" "unat a < 2 ^ 38" using assms by (simp_all add: aligned_iff_dvd less_MAXVA)
  then show ?thesis by (auto elim!: dvdE)
qed

lemma same_page_less_MAXVA:
  assumes "aligned 12 a" "a < MAXVA" "PGROUNDDOWN va = a"
  shows "va < MAXVA"
  using page_range_iff [OF assms(1), of va] aligned_MAXVA_room [OF assms(1,2)] assms(3)
  by (simp add: less_MAXVA)

lemma pte_of_PGROUNDDOWN [simp]: "pte_of m root (PGROUNDDOWN va) = pte_of m root va"
  by (simp add: pte_of_def split: option.split)

lemma pte_of_same_page: "PGROUNDDOWN va = a \<Longrightarrow> pte_of m root va = pte_of m root a"
  using pte_of_PGROUNDDOWN by metis

lemma mappages_page:
  assumes "kmem_inv s fl" "pt_inv s fl root" "aligned 12 a" "a < MAXVA"
    and "pte_of (mem s) root a AND PTE_V = 0"
  obtains (ok) s' fl' where "mappages s root a PGSIZE pa perm = Ret (0, s')"
      "mapped_upto s fl s' fl' root a 1 pa perm"
  | (full) s' where "mappages s root a PGSIZE pa perm = Ret (-1, s')"
      "mapped_upto s fl s' [] root a 0 pa perm"
proof -
  have "pte_of (mem s) root va AND PTE_V = 0" if "in_range a (Suc 0) va" for va
    using assms(5) that in_range_1 [OF assms(3,4)] pte_of_same_page by (metis One_nat_def)
  moreover have "unat a + 4096 * Suc 0 \<le> 2 ^ 38" using aligned_MAXVA_room [OF assms(3,4)] by simp
  ultimately obtain r s' fl' k where "mappages s root a PGSIZE pa perm = Ret (r, s')"
    "mapped_upto s fl s' fl' root a k pa perm" "r = 0 \<and> k = 1 \<or> r = -1 \<and> k = 0 \<and> fl' = []"
    using mappages_mapped [OF assms(1-3), of 0 pa perm] by auto
  then show ?thesis using ok full by auto
qed

lemma mappages_page_room:
  assumes "kmem_inv s fl" "pt_inv s fl root" "aligned 12 a" "a < MAXVA"
    and "pte_of (mem s) root a AND PTE_V = 0" "2 \<le> length fl"
  shows "\<exists>s'. mappages s root a PGSIZE pa perm = Ret (0, s')"
proof (cases rule: map_step [OF assms(1-4), where pa = pa and perm = perm])
  case (1 s1)
  then show ?thesis using assms(6) by simp
next
  case (2 pte s1 fl1)
  have "mappages s root a PGSIZE pa perm = mappages_loop s root a a pa perm"
    using assms(3) by (simp add: mappages_def aligned12_mod) (simp add: PGSIZE_def)
  then show ?thesis using 2 assms(5) by (subst (asm) mappages_loop.simps) (simp add: Let_def)
qed

section \<open>The invariant of a user address space\<close>

definition user_pte :: "uint64 \<Rightarrow> bool" where
  "user_pte v \<longleftrightarrow> v AND PTE_V \<noteq> 0 \<and> v AND PTE_U \<noteq> 0"

definition as_inv :: "'a kmem_scheme \<Rightarrow> uint64 list \<Rightarrow> uint64 \<Rightarrow> bool" where
  "as_inv s fl root \<longleftrightarrow>
     kmem_inv s fl \<and> pt_inv s fl root \<and>
     (\<forall>va < MAXVA. user_pte (pte_of (mem s) root va) \<longrightarrow>
        phys_page s (PTE2PA (pte_of (mem s) root va)) \<and>
        PTE2PA (pte_of (mem s) root va) \<notin> set fl \<and>
        \<not> is_table (mem s) root (PTE2PA (pte_of (mem s) root va))) \<and>
     (\<forall>va < MAXVA. \<forall>vb < MAXVA.
        user_pte (pte_of (mem s) root va) \<longrightarrow> user_pte (pte_of (mem s) root vb) \<longrightarrow>
        PTE2PA (pte_of (mem s) root va) = PTE2PA (pte_of (mem s) root vb) \<longrightarrow>
        PGROUNDDOWN va = PGROUNDDOWN vb)"

lemma as_invD:
  assumes "as_inv s fl root"
  shows "kmem_inv s fl" "pt_inv s fl root"
    and "va < MAXVA \<Longrightarrow> user_pte (pte_of (mem s) root va) \<Longrightarrow>
      phys_page s (PTE2PA (pte_of (mem s) root va))"
    and "va < MAXVA \<Longrightarrow> user_pte (pte_of (mem s) root va) \<Longrightarrow>
      PTE2PA (pte_of (mem s) root va) \<notin> set fl"
    and "va < MAXVA \<Longrightarrow> user_pte (pte_of (mem s) root va) \<Longrightarrow>
      \<not> is_table (mem s) root (PTE2PA (pte_of (mem s) root va))"
    and "va < MAXVA \<Longrightarrow> vb < MAXVA \<Longrightarrow> user_pte (pte_of (mem s) root va) \<Longrightarrow>
      user_pte (pte_of (mem s) root vb) \<Longrightarrow>
      PTE2PA (pte_of (mem s) root va) = PTE2PA (pte_of (mem s) root vb) \<Longrightarrow>
      PGROUNDDOWN va = PGROUNDDOWN vb"
  using assms unfolding as_inv_def by blast+

text \<open>Writes outside the tables and the free list keep the invariant and every entry.\<close>

lemma as_inv_frame:
  assumes inv: "as_inv s fl root"
    and fr: "\<And>q. q \<in> set fl \<or> is_table (mem s) root q \<Longrightarrow> same_page (mem s) m' q"
  shows "as_inv (s\<lparr>mem := m'\<rparr>) fl root" "pte_of m' root va = pte_of (mem s) root va"
    "is_table m' root q = is_table (mem s) root q"
proof -
  note pt = as_invD(2) [OF inv]
  have nd: "node m' root p = node (mem s) root p" if "valid_path p" for p
    by (rule node_frame [OF pt _ that]) (use fr in \<open>auto simp: is_table_def\<close>)
  show pte: "pte_of m' root va = pte_of (mem s) root va" for va
    by (rule pte_of_frame [OF pt]) (use fr in \<open>auto simp: is_table_def\<close>)
  show tab: "is_table m' root q = is_table (mem s) root q" for q
    using nd unfolding is_table_def by metis
  have "kmem_inv (s\<lparr>mem := m'\<rparr>) fl"
    by (rule kmem_inv_frame [OF as_invD(1) [OF inv]]) (simp_all add: fr)
  moreover have "pt_inv (s\<lparr>mem := m'\<rparr>) fl root"
    using pt nd by (simp add: pt_inv_def)
  moreover have memu: "mem (s\<lparr>mem := m'\<rparr>) = m'" by simp
  ultimately show "as_inv (s\<lparr>mem := m'\<rparr>) fl root"
    using inv unfolding as_inv_def memu pte tab phys_page_update by blast
qed

section \<open>uvmunmap\<close>

text \<open>Freeing the frame of one user page and clearing its entry, as \<open>uvmunmap\<close> does.\<close>

lemma unmap_user_page:
  assumes inv: "as_inv s fl root" and va: "va < MAXVA" and v: "user_pte (pte_of (mem s) root va)"
  obtains s1 u where "kfree s (PTE2PA (pte_of (mem s) root va)) = Ret s1"
    "node (mem s) root (vpath 2 va) = Some u"
    "as_inv (s1\<lparr>mem := store64 (mem s1) (slot u (PX 0 va)) 0\<rparr>) (PTE2PA (pte_of (mem s) root va) # fl) root"
    "\<And>vb. vb < MAXVA \<Longrightarrow> pte_of (store64 (mem s1) (slot u (PX 0 va)) 0) root vb =
       (if PGROUNDDOWN vb = PGROUNDDOWN va then 0 else pte_of (mem s) root vb)"
    "kend s1 = kend s" "kmem.more s1 = kmem.more s"
    "\<And>q. q \<noteq> PTE2PA (pte_of (mem s) root va) \<Longrightarrow> \<not> is_table (mem s) root q \<Longrightarrow>
       same_page (mem s) (store64 (mem s1) (slot u (PX 0 va)) 0) q"
    "\<And>q. is_table (store64 (mem s1) (slot u (PX 0 va)) 0) root q = is_table (mem s) root q"
proof -
  let ?pa = "PTE2PA (pte_of (mem s) root va)"
  note D = as_invD [OF inv]
  have pa: "phys_page s ?pa" "?pa \<notin> set fl" "\<not> is_table (mem s) root ?pa"
    using D(3-5) [OF va v] by blast+
  have pt: "pt_inv s fl root" by (rule D(2))
  obtain u where u: "node (mem s) root (vpath 2 va) = Some u"
    using v by (auto simp: user_pte_def pte_of_def split: option.splits)
  obtain s1 where s1: "kfree s ?pa = Ret s1" "kmem_inv s1 (?pa # fl)"
      "\<And>q. q \<noteq> ?pa \<Longrightarrow> same_page (mem s) (mem s1) q" "kend s1 = kend s"
      "kmem.more s1 = kmem.more s"
    using kfree_inv [OF D(1) pa(1,2)] by metis
  have frt: "same_page (mem s) (mem s1) t" if "is_table (mem s) root t" for t
    using s1(3) pa(3) that by metis
  have nd: "node (mem s1) root p = node (mem s) root p" if "valid_path p" for p
    by (rule node_frame [OF pt _ that]) (use frt in \<open>auto simp: is_table_def\<close>)
  have pte1: "pte_of (mem s1) root vb = pte_of (mem s) root vb" for vb
    by (rule pte_of_frame [OF pt]) (use frt in \<open>auto simp: is_table_def\<close>)
  have pp: "phys_page s1 x = phys_page s x" for x using s1(4) by (simp add: phys_page_def)
  have pt1: "pt_inv s1 (?pa # fl) root"
    using pt pa(3) nd unfolding pt_inv_def pp is_table_def by (metis set_ConsD)
  have u1: "node (mem s1) root (vpath 2 va) = Some u" using nd u by simp
  define m2 where "m2 = store64 (mem s1) (slot u (PX 0 va)) 0"
  note leaf = store_leaf [OF pt1 u1 m2_def]
  have pte2: "pte_of m2 root vb = (if PGROUNDDOWN vb = PGROUNDDOWN va then 0 else pte_of (mem s) root vb)"
    if "vb < MAXVA" for vb
    using leaf(3) [of vb] same_leaf_iff [OF that va] pte1 by simp
  have tab: "is_table m2 root q = is_table (mem s) root q" for q
    using leaf(2) nd unfolding is_table_def by metis
  have as2: "as_inv (s1\<lparr>mem := m2\<rparr>) (?pa # fl) root"
    unfolding as_inv_def kmem.select_convs kmem.surjective
  proof (intro conjI allI impI)
    show "kmem_inv (s1\<lparr>mem := m2\<rparr>) (?pa # fl)" by (rule leaf(5) [OF s1(2)])
    show "pt_inv (s1\<lparr>mem := m2\<rparr>) (?pa # fl) root" by (rule leaf(4))
  next
    fix vb assume vb: "vb < MAXVA" and up: "user_pte (pte_of (mem (s1\<lparr>mem := m2\<rparr>)) root vb)"
    then have ne: "PGROUNDDOWN vb \<noteq> PGROUNDDOWN va"
      and e: "pte_of m2 root vb = pte_of (mem s) root vb"
      using pte2 [OF vb] by (auto simp: user_pte_def split: if_splits)
    have upv: "user_pte (pte_of (mem s) root vb)" using up e by simp
    show "phys_page (s1\<lparr>mem := m2\<rparr>) (PTE2PA (pte_of (mem (s1\<lparr>mem := m2\<rparr>)) root vb))"
      using D(3) [OF vb upv] e pp by simp
    show "PTE2PA (pte_of (mem (s1\<lparr>mem := m2\<rparr>)) root vb) \<notin> set (?pa # fl)"
      using D(4) [OF vb upv] D(6) [OF vb va upv v] ne e by auto
    show "\<not> is_table (mem (s1\<lparr>mem := m2\<rparr>)) root (PTE2PA (pte_of (mem (s1\<lparr>mem := m2\<rparr>)) root vb))"
      using D(5) [OF vb upv] e tab by simp
  next
    fix vb vc assume vb: "vb < MAXVA" and vc: "vc < MAXVA"
      and up: "user_pte (pte_of (mem (s1\<lparr>mem := m2\<rparr>)) root vb)" "user_pte (pte_of (mem (s1\<lparr>mem := m2\<rparr>)) root vc)"
      and eq: "PTE2PA (pte_of (mem (s1\<lparr>mem := m2\<rparr>)) root vb) = PTE2PA (pte_of (mem (s1\<lparr>mem := m2\<rparr>)) root vc)"
    then have "pte_of m2 root vb = pte_of (mem s) root vb" "pte_of m2 root vc = pte_of (mem s) root vc"
      using pte2 [OF vb] pte2 [OF vc] by (auto simp: user_pte_def split: if_splits)
    then show "PGROUNDDOWN vb = PGROUNDDOWN vc" using D(6) [OF vb vc] up eq by simp
  qed
  have "same_page (mem s) m2 q" if "q \<noteq> ?pa" "\<not> is_table (mem s) root q" for q
  proof -
    have "q \<noteq> u" using that(2) u unfolding is_table_def by (metis order_refl valid_vpath)
    then show ?thesis using leaf(1) s1(3) that(1) by (metis same_page_trans)
  qed
  then show ?thesis using that [OF s1(1) u] as2 pte2 s1(4,5) tab by (simp add: m2_def)
qed

text \<open>
  What unmapping \<open>n\<close> pages from \<open>a\<close> does: every valid entry of the range becomes 0, no other
  entry changes, and \<open>freed\<close> are the frames of the entries that were valid.
\<close>

definition unmapped ::
  "'a kmem_scheme \<Rightarrow> 'a kmem_scheme \<Rightarrow> uint64 list \<Rightarrow> uint64 \<Rightarrow> uint64 \<Rightarrow> nat \<Rightarrow> bool" where
  "unmapped s s' freed root a n \<longleftrightarrow>
     kend s' = kend s \<and> kmem.more s' = kmem.more s \<and>
     (\<forall>va < MAXVA. pte_of (mem s') root va =
        (if in_range a n va \<and> pte_of (mem s) root va AND PTE_V \<noteq> 0 then 0
         else pte_of (mem s) root va)) \<and>
     set freed = {PTE2PA (pte_of (mem s) root va) | va. va < MAXVA \<and> in_range a n va \<and>
       pte_of (mem s) root va AND PTE_V \<noteq> 0}"

lemma not_in_next_range:
  assumes "aligned 12 a" "a < MAXVA" "PGROUNDDOWN va = a"
  shows "\<not> in_range (a + PGSIZE) n va"
  using page_range_iff [OF assms(1), of va] assms(2,3) unat_next_page [of a]
  by (auto simp: in_range_def less_MAXVA)

lemma unmapped_0: "unmapped s s [] root a 0"
  by (auto simp: unmapped_def in_range_def)

lemma unmapped_skip:
  assumes a: "aligned 12 a" "a < MAXVA" and iv: "pte_of (mem s) root a AND PTE_V = 0"
    and u: "unmapped s s' freed root (a + PGSIZE) n"
  shows "unmapped s s' freed root a (Suc n)"
proof -
  have rg: "in_range a (Suc n) va \<and> pte_of (mem s) root va AND PTE_V \<noteq> 0 \<longleftrightarrow>
      in_range (a + PGSIZE) n va \<and> pte_of (mem s) root va AND PTE_V \<noteq> 0" for va
    using in_range_Suc [OF a] iv pte_of_same_page by metis
  show ?thesis using u unfolding unmapped_def rg .
qed

lemma unmapped_Suc:
  assumes a: "aligned 12 a" "a < MAXVA" and v: "pte_of (mem s) root a AND PTE_V \<noteq> 0"
    and k: "kend s2 = kend s" "kmem.more s2 = kmem.more s"
    and p2: "\<And>vb. vb < MAXVA \<Longrightarrow> pte_of (mem s2) root vb =
      (if PGROUNDDOWN vb = a then 0 else pte_of (mem s) root vb)"
    and u: "unmapped s2 s' freed root (a + PGSIZE) n"
  shows "unmapped s s' (freed @ [PTE2PA (pte_of (mem s) root a)]) root a (Suc n)"
proof -
  note rg = in_range_Suc [OF a, of n] and nrg = not_in_next_range [OF a]
    and ala = PGROUNDDOWN_aligned [OF a(1)]
  have e: "pte_of (mem s2) root va = pte_of (mem s) root va"
    if "va < MAXVA" "in_range (a + PGSIZE) n va" for va
    using p2 [OF that(1)] nrg that(2) by auto
  have "pte_of (mem s') root va =
      (if in_range a (Suc n) va \<and> pte_of (mem s) root va AND PTE_V \<noteq> 0 then 0
       else pte_of (mem s) root va)" if "va < MAXVA" for va
    using u v p2 [OF that] rg [of va] nrg [of va] that pte_of_same_page [of va a]
    by (auto simp: unmapped_def)
  moreover have "set freed = {PTE2PA (pte_of (mem s) root va) | va. va < MAXVA \<and>
      in_range (a + PGSIZE) n va \<and> pte_of (mem s) root va AND PTE_V \<noteq> 0}"
    using u e unfolding unmapped_def by (smt (verit, best) Collect_cong)
  moreover have "{PTE2PA (pte_of (mem s) root va) | va. va < MAXVA \<and> in_range a (Suc n) va \<and>
      pte_of (mem s) root va AND PTE_V \<noteq> 0} =
    insert (PTE2PA (pte_of (mem s) root a)) {PTE2PA (pte_of (mem s) root va) | va. va < MAXVA \<and>
      in_range (a + PGSIZE) n va \<and> pte_of (mem s) root va AND PTE_V \<noteq> 0}" (is "?L = insert ?x ?R")
  proof (intro set_eqI iffI)
    fix x assume "x \<in> ?L"
    then obtain va where "x = PTE2PA (pte_of (mem s) root va)" "va < MAXVA" "in_range a (Suc n) va"
      "pte_of (mem s) root va AND PTE_V \<noteq> 0" by blast
    then show "x \<in> insert ?x ?R"
      using rg [of va] pte_of_same_page [of va a "mem s" root] by (cases "PGROUNDDOWN va = a") auto
  next
    fix x assume "x \<in> insert ?x ?R"
    then show "x \<in> ?L" using rg v a(2) ala by (cases "x = ?x") blast+
  qed
  ultimately show ?thesis using u k by (simp add: unmapped_def)
qed

lemma uvmunmap_loop_free:
  assumes "as_inv s fl root" "aligned 12 a" "unat a + 4096 * n \<le> 2 ^ 38"
    and "\<And>va. va < MAXVA \<Longrightarrow> in_range a n va \<Longrightarrow> pte_of (mem s) root va AND PTE_V \<noteq> 0 \<Longrightarrow>
      user_pte (pte_of (mem s) root va)"
  shows "\<exists>s' freed. uvmunmap_loop s root a (a + of_nat n * PGSIZE) True = Ret s' \<and>
    as_inv s' (freed @ fl) root \<and> unmapped s s' freed root a n"
  using assms
proof (induction n arbitrary: s fl a)
  case 0
  then show ?case
    using unmapped_0 by (subst uvmunmap_loop.simps) (auto intro!: exI [of _ "[]"])
next
  case (Suc n)
  let ?b = "a + of_nat (Suc n) * PGSIZE"
  have am: "a < MAXVA" using Suc.prems(3) by (simp add: less_MAXVA)
  have ua: "unat (a + PGSIZE) = unat a + 4096" using unat_next_page am by (simp add: less_MAXVA)
  have "unat (of_nat (Suc n) * PGSIZE) = Suc n * 4096" using Suc.prems(3) by (intro unat_npages) simp
  then have "unat ?b = unat a + Suc n * 4096"
    using Suc.prems(3) by (subst unat_word_ariths) (simp del: of_nat_Suc)
  then have ab: "a < ?b" by (simp add: word_less_nat_alt)
  have b: "?b = (a + PGSIZE) + of_nat n * PGSIZE" by (simp add: algebra_simps)
  note rg = in_range_Suc [OF Suc.prems(2) am, of n] and ala = PGROUNDDOWN_aligned [OF Suc.prems(2)]
    and pt = as_invD(2) [OF Suc.prems(1)]
  have pre: "aligned 12 (a + PGSIZE)" "unat (a + PGSIZE) + 4096 * n \<le> 2 ^ 38"
    using aligned_next [OF Suc.prems(2) am] ua Suc.prems(3) by auto
  show ?case
  proof (cases "pte_of (mem s) root a AND PTE_V = 0")
    case True
    have "uvmunmap_loop s root a ?b True = uvmunmap_loop s root (a + PGSIZE) ?b True"
      using ab True node_nonnull [OF pt, of a]
      by (subst uvmunmap_loop.simps)
        (auto simp: walk_noalloc [OF am] pte_of_def split: option.splits)
    then show ?thesis
      using Suc.IH [OF Suc.prems(1) pre] Suc.prems(4) rg unmapped_skip [OF Suc.prems(2) am True]
      unfolding b by metis
  next
    case False
    then have up: "user_pte (pte_of (mem s) root a)" using Suc.prems(4) [OF am] ala rg by blast
    let ?pa = "PTE2PA (pte_of (mem s) root a)"
    obtain s1 u where s1: "kfree s ?pa = Ret s1" and u: "node (mem s) root (vpath 2 a) = Some u"
      and as2: "as_inv (s1\<lparr>mem := store64 (mem s1) (slot u (PX 0 a)) 0\<rparr>) (?pa # fl) root"
      and pte2: "\<And>vb. vb < MAXVA \<Longrightarrow> pte_of (store64 (mem s1) (slot u (PX 0 a)) 0) root vb =
         (if PGROUNDDOWN vb = PGROUNDDOWN a then 0 else pte_of (mem s) root vb)"
      and ks: "kend s1 = kend s" "kmem.more s1 = kmem.more s"
      by (rule unmap_user_page [OF Suc.prems(1) am up]) blast
    define s2 where "s2 = s1\<lparr>mem := store64 (mem s1) (slot u (PX 0 a)) 0\<rparr>"
    have p2: "pte_of (mem s2) root vb = (if PGROUNDDOWN vb = a then 0 else pte_of (mem s) root vb)"
      if "vb < MAXVA" for vb
      using pte2 [OF that] ala by (simp add: s2_def)
    have ld: "load64 (mem s) (slot u (PX 0 a)) = pte_of (mem s) root a" using u by (simp add: pte_of_def)
    have step: "uvmunmap_loop s root a ?b True = uvmunmap_loop s2 root (a + PGSIZE) ?b True"
      using ab False node_nonnull [OF pt u] s1 u ld
      by (subst uvmunmap_loop.simps) (simp add: walk_noalloc [OF am] s2_def del: of_nat_Suc)
    have "user_pte (pte_of (mem s2) root va)"
      if "va < MAXVA" "in_range (a + PGSIZE) n va" "pte_of (mem s2) root va AND PTE_V \<noteq> 0" for va
      using that p2 [OF that(1)] Suc.prems(4) [OF that(1)] rg by (auto split: if_splits)
    then obtain s' freed where "uvmunmap_loop s2 root (a + PGSIZE) ?b True = Ret s'"
      "as_inv s' (freed @ ?pa # fl) root" and un: "unmapped s2 s' freed root (a + PGSIZE) n"
      using Suc.IH [of s2 "?pa # fl", OF _ pre] as2 unfolding b s2_def by blast
    moreover have "unmapped s s' (freed @ [?pa]) root a (Suc n)"
      by (rule unmapped_Suc [OF Suc.prems(2) am False _ _ p2 un]) (use ks in \<open>simp_all add: s2_def\<close>)
    ultimately show ?thesis
      using step by (intro exI [of _ s'] exI [of _ "freed @ [?pa]"]) simp
  qed
qed

lemma unmap_page_nofree:
  assumes km: "kmem_inv s fl" and pt: "pt_inv s fl root" and a: "aligned 12 a" "a < MAXVA"
  shows "\<exists>s'. uvmunmap s root a 1 False = Ret s' \<and> kmem_inv s' fl \<and> pt_inv s' fl root \<and>
    (\<forall>va < MAXVA. pte_of (mem s') root va =
       (if PGROUNDDOWN va = a \<and> pte_of (mem s) root a AND PTE_V \<noteq> 0 then 0
        else pte_of (mem s) root va))"
proof -
  have ua: "unat (a + PGSIZE) = unat a + 4096" using unat_next_page a(2) by (simp add: less_MAXVA)
  then have lt: "a < a + PGSIZE" by (simp add: word_less_nat_alt)
  have stop: "uvmunmap_loop t root (a + PGSIZE) (a + PGSIZE) False = Ret t" for t :: "'a kmem_scheme"
    by (subst uvmunmap_loop.simps) simp
  have um: "uvmunmap s root a 1 False = uvmunmap_loop s root a (a + PGSIZE) False"
    using a(1) by (simp add: uvmunmap_def aligned12_mod)
  show ?thesis
  proof (cases "pte_of (mem s) root a AND PTE_V = 0")
    case True
    then have "uvmunmap s root a 1 False = Ret s"
      unfolding um using lt node_nonnull [OF pt, of a]
      by (subst uvmunmap_loop.simps)
        (auto simp: walk_noalloc [OF a(2)] pte_of_def stop split: option.splits)
    then show ?thesis using km pt True by auto
  next
    case False
    then obtain u where u: "node (mem s) root (vpath 2 a) = Some u"
      by (auto simp: pte_of_def split: option.splits)
    define m' where "m' = store64 (mem s) (slot u (PX 0 a)) 0"
    note leaf = store_leaf [OF pt u m'_def]
    have "uvmunmap s root a 1 False = Ret (s\<lparr>mem := m'\<rparr>)"
      unfolding um using lt node_nonnull [OF pt u] u False
      by (subst uvmunmap_loop.simps) (simp add: walk_noalloc [OF a(2)] pte_of_def stop m'_def)
    moreover have "pte_of m' root va = (if PGROUNDDOWN va = a then 0 else pte_of (mem s) root va)"
      if "va < MAXVA" for va
      using leaf(3) [of va] same_leaf_iff [OF that a(2)] PGROUNDDOWN_aligned [OF a(1)] by simp
    ultimately show ?thesis using leaf(4,5) km False by auto
  qed
qed

section \<open>Frames on their way in and out of an address space\<close>

text \<open>A frame that was allocated and is not mapped yet.\<close>

definition fresh_frame :: "'a kmem_scheme \<Rightarrow> uint64 list \<Rightarrow> uint64 \<Rightarrow> uint64 \<Rightarrow> bool" where
  "fresh_frame s fl root pa \<longleftrightarrow>
     phys_page s pa \<and> pa \<notin> set fl \<and> \<not> is_table (mem s) root pa \<and>
     (\<forall>va < MAXVA. user_pte (pte_of (mem s) root va) \<longrightarrow> PTE2PA (pte_of (mem s) root va) \<noteq> pa)"

lemma as_inv_kalloc:
  assumes "as_inv s (x # fl) root"
  obtains s1 where "kalloc s = (x, s1)" "as_inv s1 fl root" "fresh_frame s1 fl root x"
    "\<And>va. pte_of (mem s1) root va = pte_of (mem s) root va"
    "\<And>q. is_table (mem s1) root q = is_table (mem s) root q"
    "\<And>q. q \<noteq> x \<Longrightarrow> same_page (mem s) (mem s1) q" "kend s1 = kend s" "kmem.more s1 = kmem.more s"
proof -
  note D = as_invD [OF assms]
  obtain s1 where s1: "kalloc s = (x, s1)" "kmem_inv s1 fl"
      "\<And>q. q \<noteq> x \<Longrightarrow> same_page (mem s) (mem s1) q" "kend s1 = kend s" "kmem.more s1 = kmem.more s"
    by (rule kalloc_cons [OF D(1)]) blast
  have xt: "\<not> is_table (mem s) root x" using D(2) by (auto simp: pt_inv_def is_table_def)
  have nd: "node (mem s1) root p = node (mem s) root p" if "valid_path p" for p
    by (rule node_frame [OF D(2) s1(3) that]) (use xt in \<open>auto simp: is_table_def\<close>)
  have pte: "pte_of (mem s1) root va = pte_of (mem s) root va" for va
    by (rule pte_of_frame [OF D(2) s1(3)]) (use xt in \<open>auto simp: is_table_def\<close>)
  have tab: "is_table (mem s1) root q = is_table (mem s) root q" for q
    using nd unfolding is_table_def by metis
  have pp: "phys_page s1 a = phys_page s a" for a using s1(4) by (simp add: phys_page_def)
  have "pt_inv s1 fl root" using D(2) nd unfolding pt_inv_def pp by (metis list.set_intros(2))
  then have "as_inv s1 fl root"
    using assms s1(2) unfolding as_inv_def pte tab pp by (metis list.set_intros(2))
  moreover have "fresh_frame s1 fl root x"
    using D(1,4) xt unfolding fresh_frame_def pte tab pp kmem_inv_def
    by (metis distinct.simps(2) list.set_intros(1))
  ultimately show ?thesis using that s1 pte tab by blast
qed

lemma as_inv_kfree:
  assumes inv: "as_inv s fl root" and fresh: "fresh_frame s fl root pa"
  obtains s1 where "kfree s pa = Ret s1" "as_inv s1 (pa # fl) root"
    "\<And>va. pte_of (mem s1) root va = pte_of (mem s) root va"
    "\<And>q. q \<noteq> pa \<Longrightarrow> same_page (mem s) (mem s1) q" "kend s1 = kend s" "kmem.more s1 = kmem.more s"
proof -
  note D = as_invD [OF inv]
  have pa: "phys_page s pa" "pa \<notin> set fl" "\<not> is_table (mem s) root pa"
    using fresh by (auto simp: fresh_frame_def)
  obtain s1 where s1: "kfree s pa = Ret s1" "kmem_inv s1 (pa # fl)"
      "\<And>q. q \<noteq> pa \<Longrightarrow> same_page (mem s) (mem s1) q" "kend s1 = kend s" "kmem.more s1 = kmem.more s"
    by (rule kfree_inv [OF D(1) pa(1,2)]) blast
  have nd: "node (mem s1) root p = node (mem s) root p" if "valid_path p" for p
    by (rule node_frame [OF D(2) s1(3) that]) (use pa(3) in \<open>auto simp: is_table_def\<close>)
  have pte: "pte_of (mem s1) root va = pte_of (mem s) root va" for va
    by (rule pte_of_frame [OF D(2) s1(3)]) (use pa(3) in \<open>auto simp: is_table_def\<close>)
  have tab: "is_table (mem s1) root q = is_table (mem s) root q" for q
    using nd unfolding is_table_def by metis
  have pp: "phys_page s1 a = phys_page s a" for a using s1(4) by (simp add: phys_page_def)
  have "pt_inv s1 (pa # fl) root"
    using D(2) nd pa(3) unfolding pt_inv_def pp is_table_def by (metis set_ConsD)
  then have "as_inv s1 (pa # fl) root"
    using inv fresh s1(2) unfolding as_inv_def fresh_frame_def pte tab pp by (metis set_ConsD)
  then show ?thesis using that s1 pte by blast
qed

text \<open>Filling a fresh frame changes nothing the invariant speaks of.\<close>

lemma as_inv_fill:
  assumes inv: "as_inv s fl root" and fresh: "fresh_frame s fl root pa"
    and m': "\<And>q. q \<noteq> pa \<Longrightarrow> same_page (mem s) m' q"
  shows "as_inv (s\<lparr>mem := m'\<rparr>) fl root" "fresh_frame (s\<lparr>mem := m'\<rparr>) fl root pa"
    "pte_of m' root va = pte_of (mem s) root va" "is_table m' root q = is_table (mem s) root q"
proof -
  have fr: "same_page (mem s) m' q" if "q \<in> set fl \<or> is_table (mem s) root q" for q
    using that fresh m' unfolding fresh_frame_def by metis
  note F = as_inv_frame [OF inv fr]
  show "as_inv (s\<lparr>mem := m'\<rparr>) fl root" by (rule F(1))
  show pte: "pte_of m' root va = pte_of (mem s) root va" for va by (rule F(2))
  show tab: "is_table m' root q = is_table (mem s) root q" for q by (rule F(3))
  have memu: "mem (s\<lparr>mem := m'\<rparr>) = m'" by simp
  show "fresh_frame (s\<lparr>mem := m'\<rparr>) fl root pa"
    using fresh unfolding fresh_frame_def memu pte tab phys_page_update by blast
qed

lemma and_PTE_bit_iff:
  "v AND PTE_R \<noteq> 0 \<longleftrightarrow> bit v 1" "v AND PTE_W \<noteq> 0 \<longleftrightarrow> bit v 2"
  "v AND PTE_X \<noteq> 0 \<longleftrightarrow> bit v 3" "v AND PTE_U \<noteq> 0 \<longleftrightarrow> bit v 4"
  using and_exp_eq_0_iff_not_bit [of v 1] and_exp_eq_0_iff_not_bit [of v 2]
    and_exp_eq_0_iff_not_bit [of v 3] and_exp_eq_0_iff_not_bit [of v 4]
  by (simp_all add: PTE_R_def PTE_W_def PTE_X_def PTE_U_def)

lemma user_pte_encode: "perm AND PTE_U \<noteq> 0 \<Longrightarrow> user_pte (PA2PTE pa OR perm OR PTE_V)"
  by (simp add: user_pte_def and_PTE_V_iff and_PTE_bit_iff bit_or_iff) (simp add: PTE_V_def)

lemma as_inv_map:
  assumes inv: "as_inv s fl root" and a: "aligned 12 a" "a < MAXVA"
    and fresh: "fresh_frame s fl root pa" and lf: "low_flags perm"
    and m: "mapped_upto s fl s' fl' root a 1 pa perm"
  shows "as_inv s' fl' root"
proof -
  note D = as_invD [OF inv]
  have M: "kmem_inv s' fl'" "pt_inv s' fl' root" "kend s' = kend s"
    "\<And>u. is_table (mem s') root u \<Longrightarrow> is_table (mem s) root u \<or> u \<in> set fl"
    "set fl' \<subseteq> set fl"
    using m by (auto simp: mapped_upto_def)
  have pp: "phys_page s' x = phys_page s x" for x using M(3) by (simp add: phys_page_def)
  have pte: "pte_of (mem s') root va =
      (if PGROUNDDOWN va = a then PA2PTE pa OR perm OR PTE_V else pte_of (mem s) root va)"
    if "va < MAXVA" for va
    using m that in_range_1 [OF a, of va] PGROUNDDOWN_aligned [OF a(1)] by (simp add: mapped_upto_def)
  have pa: "PTE2PA (PA2PTE pa OR perm OR PTE_V) = pa"
    using PTE2PA_encode [of pa "perm OR PTE_V"] lf fresh phys_page_addr
    by (auto simp: fresh_frame_def or.assoc)
  have fr: "phys_page s pa" "pa \<notin> set fl" "\<not> is_table (mem s) root pa"
    "\<And>va. va < MAXVA \<Longrightarrow> user_pte (pte_of (mem s) root va) \<Longrightarrow> PTE2PA (pte_of (mem s) root va) \<noteq> pa"
    using fresh by (auto simp: fresh_frame_def)
  show ?thesis
    unfolding as_inv_def pp
  proof (intro conjI allI impI)
    fix va assume va: "va < MAXVA" and up: "user_pte (pte_of (mem s') root va)"
    show "phys_page s (PTE2PA (pte_of (mem s') root va))"
      using pte [OF va] pa fr(1) D(3) [OF va] up by (auto split: if_splits)
    show "PTE2PA (pte_of (mem s') root va) \<notin> set fl'"
      using pte [OF va] pa fr(2) D(4) [OF va] up M(5) by (auto split: if_splits)
    show "\<not> is_table (mem s') root (PTE2PA (pte_of (mem s') root va))"
      using pte [OF va] pa fr D(4,5) [OF va] up M(4) by (auto split: if_splits)
  next
    fix va vb assume v: "va < MAXVA" "vb < MAXVA" "user_pte (pte_of (mem s') root va)"
      "user_pte (pte_of (mem s') root vb)"
      "PTE2PA (pte_of (mem s') root va) = PTE2PA (pte_of (mem s') root vb)"
    then show "PGROUNDDOWN va = PGROUNDDOWN vb"
      using pte [OF v(1)] pte [OF v(2)] pa fr(4) [OF v(1)] fr(4) [OF v(2)] D(6) [OF v(1,2)]
      by (auto split: if_splits)
  qed (use M in auto)
qed

lemma as_inv_map_failed:
  assumes inv: "as_inv s fl root" and m: "mapped_upto s fl s' fl' root a 0 pa perm"
  shows "as_inv s' fl' root"
proof -
  have M: "kmem_inv s' fl'" "pt_inv s' fl' root" "kend s' = kend s"
    "\<And>u. is_table (mem s') root u \<Longrightarrow> is_table (mem s) root u \<or> u \<in> set fl"
    "set fl' \<subseteq> set fl" "\<And>va. va < MAXVA \<Longrightarrow> pte_of (mem s') root va = pte_of (mem s) root va"
    using m by (auto simp: mapped_upto_def in_range_def)
  have pp: "phys_page s' x = phys_page s x" for x using M(3) by (simp add: phys_page_def)
  show ?thesis
    unfolding as_inv_def pp
  proof (intro conjI allI impI)
    fix va assume va: "va < MAXVA" and up: "user_pte (pte_of (mem s') root va)"
    show "phys_page s (PTE2PA (pte_of (mem s') root va))" "PTE2PA (pte_of (mem s') root va) \<notin> set fl'"
      "\<not> is_table (mem s') root (PTE2PA (pte_of (mem s') root va))"
      using as_invD(3-5) [OF inv va] up M(4,5) M(6) [OF va] by auto
  next
    fix va vb assume v: "va < MAXVA" "vb < MAXVA" "user_pte (pte_of (mem s') root va)"
      "user_pte (pte_of (mem s') root vb)"
      "PTE2PA (pte_of (mem s') root va) = PTE2PA (pte_of (mem s') root vb)"
    then show "PGROUNDDOWN va = PGROUNDDOWN vb"
      using as_invD(6) [OF inv v(1,2)] M(6) [OF v(1)] M(6) [OF v(2)] by simp
  qed (use M in auto)
qed

section \<open>The interface of an address space\<close>

text \<open>
  The contract the clients of a page table use: a total map from virtual pages to entries
  (0 for none), one operation that adds a page and may run out of memory, one that drops it.
\<close>

locale address_space =
  fixes entry :: "'s \<Rightarrow> uint64 \<Rightarrow> uint64"
    and add_page :: "'s \<Rightarrow> uint64 \<Rightarrow> uint64 \<Rightarrow> uint64 \<Rightarrow> (int \<times> 's) res"
    and drop_page :: "'s \<Rightarrow> uint64 \<Rightarrow> 's res"
    and inv :: "'s \<Rightarrow> bool"
  assumes entry_page: "entry s (PGROUNDDOWN va) = entry s va"
    and add_page: "inv s \<Longrightarrow> aligned 12 a \<Longrightarrow> a < MAXVA \<Longrightarrow> entry s a AND PTE_V = 0 \<Longrightarrow>
      \<exists>r s'. add_page s a pa perm = Ret (r, s') \<and> inv s' \<and> (r = 0 \<or> r = -1) \<and>
        (\<forall>va < MAXVA. entry s' va =
          (if r = 0 \<and> PGROUNDDOWN va = a then PA2PTE pa OR perm OR PTE_V else entry s va))"
    and drop_page: "inv s \<Longrightarrow> aligned 12 a \<Longrightarrow> a < MAXVA \<Longrightarrow>
      \<exists>s'. drop_page s a = Ret s' \<and> inv s' \<and>
        (\<forall>va < MAXVA. entry s' va =
          (if PGROUNDDOWN va = a \<and> entry s a AND PTE_V \<noteq> 0 then 0 else entry s va))"
begin

lemma entry_after_add:
  assumes "inv s" "aligned 12 a" "a < MAXVA" "entry s a AND PTE_V = 0"
    and "add_page s a pa perm = Ret (0, s')"
    and "phys_addr pa" "low_flags perm"
  shows "entry s' a AND PTE_V \<noteq> 0" "PTE2PA (entry s' a) = pa"
    "PTE_FLAGS (entry s' a) = perm OR PTE_V"
proof -
  have "entry s' a = PA2PTE pa OR perm OR PTE_V"
    using add_page [OF assms(1-4), of pa perm] assms(3,5) PGROUNDDOWN_aligned [OF assms(2)] by auto
  then have e: "entry s' a = PA2PTE pa OR (perm OR PTE_V)" by (simp add: or.assoc)
  show "PTE2PA (entry s' a) = pa" "PTE_FLAGS (entry s' a) = perm OR PTE_V"
    unfolding e using assms(6,7) by (simp_all add: PTE2PA_encode PTE_FLAGS_encode)
  show "entry s' a AND PTE_V \<noteq> 0"
    unfolding e and_PTE_V_iff by (simp add: bit_or_iff PTE_V_def)
qed

lemma drop_undoes_add:
  assumes "inv s" "aligned 12 a" "a < MAXVA" "entry s a = 0"
    and "add_page s a pa perm = Ret (0, s')"
  shows "\<exists>s''. drop_page s' a = Ret s'' \<and> inv s'' \<and> (\<forall>va < MAXVA. entry s'' va = entry s va)"
proof -
  have s': "inv s'" "\<forall>va < MAXVA. entry s' va =
      (if PGROUNDDOWN va = a then PA2PTE pa OR perm OR PTE_V else entry s va)"
    using add_page [OF assms(1-3), of pa perm] assms(4,5) by auto
  have v: "(PA2PTE pa OR perm OR PTE_V) AND PTE_V \<noteq> 0"
    unfolding and_PTE_V_iff by (simp add: bit_or_iff PTE_V_def)
  obtain s'' where s'': "drop_page s' a = Ret s''" "inv s''"
    "\<forall>va < MAXVA. entry s'' va = (if PGROUNDDOWN va = a \<and> entry s' a AND PTE_V \<noteq> 0 then 0 else entry s' va)"
    using drop_page [OF s'(1) assms(2,3)] by blast
  have a0: "entry s' a = PA2PTE pa OR perm OR PTE_V"
    using s'(2) assms(3) PGROUNDDOWN_aligned [OF assms(2)] by simp
  have "entry s va = 0" if "va < MAXVA" "PGROUNDDOWN va = a" for va
    using that assms(4) entry_page [of s va] by simp
  then show ?thesis using s'' s' a0 v by auto
qed

end

interpretation pt: address_space "\<lambda>s. pte_of (mem s) root"
    "\<lambda>s a pa perm. mappages s root a PGSIZE pa perm" "\<lambda>s a. uvmunmap s root a 1 False"
    "\<lambda>s. \<exists>fl. kmem_inv s fl \<and> pt_inv s fl root" for root
proof unfold_locales
  fix s :: "'a kmem_scheme" and a pa perm
  assume "\<exists>fl. kmem_inv s fl \<and> pt_inv s fl root" and a: "aligned 12 a" "a < MAXVA"
    and iv: "pte_of (mem s) root a AND PTE_V = 0"
  then obtain fl where inv: "kmem_inv s fl" "pt_inv s fl root" by blast
  note rg = in_range_1 [OF a]
  show "\<exists>r s'. mappages s root a PGSIZE pa perm = Ret (r, s') \<and>
      (\<exists>fl. kmem_inv s' fl \<and> pt_inv s' fl root) \<and> (r = 0 \<or> r = -1) \<and>
      (\<forall>va < MAXVA. pte_of (mem s') root va =
        (if r = 0 \<and> PGROUNDDOWN va = a then PA2PTE pa OR perm OR PTE_V else pte_of (mem s) root va))"
  proof (cases rule: mappages_page [OF inv a iv, of pa perm])
    case (1 s' fl')
    then show ?thesis using rg unfolding mapped_upto_def by (auto intro!: exI [of _ fl'])
  next
    case (2 s')
    then show ?thesis unfolding mapped_upto_def by (auto simp: in_range_def)
  qed
next
  fix s :: "'a kmem_scheme" and a
  assume "\<exists>fl. kmem_inv s fl \<and> pt_inv s fl root" "aligned 12 a" "a < MAXVA"
  then show "\<exists>s'. uvmunmap s root a 1 False = Ret s' \<and>
      (\<exists>fl. kmem_inv s' fl \<and> pt_inv s' fl root) \<and>
      (\<forall>va < MAXVA. pte_of (mem s') root va =
        (if PGROUNDDOWN va = a \<and> pte_of (mem s) root a AND PTE_V \<noteq> 0 then 0 else pte_of (mem s) root va))"
    using unmap_page_nofree by blast
qed simp

lemma walkaddr_spec:
  assumes "pt_inv s fl root"
  shows "walkaddr s root va =
    Ret (if va < MAXVA \<and> user_pte (pte_of (mem s) root va) then PTE2PA (pte_of (mem s) root va) else 0)"
  using node_nonnull [OF assms, of va]
  by (auto simp: walkaddr_def walk_noalloc pte_of_def user_pte_def not_le Let_def split: option.splits)

section \<open>Properties\<close>

text \<open>
  C12: encoding a page address and permission bits into a page-table entry and decoding
  them is the identity, for every page-aligned address below \<open>2^56\<close> and every set of the
  low ten bits.
\<close>

theorem pte_roundtrip:
  assumes "pa mod PGSIZE = 0" and "pa < 2 ^ 56" and "perm < 2 ^ 10"
  shows "PTE2PA (PA2PTE pa OR perm) = pa \<and> PTE_FLAGS (PA2PTE pa OR perm) = perm"
proof -
  have "phys_addr pa" using assms(1,2) by (simp add: phys_addr_def aligned12_mod)
  moreover have "low_flags perm" using assms(3) less_2p_mask [of 10 perm] by (simp add: low_flags_def)
  ultimately show ?thesis by (simp add: PTE2PA_encode PTE_FLAGS_encode)
qed

theorem pte_roundtrip_witness:
  "PTE2PA (PA2PTE 0x87FFE000 OR 0x1F) = 0x87FFE000 \<and> PTE_FLAGS (PA2PTE 0x87FFE000 OR 0x1F) = 0x1F"
  using pte_roundtrip [of "0x87FFE000" "0x1F"] by (simp add: PGSIZE_def)

text \<open>
  C7: \<^verbatim>\<open>mappages\<close> on a range of unmapped pages never panics.  On success exactly the pages of
  the range map to the consecutive frames from \<open>pa\<close> with the given permissions and every
  other address translates as before; on failure the allocator is empty and only a proper
  prefix of the range was mapped.  The table stays a tree disjoint from the free list.
\<close>

theorem mappages_refines_map:
  assumes "kmem_inv s fl" and "pt_inv s fl root"
    and "a mod PGSIZE = 0" and "unat a + 4096 * Suc n \<le> 2 ^ 38"
    and "\<forall>va < MAXVA. in_range a (Suc n) va \<longrightarrow> pte_of (mem s) root va AND PTE_V = 0"
  shows "\<exists>r s' fl' k. mappages s root a (of_nat (Suc n) * PGSIZE) pa perm = Ret (r, s') \<and>
    kmem_inv s' fl' \<and> pt_inv s' fl' root \<and>
    (r = 0 \<and> k = Suc n \<or> r = -1 \<and> k < Suc n \<and> fl' = []) \<and>
    (\<forall>va < MAXVA. pte_of (mem s') root va =
       (if in_range a k va then PA2PTE (pa + (PGROUNDDOWN va - a)) OR perm OR PTE_V
        else pte_of (mem s) root va))"
proof -
  have a: "aligned 12 a" using assms(3) by (simp add: aligned12_mod)
  have "pte_of (mem s) root va AND PTE_V = 0" if "va < MAXVA" "in_range a (Suc n) va" for va
    using assms(5) that by blast
  then obtain r s' fl' k where "mappages s root a (of_nat (Suc n) * PGSIZE) pa perm = Ret (r, s')"
    "mapped_upto s fl s' fl' root a k pa perm" "r = 0 \<and> k = Suc n \<or> r = -1 \<and> k < Suc n \<and> fl' = []"
    using mappages_mapped [OF assms(1,2) a assms(4)] by blast
  then show ?thesis unfolding mapped_upto_def by blast
qed

text \<open>
  C9: after a successful \<^verbatim>\<open>mappages\<close> of one user page, \<^verbatim>\<open>walkaddr\<close> translates every address of
  the page to the frame, and \<^verbatim>\<open>uvmunmap\<close> of the page (without freeing) restores the
  translation of every address.
\<close>

theorem map_walk_unmap:
  assumes inv: "kmem_inv s fl" "pt_inv s fl root" and a: "a mod PGSIZE = 0" "a < MAXVA"
    and free: "pte_of (mem s) root a = 0"
    and pa: "pa mod PGSIZE = 0" "pa < 2 ^ 56" and perm: "perm < 2 ^ 10" "perm AND PTE_U \<noteq> 0"
    and ok: "mappages s root a PGSIZE pa perm = Ret (0, s')"
  shows "(\<forall>va. PGROUNDDOWN va = a \<longrightarrow> walkaddr s' root va = Ret pa) \<and>
    (\<exists>s''. uvmunmap s' root a 1 False = Ret s'' \<and> (\<forall>va. walkaddr s'' root va = walkaddr s root va))"
proof -
  let ?I = "\<lambda>t :: 'a kmem_scheme. \<exists>fl. kmem_inv t fl \<and> pt_inv t fl root"
  have al: "aligned 12 a" using a(1) by (simp add: aligned12_mod)
  have I: "?I s" using inv by blast
  have ph: "phys_addr pa" using pa by (simp add: phys_addr_def aligned12_mod)
  have lf: "low_flags perm" using perm(1) less_2p_mask [of 10 perm] by (simp add: low_flags_def)
  have iv: "pte_of (mem s) root a AND PTE_V = 0" using free by simp
  obtain fl' where s': "kmem_inv s' fl'" "pt_inv s' fl' root"
    using pt.add_page [OF I al a(2) iv, of pa perm] ok by auto
  note en = pt.entry_after_add [OF I al a(2) iv ok ph lf]
  have "pte_of (mem s') root a AND PTE_U = PTE_FLAGS (pte_of (mem s') root a) AND PTE_U"
    by (simp add: PTE_FLAGS_def PTE_U_def and.assoc)
  also have "\<dots> \<noteq> 0" unfolding en(3) using perm(2) by (simp add: bit.conj_disj_distrib2 or_eq_0_iff)
  finally have up: "user_pte (pte_of (mem s') root a)" using en(1) by (simp add: user_pte_def)
  have low: "va < MAXVA" if "PGROUNDDOWN va = a" for va
    by (rule same_page_less_MAXVA [OF al a(2) that])
  have "walkaddr s' root va = Ret pa" if "PGROUNDDOWN va = a" for va
    using walkaddr_spec [OF s'(2), of va] low [OF that] up en(2) pte_of_same_page [OF that] by simp
  moreover obtain s'' fl'' where s'': "uvmunmap s' root a 1 False = Ret s''" "pt_inv s'' fl'' root"
    "\<forall>va < MAXVA. pte_of (mem s'') root va = pte_of (mem s) root va"
    using pt.drop_undoes_add [OF I al a(2) free ok] by blast
  moreover have "walkaddr s'' root va = walkaddr s root va" for va
    using walkaddr_spec [OF s''(2), of va] walkaddr_spec [OF inv(2), of va] s''(3) by auto
  ultimately show ?thesis by blast
qed

text \<open>
  C8: \<^verbatim>\<open>uvmunmap\<close> with \<^verbatim>\<open>do_free\<close> on a range that maps only user pages never panics: every
  entry of the range is cleared, every other address translates as before, and the frames
  the range mapped, each once, are back on the free list.
\<close>

theorem uvmunmap_frees_range:
  assumes "as_inv s fl root" and "a mod PGSIZE = 0" and "unat a + 4096 * n \<le> 2 ^ 38"
    and "\<forall>va < MAXVA. in_range a n va \<longrightarrow> pte_of (mem s) root va AND PTE_V \<noteq> 0 \<longrightarrow>
      user_pte (pte_of (mem s) root va)"
  shows "\<exists>s' freed. uvmunmap s root a (of_nat n) True = Ret s' \<and> as_inv s' (freed @ fl) root \<and>
    (\<forall>va < MAXVA. pte_of (mem s') root va =
       (if in_range a n va \<and> pte_of (mem s) root va AND PTE_V \<noteq> 0 then 0
        else pte_of (mem s) root va)) \<and>
    distinct freed \<and>
    set freed = {PTE2PA (pte_of (mem s) root va) | va. va < MAXVA \<and> in_range a n va \<and>
      pte_of (mem s) root va AND PTE_V \<noteq> 0}"
proof -
  have a: "aligned 12 a" using assms(2) by (simp add: aligned12_mod)
  obtain s' freed where "uvmunmap_loop s root a (a + of_nat n * PGSIZE) True = Ret s'"
    and s': "as_inv s' (freed @ fl) root" "unmapped s s' freed root a n"
    using uvmunmap_loop_free [OF assms(1) a assms(3)] assms(4) by blast
  then have "uvmunmap s root a (of_nat n) True = Ret s'" using a by (simp add: uvmunmap_def aligned12_mod)
  moreover have "distinct freed" using as_invD(1) [OF s'(1)] by (simp add: kmem_inv_def)
  ultimately show ?thesis using s' unfolding unmapped_def by blast
qed

section \<open>Witnesses\<close>

text \<open>
  A machine whose page at \<open>0x80104000\<close> is an empty root table, with two free pages, and the
  same machine after one user page was mapped.
\<close>

definition demo_root :: uint64 where
  "demo_root = 0x80104000"

lemma demo_tables: "node (mem demo_kmem) demo_root p = Some t \<Longrightarrow> valid_path p \<Longrightarrow> p = [] \<and> t = demo_root"
proof (cases p)
  case (Cons i q)
  assume n: "node (mem demo_kmem) demo_root p = Some t" and v: "valid_path p"
  have "aligned 12 demo_root"
    by (simp add: demo_root_def aligned_def align_down_def mask_eq_exp_minus_1)
  moreover have "mem demo_kmem x = 0" if "PGROUNDDOWN x = demo_root" for x
    using that by (auto simp: demo_kmem_def demo_root_def PGROUNDDOWN_def PGSIZE_def)
  ultimately have "load64 (mem demo_kmem) (slot demo_root i) = 0"
    using v Cons by (intro load64_zero_page) (auto simp: valid_path_def)
  then show ?thesis using n Cons by simp
qed simp

lemma demo_pte_of: "pte_of (mem demo_kmem) demo_root va = 0"
proof (cases "node (mem demo_kmem) demo_root (vpath 2 va)")
  case (Some t)
  then have "vpath 2 va = []" using demo_tables by simp
  then show ?thesis by (metis length_vpath list.size(3) zero_neq_numeral)
qed (simp add: pte_of_def)

lemma demo_root_phys: "phys_page demo_kmem demo_root"
  by (simp add: phys_page_def demo_root_def demo_kmem_def aligned_def align_down_def
      mask_eq_exp_minus_1 PHYSTOP_def KERNBASE_def)

lemma demo_root_not_free: "demo_root \<notin> set [0x80100000, 0x80102000]"
  by (simp add: demo_root_def)

lemma demo_pt_inv: "pt_inv demo_kmem [0x80100000, 0x80102000] demo_root"
  unfolding pt_inv_def using demo_tables demo_root_phys demo_root_not_free by metis

lemma demo_as_inv: "as_inv demo_kmem [0x80100000, 0x80102000] demo_root"
  using demo_kmem_inv demo_pt_inv by (simp add: as_inv_def demo_pte_of user_pte_def)

theorem mappages_refines_map_witness:
  "\<exists>r s' fl' k. mappages demo_kmem demo_root 0x1000 (of_nat (Suc 1) * PGSIZE) 0x80106000 0x16 = Ret (r, s') \<and>
    kmem_inv s' fl' \<and> pt_inv s' fl' demo_root \<and>
    (r = 0 \<and> k = Suc 1 \<or> r = -1 \<and> k < Suc 1 \<and> fl' = []) \<and>
    (\<forall>va < MAXVA. pte_of (mem s') demo_root va =
       (if in_range 0x1000 k va then PA2PTE (0x80106000 + (PGROUNDDOWN va - 0x1000)) OR 0x16 OR PTE_V
        else pte_of (mem demo_kmem) demo_root va))"
  by (rule mappages_refines_map [OF demo_kmem_inv demo_pt_inv])
    (simp_all add: PGSIZE_def demo_pte_of)

lemma demo_aligned: "aligned 12 (0x1000 :: uint64)" "aligned 12 (0x80106000 :: uint64)"
  by (simp_all add: aligned_def align_down_def mask_eq_exp_minus_1)

lemma demo_map_ok: "\<exists>s'. mappages demo_kmem demo_root 0x1000 PGSIZE 0x80106000 0x16 = Ret (0, s')"
  by (rule mappages_page_room [OF demo_kmem_inv demo_pt_inv])
    (simp_all add: demo_pte_of demo_aligned MAXVA_def)

theorem map_walk_unmap_witness:
  "\<exists>s'. mappages demo_kmem demo_root 0x1000 PGSIZE 0x80106000 0x16 = Ret (0, s') \<and>
    (\<forall>va. PGROUNDDOWN va = 0x1000 \<longrightarrow> walkaddr s' demo_root va = Ret 0x80106000) \<and>
    (\<exists>s''. uvmunmap s' demo_root 0x1000 1 False = Ret s'' \<and>
      (\<forall>va. walkaddr s'' demo_root va = walkaddr demo_kmem demo_root va))"
proof -
  obtain s' where ok: "mappages demo_kmem demo_root 0x1000 PGSIZE 0x80106000 0x16 = Ret (0, s')"
    using demo_map_ok by blast
  show ?thesis
    using map_walk_unmap [OF demo_kmem_inv demo_pt_inv _ _ demo_pte_of _ _ _ _ ok] ok
    by (simp add: PGSIZE_def MAXVA_def PTE_U_def)
qed

lemma demo_fresh: "fresh_frame demo_kmem [0x80100000, 0x80102000] demo_root 0x80106000"
proof -
  have "(0x80106000 :: uint64) \<noteq> demo_root" by (simp add: demo_root_def)
  then have "\<not> is_table (mem demo_kmem) demo_root 0x80106000"
    unfolding is_table_def using demo_tables by metis
  moreover have "phys_page demo_kmem 0x80106000"
    by (simp add: phys_page_def demo_aligned) (simp add: demo_kmem_def PHYSTOP_def KERNBASE_def)
  ultimately show ?thesis by (simp add: fresh_frame_def demo_pte_of user_pte_def)
qed

lemma demo_mapped:
  obtains s :: kmem and fl where "as_inv s fl demo_root"
    "pte_of (mem s) demo_root 0x1000 = PA2PTE 0x80106000 OR 0x16 OR PTE_V"
    "\<And>va. va < MAXVA \<Longrightarrow> pte_of (mem s) demo_root va AND PTE_V \<noteq> 0 \<Longrightarrow> PGROUNDDOWN va = 0x1000"
proof -
  have a: "(0x1000 :: uint64) < MAXVA" by (simp add: MAXVA_def)
  have iv: "pte_of (mem demo_kmem) demo_root 0x1000 AND PTE_V = 0" by (simp add: demo_pte_of)
  show ?thesis
  proof (cases rule: mappages_page [OF demo_kmem_inv demo_pt_inv demo_aligned(1) a iv,
        where pa = "0x80106000" and perm = "0x16"])
    case (1 s fl)
    have "low_flags 0x16" by (simp add: low_flags_def mask_eq_exp_minus_1)
    then have "as_inv s fl demo_root"
      by (rule as_inv_map [OF demo_as_inv demo_aligned(1) a demo_fresh _ 1(2)])
    moreover have pte: "pte_of (mem s) demo_root va =
        (if PGROUNDDOWN va = 0x1000 then PA2PTE 0x80106000 OR 0x16 OR PTE_V else 0)" if "va < MAXVA" for va
      using 1(2) that in_range_1 [OF demo_aligned(1) a, of va] by (simp add: mapped_upto_def demo_pte_of)
    moreover have "PGROUNDDOWN 0x1000 = 0x1000" by (rule PGROUNDDOWN_aligned [OF demo_aligned(1)])
    ultimately show ?thesis using a by (intro that [of s fl]) (auto split: if_splits)
  next
    case (2 s)
    then show ?thesis using demo_map_ok by auto
  qed
qed

theorem uvmunmap_frees_range_witness:
  "\<exists>s fl s' freed. pte_of (mem (s :: kmem)) demo_root 0x1000 = PA2PTE 0x80106000 OR 0x16 OR PTE_V \<and>
    uvmunmap s demo_root 0x1000 (of_nat 3) True = Ret s' \<and> as_inv s' (freed @ fl) demo_root \<and>
    pte_of (mem s') demo_root 0x1000 = 0 \<and> 0x80106000 \<in> set freed"
proof -
  obtain s fl where s: "as_inv (s :: kmem) fl demo_root"
    "pte_of (mem s) demo_root 0x1000 = PA2PTE 0x80106000 OR 0x16 OR PTE_V"
    "\<And>va. va < MAXVA \<Longrightarrow> pte_of (mem s) demo_root va AND PTE_V \<noteq> 0 \<Longrightarrow> PGROUNDDOWN va = 0x1000"
    by (rule demo_mapped) blast
  have v: "PA2PTE 0x80106000 OR 0x16 OR PTE_V = 0x20041817"
    by (simp add: PA2PTE_def PTE_V_def)
  have u: "user_pte (pte_of (mem s) demo_root va)" if "va < MAXVA" "pte_of (mem s) demo_root va AND PTE_V \<noteq> 0" for va
    using pte_of_same_page [OF s(3) [OF that]] s(2) that v by (simp add: user_pte_def PTE_U_def)
  have r: "in_range 0x1000 3 0x1000" "(0x1000 :: uint64) < MAXVA" by (simp_all add: in_range_def MAXVA_def)
  have f: "pte_of (mem s) demo_root 0x1000 AND PTE_V \<noteq> 0" "PTE2PA (pte_of (mem s) demo_root 0x1000) = 0x80106000"
    unfolding s(2) v by (simp_all add: PTE2PA_def PTE_V_def)
  obtain s' freed where "uvmunmap s demo_root 0x1000 (of_nat 3) True = Ret s'" "as_inv s' (freed @ fl) demo_root"
    "\<forall>va < MAXVA. pte_of (mem s') demo_root va =
       (if in_range 0x1000 3 va \<and> pte_of (mem s) demo_root va AND PTE_V \<noteq> 0 then 0
        else pte_of (mem s) demo_root va)"
    "set freed = {PTE2PA (pte_of (mem s) demo_root va) | va. va < MAXVA \<and> in_range 0x1000 3 va \<and>
      pte_of (mem s) demo_root va AND PTE_V \<noteq> 0}"
    using uvmunmap_frees_range [OF s(1), where a = "0x1000" and n = 3] u by (auto simp: PGSIZE_def)
  then show ?thesis using s(2) f r by (smt (verit) mem_Collect_eq)
qed

end
