(* ===== verification/Proc_Types.thy ===== *)
theory Proc_Types
  imports Address_Space
begin

text \<open>
  The process descriptor of \<^verbatim>\<open>proc.h\<close>, the machine it runs on, and the bookkeeping of the
  demand pager of \<^verbatim>\<open>vm.c\<close>: the resident set with its FIFO sequence numbers, and the swap
  area kept inside the descriptor.  Fields keep the source's names with a prefix that
  names their \<^verbatim>\<open>struct\<close>.  An array with a counter stays an array (a list of the declared
  length) and a counter; the C \<^verbatim>\<open>int\<close>s that hold \<^verbatim>\<open>-1\<close> are \<^typ>\<open>int\<close>.
\<close>

section \<open>Console events\<close>

text \<open>
  The lines the pager prints.  Every constructor is one \<^verbatim>\<open>printf\<close> format of \<^verbatim>\<open>vm.c\<close> or
  \<^verbatim>\<open>exec.c\<close> and carries its arguments.
\<close>

datatype kevent =
    PAGEFAULT int uint64 string string
  | INVALID_ACCESS int uint64 string
  | MEMFULL int
  | KILL int string
  | VICTIM int uint64 int
  | EVICT int uint64 string
  | SWAPFULL int
  | SWAPOUT int uint64 int
  | DISCARD int uint64
  | SWAPIN int uint64 int
  | LOADEXEC int uint64
  | ALLOC int uint64
  | RESIDENT int uint64 uint64
  | SWAPCLEANUP int int
  | INIT_LAZYMAP int "uint64 \<times> uint64" "uint64 \<times> uint64" uint64 uint64
  | USERTRAP string

record machine = kmem +
  klog :: "kevent list"

definition kprintf :: "'a machine_scheme \<Rightarrow> kevent \<Rightarrow> 'a machine_scheme" where
  "kprintf s e = s\<lparr>klog := klog s @ [e]\<rparr>"

section \<open>The process descriptor\<close>

datatype procstate = UNUSED | USED | SLEEPING | RUNNABLE | RUNNING | ZOMBIE

record lazy_seg =
  seg_vaddr :: uint64
  seg_filesz :: uint64
  seg_memsz :: uint64
  seg_fileoff :: uint64
  seg_flags :: uint32
  seg_ip :: nat

record res_page =
  rp_va :: uint64
  rp_seq :: int
  rp_is_dirty :: int
  rp_swap_slot :: int

record swp_page =
  sp_va :: uint64
  sp_slot :: int
  sp_data :: "uint8 list"

record proc =
  p_state :: procstate
  p_chan :: uint64
  p_killed :: int
  p_xstate :: int
  p_pid :: int
  p_parent :: "nat option"
  p_kstack :: uint64
  p_sz :: uint64
  p_pagetable :: uint64
  p_trapframe :: uint64
  p_ofile :: "nat option list"
  p_cwd :: "nat option"
  p_name :: string
  p_lazy_segs :: "lazy_seg list"
  p_lazy_nseg :: nat
  p_lazy_heap_start :: uint64
  p_lazy_stack_top :: uint64
  p_lazy_max_addr :: uint64
  p_pf_seq :: uint64
  p_text_start :: uint64
  p_text_end :: uint64
  p_data_start :: uint64
  p_data_end :: uint64
  p_resident_pages :: "res_page list"
  p_num_resident :: nat
  p_swapped_pages :: "swp_page list"
  p_num_swapped :: nat
  p_swap_filename :: string
  p_swap_slots :: "int list"

text \<open>The value an \<^verbatim>\<open>int\<close> holds after a \<^verbatim>\<open>uint64\<close> is assigned to it.\<close>

definition to_int :: "uint64 \<Rightarrow> int" where
  "to_int x = sint (ucast x :: uint32)"

lemma to_int_small:
  assumes "unat x < 2 ^ 31"
  shows "to_int x = int (unat x)"
proof -
  have "unat (ucast x :: uint32) = unat x"
    using assms by (simp add: unsigned_ucast_eq take_bit_nat_eq_self)
  then have u: "uint (ucast x :: uint32) = int (unat x)" by (metis of_nat_unat)
  define k where "k = unat x"
  have k: "k < 2147483648" using assms by (simp add: k_def)
  have "signed_take_bit 31 (int k) = int k"
    using k by (intro signed_take_bit_int_eq_self) simp_all
  then show ?thesis unfolding to_int_def sint_uint u by (simp add: k_def)
qed

section \<open>The resident set\<close>

definition add_resident_page :: "proc \<Rightarrow> uint64 \<Rightarrow> int \<Rightarrow> proc res" where
  "add_resident_page p va is_dirty =
     (let p1 = p\<lparr>p_pf_seq := p_pf_seq p + 1\<rparr>; n = p_num_resident p1 in
      if n \<ge> 256 then Panic ''resident set full - page replacement needed''
      else Ret (p1\<lparr>p_resident_pages := (p_resident_pages p1)
                     [n := \<lparr>rp_va = va, rp_seq = to_int (p_pf_seq p1), rp_is_dirty = is_dirty, rp_swap_slot = -1\<rparr>],
                   p_num_resident := n + 1\<rparr>))"

text \<open>
  The loop \<^verbatim>\<open>for (j = i; j < n - 1; j++) xs[j] = xs[j + 1]\<close>, which \<^verbatim>\<open>remove_resident_page\<close>,
  \<^verbatim>\<open>swap_in_page\<close> and \<^verbatim>\<open>growproc\<close> share.
\<close>

function shift_down :: "'a list \<Rightarrow> nat \<Rightarrow> nat \<Rightarrow> 'a list" where
  "shift_down xs j n = (if j + 1 < n then shift_down (xs[j := xs ! (j + 1)]) (j + 1) n else xs)"
  by pat_completeness auto
termination
  by (relation "measure (\<lambda>(xs, j, n). n - j)") auto

declare shift_down.simps [simp del]

function remove_resident_from :: "proc \<Rightarrow> uint64 \<Rightarrow> nat \<Rightarrow> proc" where
  "remove_resident_from p va i =
     (if i < p_num_resident p then
        if rp_va (p_resident_pages p ! i) = va then
          p\<lparr>p_resident_pages := shift_down (p_resident_pages p) i (p_num_resident p),
            p_num_resident := p_num_resident p - 1\<rparr>
        else remove_resident_from p va (i + 1)
      else p)"
  by pat_completeness auto
termination
  by (relation "measure (\<lambda>(p, va, i). p_num_resident p - i)") auto

declare remove_resident_from.simps [simp del]

definition remove_resident_page :: "proc \<Rightarrow> uint64 \<Rightarrow> proc" where
  "remove_resident_page p va = remove_resident_from p va 0"

function find_victim_from :: "res_page list \<Rightarrow> nat \<Rightarrow> nat \<Rightarrow> nat \<Rightarrow> int \<Rightarrow> nat" where
  "find_victim_from rs n i oldest_idx oldest_seq =
     (if i < n then
        if rp_seq (rs ! i) < oldest_seq then find_victim_from rs n (i + 1) i (rp_seq (rs ! i))
        else find_victim_from rs n (i + 1) oldest_idx oldest_seq
      else oldest_idx)"
  by pat_completeness auto
termination
  by (relation "measure (\<lambda>(rs, n, i, oi, os). n - i)") auto

declare find_victim_from.simps [simp del]

definition find_victim_page :: "proc \<Rightarrow> int" where
  "find_victim_page p =
     (if p_num_resident p = 0 then -1
      else int (find_victim_from (p_resident_pages p) (p_num_resident p) 1 0 (rp_seq (p_resident_pages p ! 0))))"

section \<open>The swap area\<close>

function find_free_from :: "int list \<Rightarrow> nat \<Rightarrow> int" where
  "find_free_from slots i =
     (if i < 1024 then if slots ! i = 0 then int i else find_free_from slots (i + 1) else -1)"
  by pat_completeness auto
termination
  by (relation "measure (\<lambda>(slots, i). 1024 - i)") auto

declare find_free_from.simps [simp del]

definition find_free_swap_slot :: "proc \<Rightarrow> int \<times> proc" where
  "find_free_swap_slot p =
     (let i = find_free_from (p_swap_slots p) 0 in
      if i < 0 then (-1, p) else (i, p\<lparr>p_swap_slots := (p_swap_slots p)[nat i := 1]\<rparr>))"

text \<open>
  The name \<^verbatim>\<open>/pgswp\<close> followed by the five last decimal digits of the process id (a positive
  number); the digits are written from position 10 down to 6.
\<close>

primrec swap_digits :: "nat \<Rightarrow> string \<Rightarrow> int \<Rightarrow> string" where
  "swap_digits 0 name pid = name"
| "swap_digits (Suc k) name pid =
     swap_digits k (name[6 + k := char_of (nat (48 + pid mod 10))]) (pid div 10)"

definition init_swap_file :: "proc \<Rightarrow> proc" where
  "init_swap_file p =
     (let name0 = (p_swap_filename p)[0 := CHR ''/'', 1 := CHR ''p'', 2 := CHR ''g'', 3 := CHR ''s'', 4 := CHR ''w'', 5 := CHR ''p''];
          name1 = swap_digits 5 name0 (p_pid p)
      in p\<lparr>p_swap_filename := name1[11 := char_of (0 :: nat)], p_num_swapped := 0\<rparr>)"

definition cleanup_swap_file :: "'a machine_scheme \<Rightarrow> proc \<Rightarrow> 'a machine_scheme \<times> proc" where
  "cleanup_swap_file s p =
     (let freed_slots = int (length (filter (\<lambda>x. x = 1) (take 1024 (p_swap_slots p))));
          p1 = p\<lparr>p_swap_slots := map (\<lambda>x. if x = 1 then 0 else x) (p_swap_slots p)\<rparr>;
          s1 = (if freed_slots > 0 then kprintf s (SWAPCLEANUP (p_pid p) freed_slots) else s)
      in (s1, p1\<lparr>p_num_resident := 0, p_num_swapped := 0, p_pf_seq := 0\<rparr>))"

text \<open>
  The data of a swapped page is an array of the descriptor, outside the pages the allocator
  manages; the two \<^verbatim>\<open>memmove\<close>s between it and a frame read and write a list of bytes.
\<close>

definition load_bytes :: "memory \<Rightarrow> uint64 \<Rightarrow> nat \<Rightarrow> uint8 list" where
  "load_bytes m a n = map (\<lambda>i. m (a + of_nat i)) [0..<n]"

fun store_bytes :: "memory \<Rightarrow> uint64 \<Rightarrow> uint8 list \<Rightarrow> memory" where
  "store_bytes m a [] = m"
| "store_bytes m a (b # bs) = store_bytes (m(a := b)) (a + 1) bs"

definition swap_out_page :: "'a machine_scheme \<Rightarrow> proc \<Rightarrow> uint64 \<Rightarrow> int \<Rightarrow> (int \<times> 'a machine_scheme \<times> proc) res" where
  "swap_out_page s p va slt =
     rbind (walk s (p_pagetable p) va False) (\<lambda>(pte, s1).
       if pte = 0 \<or> load64 (mem s1) pte AND PTE_V = 0 then Ret (-1, s1, p)
       else if p_num_swapped p \<ge> 8 then Ret (-1, s1, p)
       else let pa = PTE2PA (load64 (mem s1) pte); n = p_num_swapped p;
                e = \<lparr>sp_va = va, sp_slot = slt, sp_data = load_bytes (mem s1) pa 4096\<rparr>
            in Ret (0, kprintf s1 (SWAPOUT (p_pid p) va slt),
                    p\<lparr>p_swapped_pages := (p_swapped_pages p)[n := e], p_num_swapped := n + 1\<rparr>))"

function find_swapped :: "proc \<Rightarrow> uint64 \<Rightarrow> int \<Rightarrow> nat \<Rightarrow> int" where
  "find_swapped p va slt i =
     (if i < p_num_swapped p then
        if sp_va (p_swapped_pages p ! i) = va \<and> sp_slot (p_swapped_pages p ! i) = slt then int i
        else find_swapped p va slt (i + 1)
      else -1)"
  by pat_completeness auto
termination
  by (relation "measure (\<lambda>(p, va, slt, i). p_num_swapped p - i)") auto

declare find_swapped.simps [simp del]

definition swap_in_page :: "'a machine_scheme \<Rightarrow> proc \<Rightarrow> uint64 \<Rightarrow> int \<Rightarrow> uint64 \<Rightarrow> int \<times> 'a machine_scheme \<times> proc" where
  "swap_in_page s p va slt frame =
     (let found = find_swapped p va slt 0 in
      if found < 0 then (-1, s, p)
      else let i = nat found in
        (0, s\<lparr>mem := store_bytes (mem s) frame (sp_data (p_swapped_pages p ! i))\<rparr>,
         p\<lparr>p_swapped_pages := shift_down (p_swapped_pages p) i (p_num_swapped p),
           p_num_swapped := p_num_swapped p - 1,
           p_swap_slots := (p_swap_slots p)[nat slt := 0]\<rparr>))"

end
