(* ===== verification/Fifo_Spec.thy ===== *)
theory Fifo_Spec
  imports Prelude
begin

text \<open>
  The interface of a first-in first-out buffer.  The resident set of the pager, the pipe and
  the console input buffer provide it; its clients' laws are proved here once.
\<close>

locale fifo_buffer =
  fixes contents :: "'s \<Rightarrow> 'x list"
    and put :: "'s \<Rightarrow> 'x \<Rightarrow> 's option"
    and get :: "'s \<Rightarrow> ('x \<times> 's) option"
    and inv :: "'s \<Rightarrow> bool"
    and room :: "'s \<Rightarrow> nat"
    and fresh :: "'s \<Rightarrow> 'x \<Rightarrow> bool"
    and indep :: "'x \<Rightarrow> 'x \<Rightarrow> bool"
  assumes put_appends: "inv s \<Longrightarrow> 0 < room s \<Longrightarrow> fresh s x \<Longrightarrow>
      \<exists>s'. put s x = Some s' \<and> inv s' \<and> contents s' = contents s @ [x] \<and> room s' = room s - 1"
    and get_takes_first: "inv s \<Longrightarrow> contents s = x # xs \<Longrightarrow>
      \<exists>s'. get s = Some (x, s') \<and> inv s' \<and> contents s' = xs"
    and get_empty: "inv s \<Longrightarrow> contents s = [] \<Longrightarrow> get s = None"
    and fresh_put: "inv s \<Longrightarrow> put s x = Some s' \<Longrightarrow> fresh s y \<Longrightarrow> indep x y \<Longrightarrow> fresh s' y"
begin

primrec puts :: "'s \<Rightarrow> 'x list \<Rightarrow> 's option" where
  "puts s [] = Some s"
| "puts s (x # xs) = (case put s x of None \<Rightarrow> None | Some s' \<Rightarrow> puts s' xs)"

primrec gets :: "'s \<Rightarrow> nat \<Rightarrow> ('x list \<times> 's) option" where
  "gets s 0 = Some ([], s)"
| "gets s (Suc n) = (case get s of None \<Rightarrow> None
     | Some (x, s') \<Rightarrow> (case gets s' n of None \<Rightarrow> None | Some (xs, s'') \<Rightarrow> Some (x # xs, s'')))"

lemma puts_append:
  "inv s \<Longrightarrow> length xs \<le> room s \<Longrightarrow> sorted_wrt indep xs \<Longrightarrow> (\<And>x. x \<in> set xs \<Longrightarrow> fresh s x) \<Longrightarrow>
    \<exists>s'. puts s xs = Some s' \<and> inv s' \<and> contents s' = contents s @ xs"
proof (induction xs arbitrary: s)
  case (Cons x xs)
  obtain s' where s': "put s x = Some s'" "inv s'" "contents s' = contents s @ [x]" "room s' = room s - 1"
    using put_appends [OF Cons.prems(1), of x] Cons.prems(2,4) by auto
  have "fresh s' y" if "y \<in> set xs" for y
    using fresh_put [OF Cons.prems(1) s'(1), of y] Cons.prems(3,4) that by auto
  moreover have rm: "length xs \<le> room s'" using s'(4) Cons.prems(2) by simp
  ultimately obtain s'' where "puts s' xs = Some s''" "inv s''" "contents s'' = contents s' @ xs"
    using Cons.IH [OF s'(2)] rm Cons.prems(3) by auto
  then show ?case using s' by auto
qed simp

lemma gets_prefix:
  "inv s \<Longrightarrow> contents s = xs @ ys \<Longrightarrow> \<exists>s'. gets s (length xs) = Some (xs, s') \<and> inv s' \<and> contents s' = ys"
proof (induction xs arbitrary: s)
  case (Cons x xs)
  obtain s' where s': "get s = Some (x, s')" "inv s'" "contents s' = xs @ ys"
    using get_takes_first [OF Cons.prems(1), of x "xs @ ys"] Cons.prems(2) by auto
  then show ?case using Cons.IH [OF s'(2,3)] by auto
qed simp

lemma fifo_order:
  assumes "inv s" "contents s = []" "length xs \<le> room s" "sorted_wrt indep xs" "\<And>x. x \<in> set xs \<Longrightarrow> fresh s x"
  obtains s' s'' where "puts s xs = Some s'" "gets s' (length xs) = Some (xs, s'')" "contents s'' = []"
  using puts_append [OF assms(1,3,4,5)] gets_prefix [of _ xs "[]"] assms(2) by force

end

end
