(* ===== verification/Resident_Set.thy ===== *)
theory Resident_Set
  imports Proc_Types Fifo_Spec
begin

text \<open>
  The resident set is a FIFO queue.  The array and its counter are read as a list; adding
  appends, removing deletes the entry of a page, and as long as the sequence numbers fit an
  \<^verbatim>\<open>int\<close> the victim search returns the first entry, the page that became resident first.
  The interface of a queue is the locale of \<^verbatim>\<open>Fifo_Spec\<close>.
\<close>

section \<open>Arrays with a counter\<close>

lemma length_shift_down [simp]: "length (shift_down xs i n) = length xs"
  by (induction xs i n rule: shift_down.induct) (subst shift_down.simps, simp)

lemma nth_shift_down:
  "n \<le> length xs \<Longrightarrow> k < length xs \<Longrightarrow>
    shift_down xs i n ! k = (if i \<le> k \<and> k + 1 < n then xs ! (k + 1) else xs ! k)"
proof (induction xs i n rule: shift_down.induct)
  case (1 xs j n)
  show ?case
  proof (cases "j + 1 < n")
    case True
    then have "shift_down xs j n ! k = shift_down (xs[j := xs ! (j + 1)]) (j + 1) n ! k"
      by (subst shift_down.simps) simp
    also have "\<dots> = (if j + 1 \<le> k \<and> k + 1 < n then xs[j := xs ! (j + 1)] ! (k + 1) else xs[j := xs ! (j + 1)] ! k)"
      using 1 True by simp
    finally show ?thesis using True 1(2,3) by (auto simp: nth_list_update)
  next
    case False
    then show ?thesis by (subst shift_down.simps) auto
  qed
qed

lemma take_shift_down:
  assumes "i < n" "n \<le> length xs"
  shows "take (n - 1) (shift_down xs i n) = take i (take n xs) @ drop (i + 1) (take n xs)"
  by (rule nth_equalityI) (use assms in \<open>auto simp: nth_shift_down nth_append\<close>)

lemma filter_remove_key:
  assumes "distinct (map f xs)" "i < length xs"
  shows "filter (\<lambda>e. f e \<noteq> f (xs ! i)) xs = take i xs @ drop (i + 1) xs"
proof -
  have xs: "xs = take i xs @ (xs ! i) # drop (i + 1) xs"
    using assms(2) by (simp add: id_take_nth_drop [symmetric])
  have "f e \<noteq> f (xs ! i)" if "e \<in> set (take i xs) \<union> set (drop (i + 1) xs)" for e
  proof -
    have "distinct (map f (take i xs) @ f (xs ! i) # map f (drop (i + 1) xs))"
      using assms(1) by (subst (asm) xs) simp
    then have "f (xs ! i) \<notin> f ` (set (take i xs) \<union> set (drop (i + 1) xs))" by auto
    then show ?thesis using that by (metis imageI)
  qed
  then have "filter (\<lambda>e. f e \<noteq> f (xs ! i)) (take i xs @ (xs ! i) # drop (i + 1) xs) = take i xs @ drop (i + 1) xs"
    by (simp add: filter_id_conv)
  then show ?thesis using xs by metis
qed

lemma take_shift_filter:
  assumes "i < n" "n \<le> length xs" "distinct (map f (take n xs))"
  shows "take (n - 1) (shift_down xs i n) = filter (\<lambda>e. f e \<noteq> f (xs ! i)) (take n xs)"
  using take_shift_down [OF assms(1,2)] filter_remove_key [OF assms(3), of i] assms(1,2) by simp

lemma take_append_update: "n < length xs \<Longrightarrow> take (n + 1) (xs[n := x]) = take n xs @ [x]"
  by (simp add: take_Suc_conv_app_nth)

definition resident :: "proc \<Rightarrow> res_page list" where
  "resident p = take (p_num_resident p) (p_resident_pages p)"

definition swapped :: "proc \<Rightarrow> swp_page list" where
  "swapped p = take (p_num_swapped p) (p_swapped_pages p)"

text \<open>The invariant of the resident set: the counter fits the array and no page is listed twice.\<close>

definition rset_inv :: "proc \<Rightarrow> bool" where
  "rset_inv p \<longleftrightarrow> length (p_resident_pages p) = 256 \<and> p_num_resident p \<le> 256 \<and>
     distinct (map rp_va (resident p))"

text \<open>The order of the queue: sequence numbers increase and none is newer than \<^verbatim>\<open>pf_seq\<close>.\<close>

definition fifo_inv :: "proc \<Rightarrow> bool" where
  "fifo_inv p \<longleftrightarrow> unat (p_pf_seq p) < 2 ^ 31 \<and> sorted_wrt (<) (map rp_seq (resident p)) \<and>
     (\<forall>e \<in> set (resident p). rp_seq e \<le> int (unat (p_pf_seq p)))"

lemma length_resident: "rset_inv p \<Longrightarrow> length (resident p) = p_num_resident p"
  by (simp add: rset_inv_def resident_def)

lemma nth_resident: "i < p_num_resident p \<Longrightarrow> resident p ! i = p_resident_pages p ! i"
  by (simp add: resident_def)

subsection \<open>Adding and removing a page\<close>

lemma add_resident_page_ok:
  assumes "rset_inv p" "p_num_resident p < 256"
  obtains rs p' where "add_resident_page p va d = Ret p'"
    "p' = p\<lparr>p_pf_seq := p_pf_seq p + 1, p_resident_pages := rs, p_num_resident := p_num_resident p + 1\<rparr>"
    "length rs = 256"
    "resident p' = resident p @ [\<lparr>rp_va = va, rp_seq = to_int (p_pf_seq p + 1), rp_is_dirty = d, rp_swap_slot = -1\<rparr>]"
proof -
  let ?e = "\<lparr>rp_va = va, rp_seq = to_int (p_pf_seq p + 1), rp_is_dirty = d, rp_swap_slot = -1\<rparr>"
  let ?rs = "(p_resident_pages p)[p_num_resident p := ?e]"
  have "take (p_num_resident p + 1) ?rs = resident p @ [?e]"
    unfolding resident_def using assms by (intro take_append_update) (simp add: rset_inv_def)
  then show ?thesis using assms by (intro that [OF _ refl, of ?rs])
      (simp_all add: add_resident_page_def Let_def rset_inv_def resident_def)
qed

lemma add_resident_page_Ret:
  assumes "rset_inv p" "add_resident_page p va d = Ret p'"
  shows "p_num_resident p < 256"
    and "\<exists>rs. p' = p\<lparr>p_pf_seq := p_pf_seq p + 1, p_resident_pages := rs, p_num_resident := p_num_resident p + 1\<rparr> \<and>
      length rs = 256"
    and "resident p' = resident p @ [\<lparr>rp_va = va, rp_seq = to_int (p_pf_seq p + 1), rp_is_dirty = d, rp_swap_slot = -1\<rparr>]"
proof -
  show lt: "p_num_resident p < 256"
    using assms(2) by (auto simp: add_resident_page_def Let_def split: if_splits)
  show "\<exists>rs. p' = p\<lparr>p_pf_seq := p_pf_seq p + 1, p_resident_pages := rs, p_num_resident := p_num_resident p + 1\<rparr> \<and>
      length rs = 256"
    and "resident p' = resident p @ [\<lparr>rp_va = va, rp_seq = to_int (p_pf_seq p + 1), rp_is_dirty = d, rp_swap_slot = -1\<rparr>]"
    by (rule add_resident_page_ok [OF assms(1) lt, of va d], use assms(2) in auto)+
qed

lemma remove_resident_from_spec:
  assumes "length (p_resident_pages p) = 256" "p_num_resident p \<le> 256" "i \<le> p_num_resident p"
    and "distinct (map rp_va (resident p))" "\<forall>j < i. rp_va (resident p ! j) \<noteq> va"
  shows "resident (remove_resident_from p va i) = filter (\<lambda>e. rp_va e \<noteq> va) (resident p) \<and>
    (\<exists>rs n. remove_resident_from p va i = p\<lparr>p_resident_pages := rs, p_num_resident := n\<rparr> \<and> length rs = 256 \<and>
       n \<le> p_num_resident p)"
  using assms
proof (induction p va i rule: remove_resident_from.induct)
  case (1 p va i)
  let ?n = "p_num_resident p"
  have len: "length (resident p) = ?n" using "1.prems" by (simp add: resident_def)
  show ?case
  proof (cases "i < ?n")
    case lt: True
    show ?thesis
    proof (cases "rp_va (p_resident_pages p ! i) = va")
      case True
      have "take (?n - 1) (shift_down (p_resident_pages p) i ?n) = filter (\<lambda>e. rp_va e \<noteq> va) (resident p)"
        using take_shift_filter [of i ?n "p_resident_pages p" rp_va] lt True "1.prems"(1,2,4) by (simp add: resident_def)
      then show ?thesis using lt True "1.prems"(1)
        by (subst (1 2) remove_resident_from.simps) (auto simp: resident_def
            intro!: exI [of _ "shift_down (p_resident_pages p) i ?n"] exI [of _ "?n - 1"])
    next
      case False
      have "\<forall>j < i + 1. rp_va (resident p ! j) \<noteq> va"
        using False lt "1.prems"(5) by (metis less_SucE Suc_eq_plus1 nth_resident)
      then show ?thesis
        using "1.IH" [OF lt False] lt False "1.prems" by (subst (1 2) remove_resident_from.simps) simp
    qed
  next
    case False
    have "filter (\<lambda>e. rp_va e \<noteq> va) (resident p) = resident p"
      using False "1.prems"(3,5) len by (intro filter_True) (auto simp: in_set_conv_nth)
    then show ?thesis using False "1.prems"(1)
      by (subst (1 2) remove_resident_from.simps) (auto intro!: exI [of _ "p_resident_pages p"] exI [of _ ?n])
  qed
qed

lemma remove_resident_page_spec:
  assumes "rset_inv p"
  shows "resident (remove_resident_page p va) = filter (\<lambda>e. rp_va e \<noteq> va) (resident p)"
    and "\<exists>rs n. remove_resident_page p va = p\<lparr>p_resident_pages := rs, p_num_resident := n\<rparr> \<and> length rs = 256 \<and>
       n \<le> p_num_resident p"
  using remove_resident_from_spec [of p 0 va] assms by (auto simp: remove_resident_page_def rset_inv_def)

lemma rset_inv_remove: "rset_inv p \<Longrightarrow> rset_inv (remove_resident_page p va)"
  using remove_resident_page_spec [of p va] unfolding rset_inv_def by (auto simp: distinct_map_filter)

lemma num_resident_remove:
  assumes "rset_inv p" "va \<in> rp_va ` set (resident p)"
  shows "p_num_resident (remove_resident_page p va) < p_num_resident p"
proof -
  have "length (filter (\<lambda>e. rp_va e \<noteq> va) (resident p)) < length (resident p)"
    using assms(2) by (auto intro: length_filter_less)
  then show ?thesis
    using remove_resident_page_spec(1) [OF assms(1)] length_resident [OF assms(1)]
      length_resident [OF rset_inv_remove [OF assms(1)]] by metis
qed

lemma rset_inv_add:
  assumes "rset_inv p" "add_resident_page p va d = Ret p'" "va \<notin> rp_va ` set (resident p)"
  shows "rset_inv p'"
  using add_resident_page_Ret [OF assms(1,2)] assms(1,3) by (auto simp: rset_inv_def)

subsection \<open>The victim\<close>

lemma find_victim_from_spec:
  assumes "oi < i" "i \<le> n" "os = rp_seq (rs ! oi)" "\<forall>j < i. os \<le> rp_seq (rs ! j)" "\<forall>j < oi. os < rp_seq (rs ! j)"
  shows "find_victim_from rs n i oi os < n \<and>
    (\<forall>j < n. rp_seq (rs ! find_victim_from rs n i oi os) \<le> rp_seq (rs ! j)) \<and>
    (\<forall>j < find_victim_from rs n i oi os. rp_seq (rs ! find_victim_from rs n i oi os) < rp_seq (rs ! j))"
  using assms
proof (induction rs n i oi os rule: find_victim_from.induct)
  case (1 rs n i oi os)
  show ?case
  proof (cases "i < n")
    case lt: True
    show ?thesis
    proof (cases "rp_seq (rs ! i) < os")
      case True
      have "\<forall>j < i + 1. rp_seq (rs ! i) \<le> rp_seq (rs ! j)" "\<forall>j < i. rp_seq (rs ! i) < rp_seq (rs ! j)"
        using True "1.prems"(4) by (force simp: less_Suc_eq)+
      then show ?thesis
        using "1.IH"(1) [OF lt True] lt True by (subst (1 2 3 4) find_victim_from.simps) simp
    next
      case False
      then have "\<forall>j < i + 1. os \<le> rp_seq (rs ! j)" using "1.prems"(4) by (auto simp: less_Suc_eq)
      then show ?thesis
        using "1.IH"(2) [OF lt False] "1.prems" lt False by (subst (1 2 3 4) find_victim_from.simps) simp
    qed
  next
    case False
    then show ?thesis using "1.prems" by (subst (1 2 3 4) find_victim_from.simps) auto
  qed
qed

lemma find_victim_page_spec:
  assumes "rset_inv p" "resident p \<noteq> []"
  obtains v where "find_victim_page p = int v" "v < length (resident p)"
    "\<And>e. e \<in> set (resident p) \<Longrightarrow> rp_seq (resident p ! v) \<le> rp_seq e"
    "\<And>j. j < v \<Longrightarrow> rp_seq (resident p ! v) < rp_seq (resident p ! j)"
proof -
  let ?rs = "p_resident_pages p" and ?n = "p_num_resident p"
  have n: "0 < ?n" "length (resident p) = ?n" using assms length_resident [of p] by (auto simp flip: length_greater_0_conv)
  define v where "v = find_victim_from ?rs ?n 1 0 (rp_seq (?rs ! 0))"
  have v: "v < ?n" "\<forall>j < ?n. rp_seq (?rs ! v) \<le> rp_seq (?rs ! j)" "\<forall>j < v. rp_seq (?rs ! v) < rp_seq (?rs ! j)"
    unfolding v_def using find_victim_from_spec [of 0 1 ?n "rp_seq (?rs ! 0)" ?rs] n by simp_all
  show ?thesis
  proof (rule that [of v])
    show "find_victim_page p = int v" using n(1) by (simp add: find_victim_page_def v_def)
    show "v < length (resident p)" using v(1) n(2) by simp
    show "rp_seq (resident p ! v) \<le> rp_seq e" if "e \<in> set (resident p)" for e
      using that v(1,2) n(2) nth_resident by (auto simp: in_set_conv_nth)
    show "rp_seq (resident p ! v) < rp_seq (resident p ! j)" if "j < v" for j
      using that v(1,3) nth_resident by simp
  qed
qed

lemma find_victim_page_empty: "rset_inv p \<Longrightarrow> resident p = [] \<Longrightarrow> find_victim_page p = -1"
  using length_resident [of p] by (simp add: find_victim_page_def)

lemma fifo_victim_first:
  assumes "rset_inv p" "fifo_inv p" "resident p \<noteq> []"
  shows "find_victim_page p = 0"
proof (rule find_victim_page_spec [OF assms(1,3)])
  fix v assume v: "find_victim_page p = int v" "v < length (resident p)"
    "\<And>e. e \<in> set (resident p) \<Longrightarrow> rp_seq (resident p ! v) \<le> rp_seq e"
  have "map rp_seq (resident p) ! 0 < map rp_seq (resident p) ! v" if "0 < v"
    using assms(2) v(2) that by (intro sorted_wrt_nth_less [of "(<)"]) (auto simp: fifo_inv_def)
  then have "\<not> 0 < v" using v(2) v(3) [of "resident p ! 0"] assms(3) by force
  then show ?thesis using v(1) by simp
qed

lemma fifo_inv_add:
  assumes "rset_inv p" "fifo_inv p" "add_resident_page p va d = Ret p'" "unat (p_pf_seq p) + 1 < 2 ^ 31"
  shows "fifo_inv p'"
proof -
  have u: "unat (p_pf_seq p + 1) = unat (p_pf_seq p) + 1"
    using assms(4) by (simp add: unat_word_ariths)
  then have "to_int (p_pf_seq p + 1) = int (unat (p_pf_seq p)) + 1"
    using assms(4) by (simp add: to_int_small)
  moreover have "p_pf_seq p' = p_pf_seq p + 1"
    and "resident p' = resident p @ [\<lparr>rp_va = va, rp_seq = to_int (p_pf_seq p + 1), rp_is_dirty = d, rp_swap_slot = -1\<rparr>]"
    using add_resident_page_Ret [OF assms(1,3)] by auto
  ultimately show ?thesis using assms(2,4) u
    by (auto simp: fifo_inv_def sorted_wrt_append)
qed

lemma fifo_inv_remove: "rset_inv p \<Longrightarrow> fifo_inv p \<Longrightarrow> fifo_inv (remove_resident_page p va)"
  using remove_resident_page_spec [of p va]
  by (auto simp: fifo_inv_def sorted_wrt_map intro: sorted_wrt_filter)

subsection \<open>The resident set implements the queue\<close>

text \<open>
  Making a page resident, and choosing and dropping the victim as the page-replacement
  branch of \<^verbatim>\<open>demand_page_load_new\<close> does.
\<close>

definition make_resident :: "proc \<Rightarrow> uint64 \<times> int \<Rightarrow> proc option" where
  "make_resident p x = (case add_resident_page p (fst x) (snd x) of Ret p' \<Rightarrow> Some p' | Panic e \<Rightarrow> None)"

definition drop_victim :: "proc \<Rightarrow> ((uint64 \<times> int) \<times> proc) option" where
  "drop_victim p =
     (let i = find_victim_page p in
      if i < 0 then None
      else let e = p_resident_pages p ! nat i
           in Some ((rp_va e, rp_is_dirty e), remove_resident_page p (rp_va e)))"

definition resident_queue :: "proc \<Rightarrow> (uint64 \<times> int) list" where
  "resident_queue p = map (\<lambda>e. (rp_va e, rp_is_dirty e)) (resident p)"

definition resident_room :: "proc \<Rightarrow> nat" where
  "resident_room p = min (256 - p_num_resident p) (2 ^ 31 - 1 - unat (p_pf_seq p))"

definition not_resident :: "proc \<Rightarrow> uint64 \<times> int \<Rightarrow> bool" where
  "not_resident p x \<longleftrightarrow> fst x \<notin> rp_va ` set (resident p)"

lemma make_resident_appends:
  assumes "rset_inv p" "fifo_inv p" "0 < resident_room p" "not_resident p x"
  shows "\<exists>p'. make_resident p x = Some p' \<and> (rset_inv p' \<and> fifo_inv p') \<and>
    resident_queue p' = resident_queue p @ [x] \<and> resident_room p' = resident_room p - 1"
proof -
  have lt: "p_num_resident p < 256" "unat (p_pf_seq p) + 1 < 2 ^ 31"
    using assms(3) by (auto simp: resident_room_def)
  obtain p' rs where p': "add_resident_page p (fst x) (snd x) = Ret p'"
      "p' = p\<lparr>p_pf_seq := p_pf_seq p + 1, p_resident_pages := rs, p_num_resident := p_num_resident p + 1\<rparr>"
    using add_resident_page_ok [OF assms(1) lt(1)] by metis
  have u: "unat (p_pf_seq p + 1) = unat (p_pf_seq p) + 1"
    using lt(2) by (simp add: unat_word_ariths)
  have "resident_queue p' = resident_queue p @ [x]"
    using add_resident_page_Ret(3) [OF assms(1) p'(1)] by (simp add: resident_queue_def)
  moreover have "resident_room p' = resident_room p - 1"
    using u by (simp add: resident_room_def p'(2))
  ultimately show ?thesis
    using rset_inv_add [OF assms(1) p'(1)] fifo_inv_add [OF assms(1,2) p'(1) lt(2)] assms(4) p'(1)
    by (auto simp: make_resident_def not_resident_def)
qed

lemma filter_other_pages:
  "distinct (map rp_va (e # es)) \<Longrightarrow> filter (\<lambda>x. rp_va x \<noteq> rp_va e) (e # es) = es"
  by (simp add: filter_id_conv) (metis imageI)

lemma drop_victim_first:
  assumes "rset_inv p" "fifo_inv p" "resident_queue p = x # xs"
  shows "\<exists>p'. drop_victim p = Some (x, p') \<and> (rset_inv p' \<and> fifo_inv p') \<and> resident_queue p' = xs"
proof -
  obtain e es where e: "resident p = e # es" "x = (rp_va e, rp_is_dirty e)"
      "xs = map (\<lambda>e. (rp_va e, rp_is_dirty e)) es"
    using assms(3) by (auto simp: resident_queue_def)
  have n: "0 < p_num_resident p" using e(1) length_resident [OF assms(1)] by auto
  have "p_resident_pages p ! 0 = e" using nth_resident [OF n] e(1) by simp
  moreover have "find_victim_page p = 0" using fifo_victim_first [OF assms(1,2)] e(1) by simp
  moreover have "resident (remove_resident_page p (rp_va e)) = es"
    using remove_resident_page_spec(1) [OF assms(1)] filter_other_pages [of e es] assms(1) e(1)
    by (simp add: rset_inv_def)
  ultimately show ?thesis
    using rset_inv_remove [OF assms(1)] fifo_inv_remove [OF assms(1,2)] e(2,3)
    by (simp add: drop_victim_def resident_queue_def)
qed

lemma not_resident_make:
  assumes "make_resident p x = Some p'" "not_resident p y" "fst y \<noteq> fst x" "rset_inv p"
  shows "not_resident p' y"
  using add_resident_page_Ret(3) [OF assms(4), of "fst x" "snd x" p'] assms
  by (auto simp: make_resident_def not_resident_def split: res.splits)

interpretation rset: fifo_buffer resident_queue make_resident drop_victim
  "\<lambda>p. rset_inv p \<and> fifo_inv p" resident_room not_resident "\<lambda>x y. fst x \<noteq> fst y"
proof
  show "\<exists>p'. make_resident p x = Some p' \<and> (rset_inv p' \<and> fifo_inv p') \<and>
      resident_queue p' = resident_queue p @ [x] \<and> resident_room p' = resident_room p - 1"
    if "rset_inv p \<and> fifo_inv p" "0 < resident_room p" "not_resident p x" for p x
    using make_resident_appends that by blast
  show "\<exists>p'. drop_victim p = Some (x, p') \<and> (rset_inv p' \<and> fifo_inv p') \<and> resident_queue p' = xs"
    if "rset_inv p \<and> fifo_inv p" "resident_queue p = x # xs" for p x xs
    using drop_victim_first that by blast
  show "drop_victim p = None" if "rset_inv p \<and> fifo_inv p" "resident_queue p = []" for p
    using that find_victim_page_empty [of p] by (simp add: drop_victim_def resident_queue_def)
  show "not_resident p' y"
    if "rset_inv p \<and> fifo_inv p" "make_resident p x = Some p'" "not_resident p y" "fst x \<noteq> fst y" for p p' x y
    using not_resident_make that by metis
qed

text \<open>Making pages resident in an order and evicting in a loop, as functions of the model.\<close>

primrec make_all_resident :: "proc \<Rightarrow> (uint64 \<times> int) list \<Rightarrow> proc option" where
  "make_all_resident p [] = Some p"
| "make_all_resident p (x # xs) =
     (case make_resident p x of None \<Rightarrow> None | Some p' \<Rightarrow> make_all_resident p' xs)"

primrec drop_victims :: "proc \<Rightarrow> nat \<Rightarrow> ((uint64 \<times> int) list \<times> proc) option" where
  "drop_victims p 0 = Some ([], p)"
| "drop_victims p (Suc n) = (case drop_victim p of None \<Rightarrow> None
     | Some (x, p') \<Rightarrow> (case drop_victims p' n of None \<Rightarrow> None | Some (xs, p'') \<Rightarrow> Some (x # xs, p'')))"

lemma make_all_resident_puts: "make_all_resident p xs = rset.puts p xs"
  by (induction xs arbitrary: p) (auto split: option.splits)

lemma drop_victims_gets: "drop_victims p n = rset.gets p n"
  by (induction n arbitrary: p) (auto split: option.splits)

text \<open>
  C6: page replacement is first-in first-out.  Pages made resident one after the other, on
  top of whatever is resident already, are chosen as victims in the order of the queue: the
  old residents first, then the new pages in the order they became resident.  It needs the
  256 entries of the array and sequence numbers below \<^verbatim>\<open>2\<^sup>3\<^sup>1\<close>, where the \<^verbatim>\<open>int\<close> copies do not wrap.
\<close>

theorem replacement_is_fifo:
  assumes "rset_inv p" "fifo_inv p"
    and "p_num_resident p + length xs \<le> 256" "unat (p_pf_seq p) + length xs < 2 ^ 31"
    and "distinct (map fst xs)" "fst ` set xs \<inter> rp_va ` set (resident p) = {}"
  shows "\<exists>p' p''. make_all_resident p xs = Some p' \<and>
    drop_victims p' (p_num_resident p + length xs) = Some (resident_queue p @ xs, p'') \<and> resident p'' = []"
proof -
  have ind: "sorted_wrt (\<lambda>x y. fst x \<noteq> fst y) xs" using assms(5) by (induction xs) auto
  have rm: "length xs \<le> resident_room p" using assms(3,4) unfolding resident_room_def by linarith
  have fr: "not_resident p x" if "x \<in> set xs" for x using that assms(6) by (auto simp: not_resident_def)
  obtain p' where p': "make_all_resident p xs = Some p'" "rset_inv p' \<and> fifo_inv p'"
      "resident_queue p' = (resident_queue p @ xs) @ []"
    using rset.puts_append [of p xs] assms(1,2) rm ind fr by (auto simp: make_all_resident_puts)
  have "length (resident_queue p @ xs) = p_num_resident p + length xs"
    using length_resident [OF assms(1)] by (simp add: resident_queue_def)
  then show ?thesis
    using rset.gets_prefix [OF p'(2,3)] p'(1) by (auto simp: drop_victims_gets resident_queue_def)
qed

text \<open>A process whose exec'ed stack page is resident, used by the witnesses.\<close>

definition demo_proc :: proc where
  "demo_proc = \<lparr>p_state = RUNNING, p_chan = 0, p_killed = 0, p_xstate = 0, p_pid = 3, p_parent = Some 1,
     p_kstack = 0x3fffff9000, p_sz = 0x6000, p_pagetable = 0x80104000, p_trapframe = 0x80110000,
     p_ofile = replicate 16 None, p_cwd = Some 1, p_name = ''sh'',
     p_lazy_segs = replicate 16 \<lparr>seg_vaddr = 0, seg_filesz = 0x1200, seg_memsz = 0x2000, seg_fileoff = 0x1000, seg_flags = 5, seg_ip = 7\<rparr>,
     p_lazy_nseg = 1, p_lazy_heap_start = 0x4000, p_lazy_stack_top = 0x4000, p_lazy_max_addr = 0x4000,
     p_pf_seq = 2, p_text_start = 0, p_text_end = 0x2000, p_data_start = 0, p_data_end = 0,
     p_resident_pages = replicate 256 \<lparr>rp_va = 0x3000, rp_seq = 2, rp_is_dirty = 1, rp_swap_slot = -1\<rparr>,
     p_num_resident = 1,
     p_swapped_pages = replicate 8 \<lparr>sp_va = 0, sp_slot = 0, sp_data = replicate 4096 0\<rparr>, p_num_swapped = 0,
     p_swap_filename = replicate 16 (CHR 0x00), p_swap_slots = replicate 1024 0\<rparr>"

lemma demo_resident: "resident demo_proc = [\<lparr>rp_va = 0x3000, rp_seq = 2, rp_is_dirty = 1, rp_swap_slot = -1\<rparr>]"
  by (simp add: resident_def demo_proc_def)

lemma demo_fields [simp]: "p_num_resident demo_proc = 1" "p_pf_seq demo_proc = 2"
  "length (p_resident_pages demo_proc) = 256"
  by (simp_all add: demo_proc_def)

lemma demo_rset: "rset_inv demo_proc" "fifo_inv demo_proc"
  by (simp_all add: rset_inv_def fifo_inv_def demo_resident)

theorem replacement_is_fifo_witness:
  "\<exists>p' p''. make_all_resident demo_proc [(0x1000, 0), (0x5000, 1)] = Some p' \<and>
    drop_victims p' 3 = Some ([(0x3000, 1), (0x1000, 0), (0x5000, 1)], p'') \<and> resident p'' = []"
  using replacement_is_fifo [OF demo_rset, of "[(0x1000, 0), (0x5000, 1)]"]
  by (simp add: demo_resident resident_queue_def numeral_3_eq_3 del: make_all_resident.simps drop_victims.simps)

end
