(* ===== verification/Demand_Paging.thy ===== *)
theory Demand_Paging
  imports Resident_Set
begin

text \<open>
  The page-fault handler \<^verbatim>\<open>demand_page_load_new\<close> of \<^verbatim>\<open>vm.c\<close> with page replacement and swapping,
  \<^verbatim>\<open>growproc\<close> and \<^verbatim>\<open>vmfault\<close>.  The file contents a segment is loaded from are the argument
  \<open>rd\<close>: \<open>rd ip off n\<close> is the list of bytes \<^verbatim>\<open>readi\<close> copies, at most \<open>n\<close> of them.  A result
  \<open>(r, s, p)\<close> is the C return value with the machine and the current process afterwards.
\<close>

section \<open>The definitions\<close>

type_synonym file_reader = "nat \<Rightarrow> uint32 \<Rightarrow> uint32 \<Rightarrow> uint8 list"

definition USERSTACK :: uint64 where
  "USERSTACK = 1"

definition MAX_RESIDENT_PAGES :: nat where
  "MAX_RESIDENT_PAGES = 40"

definition flags2perm :: "uint32 \<Rightarrow> uint64" where
  "flags2perm flags =
     (let perm = (if flags AND 1 \<noteq> 0 then PTE_X else 0)
      in if flags AND 2 \<noteq> 0 then perm OR PTE_W else perm)"

definition vmfault :: "'a kmem_scheme \<Rightarrow> proc \<Rightarrow> uint64 \<Rightarrow> uint64 \<Rightarrow> (uint64 \<times> 'a kmem_scheme) res" where
  "vmfault s p pagetable va0 =
     (if va0 \<ge> p_sz p then Ret (0, s)
      else let va = PGROUNDDOWN va0 in
        rbind (ismapped s pagetable va) (\<lambda>m.
          if m then Ret (0, s)
          else case kalloc s of (frame, s1) \<Rightarrow>
            if frame = 0 then Ret (0, s1)
            else let s2 = s1\<lparr>mem := memset (mem s1) frame 0 4096\<rparr> in
              rbind (mappages s2 (p_pagetable p) va PGSIZE frame (PTE_W OR PTE_U OR PTE_R)) (\<lambda>(r, s3).
                if r \<noteq> 0 then rbind (kfree s3 frame) (\<lambda>s4. Ret (0, s4))
                else Ret (frame, s3))))"

function lazy_seg_from :: "proc \<Rightarrow> uint64 \<Rightarrow> nat \<Rightarrow> int" where
  "lazy_seg_from p va i =
     (if i < p_lazy_nseg p then
        let st = seg_vaddr (p_lazy_segs p ! i); e = st + seg_memsz (p_lazy_segs p ! i)
        in if va \<ge> st \<and> va < e then int i else lazy_seg_from p va (i + 1)
      else -1)"
  by pat_completeness auto
termination
  by (relation "measure (\<lambda>(p, va, i). p_lazy_nseg p - i)") auto

declare lazy_seg_from.simps [simp del]

definition lazy_seg_find :: "proc \<Rightarrow> uint64 \<Rightarrow> int" where
  "lazy_seg_find p va = lazy_seg_from p va 0"

text \<open>The write to a mapped page marks its resident entry dirty.\<close>

function mark_dirty_from :: "proc \<Rightarrow> uint64 \<Rightarrow> nat \<Rightarrow> proc" where
  "mark_dirty_from p a i =
     (if i < p_num_resident p then
        if rp_va (p_resident_pages p ! i) = a
        then p\<lparr>p_resident_pages := (p_resident_pages p)[i := (p_resident_pages p ! i)\<lparr>rp_is_dirty := 1\<rparr>]\<rparr>
        else mark_dirty_from p a (i + 1)
      else p)"
  by pat_completeness auto
termination
  by (relation "measure (\<lambda>(p, a, i). p_num_resident p - i)") auto

declare mark_dirty_from.simps [simp del]

function swap_slot_from :: "proc \<Rightarrow> uint64 \<Rightarrow> nat \<Rightarrow> int" where
  "swap_slot_from p a i =
     (if i < p_num_swapped p then
        if sp_va (p_swapped_pages p ! i) = a then sp_slot (p_swapped_pages p ! i)
        else swap_slot_from p a (i + 1)
      else -1)"
  by pat_completeness auto
termination
  by (relation "measure (\<lambda>(p, a, i). p_num_swapped p - i)") auto

declare swap_slot_from.simps [simp del]

definition access_type :: "bool \<Rightarrow> bool \<Rightarrow> string" where
  "access_type is_write is_exec =
     (if is_exec then ''exec'' else if is_write then ''write'' else ''read'')"

definition in_heap :: "proc \<Rightarrow> uint64 \<Rightarrow> bool" where
  "in_heap p a \<longleftrightarrow> a \<ge> PGROUNDDOWN (p_lazy_heap_start p) \<and> a < p_sz p"

definition in_stack :: "proc \<Rightarrow> uint64 \<Rightarrow> bool" where
  "in_stack p a \<longleftrightarrow> a < p_sz p \<and> a \<ge> PGROUNDDOWN (p_sz p - USERSTACK * PGSIZE)"

definition fault_cause :: "proc \<Rightarrow> uint64 \<Rightarrow> int \<Rightarrow> int \<Rightarrow> string" where
  "fault_cause p a swap_slot si =
     (if swap_slot \<ge> 0 then ''swap''
      else if si \<ge> 0 then ''exec''
      else if in_heap p a then ''heap''
      else if in_stack p a then ''stack'' else ''unknown'')"

definition is_valid_fault :: "proc \<Rightarrow> uint64 \<Rightarrow> int \<Rightarrow> int \<Rightarrow> bool" where
  "is_valid_fault p a swap_slot si \<longleftrightarrow> si \<ge> 0 \<or> in_heap p a \<or> swap_slot \<ge> 0 \<or> in_stack p a"

text \<open>
  Page replacement, in the three parts of the \<^verbatim>\<open>if (!mem)\<close> block: writing a dirty victim to
  swap (the flag is false when the handler gives up), freeing its frame, and the block as a
  whole, whose frame 0 stands for the returns of \<^verbatim>\<open>-1\<close>.
\<close>

definition save_victim ::
  "'a machine_scheme \<Rightarrow> proc \<Rightarrow> uint64 \<Rightarrow> bool \<Rightarrow> (bool \<times> 'a machine_scheme \<times> proc) res" where
  "save_victim s p victim_va victim_dirty =
     (let gives_up = (\<lambda>s. kprintf (kprintf s (SWAPFULL (p_pid p))) (KILL (p_pid p) ''swap-exhausted'')) in
      if victim_dirty then
        (case find_free_swap_slot p of (slt, p1) \<Rightarrow>
           if slt < 0 then Ret (False, gives_up s, p1)
           else rbind (swap_out_page s p1 victim_va slt) (\<lambda>(r, s2, p2).
             if r < 0 then Ret (False, gives_up s2, p2) else Ret (True, s2, p2)))
      else Ret (True, kprintf s (DISCARD (p_pid p) victim_va), p))"

definition free_victim :: "'a machine_scheme \<Rightarrow> proc \<Rightarrow> uint64 \<Rightarrow> 'a machine_scheme res" where
  "free_victim s p victim_va =
     rbind (walk s (p_pagetable p) victim_va False) (\<lambda>(victim_pte, s1).
       if victim_pte \<noteq> 0 \<and> load64 (mem s1) victim_pte AND PTE_V \<noteq> 0 then
         rbind (kfree s1 (PTE2PA (load64 (mem s1) victim_pte))) (\<lambda>s2.
           Ret (s2\<lparr>mem := store64 (mem s2) victim_pte 0\<rparr>))
       else Ret s1)"

definition replace_page :: "'a machine_scheme \<Rightarrow> proc \<Rightarrow> (uint64 \<times> 'a machine_scheme \<times> proc) res" where
  "replace_page s p =
     (let s1 = kprintf s (MEMFULL (p_pid p)); victim_idx = find_victim_page p in
      if victim_idx < 0 then Ret (0, kprintf s1 (KILL (p_pid p) ''no-resident-pages''), p)
      else let v = p_resident_pages p ! nat victim_idx;
               s2 = kprintf s1 (VICTIM (p_pid p) (rp_va v) (rp_seq v));
               s3 = kprintf s2 (EVICT (p_pid p) (rp_va v) (if rp_is_dirty v \<noteq> 0 then ''dirty'' else ''clean''))
           in rbind (save_victim s3 p (rp_va v) (rp_is_dirty v \<noteq> 0)) (\<lambda>(ok, s4, p4).
                if \<not> ok then Ret (0, s4, p4)
                else rbind (free_victim s4 p4 (rp_va v)) (\<lambda>s5.
                  let p5 = remove_resident_page p4 (rp_va v) in
                  case kalloc s5 of (frame, s6) \<Rightarrow>
                    if frame = 0 then Ret (0, kprintf s6 (KILL (p_pid p) ''allocation-failed''), p5)
                    else Ret (frame, s6, p5))))"

definition get_frame :: "'a machine_scheme \<Rightarrow> proc \<Rightarrow> (uint64 \<times> 'a machine_scheme \<times> proc) res" where
  "get_frame s p =
     (case (if p_num_resident p \<ge> MAX_RESIDENT_PAGES then (0, s) else kalloc s) of (frame, s1) \<Rightarrow>
        if frame = 0 then replace_page s1 p else Ret (frame, s1, p))"

text \<open>
  Filling the frame.  The permission \<open>None\<close> stands for the early return after the frame has
  been given back.
\<close>

definition load_segment :: "file_reader \<Rightarrow> 'a machine_scheme \<Rightarrow> lazy_seg \<Rightarrow> uint64 \<Rightarrow> uint64 \<Rightarrow> bool \<times> 'a machine_scheme" where
  "load_segment rd s seg a frame =
     (let page_offset_in_seg = a - seg_vaddr seg; file_read_start = seg_fileoff seg + page_offset_in_seg in
      if page_offset_in_seg < seg_filesz seg then
        let left = seg_filesz seg - page_offset_in_seg;
            toread = (if left > PGSIZE then PGSIZE else left);
            bs = rd (seg_ip seg) (ucast file_read_start) (ucast toread)
        in (of_nat (length bs) = toread, s\<lparr>mem := store_bytes (mem s) frame bs\<rparr>)
      else (True, s))"

definition fill_frame ::
  "file_reader \<Rightarrow> 'a machine_scheme \<Rightarrow> proc \<Rightarrow> uint64 \<Rightarrow> int \<Rightarrow> int \<Rightarrow> uint64 \<Rightarrow>
    (uint64 option \<times> 'a machine_scheme \<times> proc) res" where
  "fill_frame rd s p a swap_slot si frame =
     (if swap_slot \<ge> 0 then
        (case swap_in_page s p a swap_slot frame of (r, s1, p1) \<Rightarrow>
           if r < 0 then rbind (kfree s1 frame) (\<lambda>s2. Ret (None, s2, p1))
           else Ret (Some (PTE_U OR (PTE_R OR PTE_W OR PTE_X)), kprintf s1 (SWAPIN (p_pid p) a swap_slot), p1))
      else if si \<ge> 0 then
        let seg = p_lazy_segs p ! nat si in
        (case load_segment rd s seg a frame of (ok, s1) \<Rightarrow>
           if \<not> ok then rbind (kfree s1 frame) (\<lambda>s2. Ret (None, s2, p))
           else Ret (Some (PTE_U OR (PTE_R OR flags2perm (seg_flags seg))), kprintf s1 (LOADEXEC (p_pid p) a), p))
      else Ret (Some (PTE_U OR (PTE_R OR PTE_W OR PTE_X)), kprintf s (ALLOC (p_pid p) a), p))"

definition load_new_page ::
  "file_reader \<Rightarrow> 'a machine_scheme \<Rightarrow> proc \<Rightarrow> uint64 \<Rightarrow> bool \<Rightarrow> int \<Rightarrow> int \<Rightarrow> (int \<times> 'a machine_scheme \<times> proc) res" where
  "load_new_page rd s p a is_write swap_slot si =
     rbind (get_frame s p) (\<lambda>(frame, s1, p1).
       if frame = 0 then Ret (-1, s1, p1)
       else rbind (fill_frame rd (s1\<lparr>mem := memset (mem s1) frame 0 4096\<rparr>) p1 a swap_slot si frame) (\<lambda>(perm, s2, p2).
         case perm of
           None \<Rightarrow> Ret (-1, s2, p2)
         | Some pm \<Rightarrow>
             rbind (mappages s2 (p_pagetable p2) a PGSIZE frame pm) (\<lambda>(r, s3).
               if r \<noteq> 0 then rbind (kfree s3 frame) (\<lambda>s4. Ret (-1, s4, p2))
               else rbind (add_resident_page p2 a (if is_write then 1 else 0)) (\<lambda>p3.
                 Ret (0, kprintf s3 (RESIDENT (p_pid p3) a (p_pf_seq p3)), p3)))))"

definition demand_page_load_new ::
  "file_reader \<Rightarrow> 'a machine_scheme \<Rightarrow> proc \<Rightarrow> uint64 \<Rightarrow> bool \<Rightarrow> bool \<Rightarrow> (int \<times> 'a machine_scheme \<times> proc) res" where
  "demand_page_load_new rd s p va is_write is_exec =
     (if va \<ge> MAXVA then Ret (-1, s, p)
      else let a = PGROUNDDOWN va in
        rbind (walk s (p_pagetable p) a False) (\<lambda>(pte, s1).
          if pte \<noteq> 0 \<and> load64 (mem s1) pte AND PTE_V \<noteq> 0 then
            if is_write then
              if load64 (mem s1) pte AND PTE_W = 0 then Ret (-1, s1, p)
              else Ret (0, s1, mark_dirty_from p a 0)
            else Ret (0, s1, p)
          else
            let swap_slot = swap_slot_from p a 0;
                si = (if swap_slot < 0 then lazy_seg_find p va else -1);
                s2 = kprintf s1 (PAGEFAULT (p_pid p) va (access_type is_write is_exec) (fault_cause p a swap_slot si))
            in if \<not> is_valid_fault p a swap_slot si
               then Ret (-1, kprintf s2 (INVALID_ACCESS (p_pid p) va (access_type is_write is_exec)), p)
               else load_new_page rd s2 p a is_write swap_slot si))"

text \<open>
  \<^verbatim>\<open>growproc\<close>: growing only moves \<^verbatim>\<open>sz\<close>; shrinking drops the resident entries of the range,
  rechecking an index after a removal, and frees its pages.
\<close>

function drop_resident_range :: "proc \<Rightarrow> uint64 \<Rightarrow> uint64 \<Rightarrow> nat \<Rightarrow> proc" where
  "drop_resident_range p newsz oldsz i =
     (if i < p_num_resident p then
        if rp_va (p_resident_pages p ! i) \<ge> newsz \<and> rp_va (p_resident_pages p ! i) < oldsz
        then drop_resident_range
          (p\<lparr>p_resident_pages := shift_down (p_resident_pages p) i (p_num_resident p),
             p_num_resident := p_num_resident p - 1\<rparr>) newsz oldsz i
        else drop_resident_range p newsz oldsz (i + 1)
      else p)"
  by pat_completeness auto
termination
  by (relation "measure (\<lambda>(p, newsz, oldsz, i). p_num_resident p - i)") auto

declare drop_resident_range.simps [simp del]

definition growproc :: "'a kmem_scheme \<Rightarrow> proc \<Rightarrow> int \<Rightarrow> (int \<times> 'a kmem_scheme \<times> proc) res" where
  "growproc s p n =
     (if n > 0 then
        if p_sz p + of_int n > 100 * 1024 * 1024 then Ret (-1, s, p)
        else Ret (0, s, p\<lparr>p_sz := p_sz p + of_int n\<rparr>)
      else if n < 0 then
        let newsz = p_sz p + of_int n in
        if newsz < p_lazy_heap_start p then Ret (-1, s, p)
        else let p1 = drop_resident_range p newsz (p_sz p) 0 in
          rbind (uvmdealloc s (p_pagetable p1) (p_sz p) newsz) (\<lambda>(sz1, s1). Ret (0, s1, p1\<lparr>p_sz := sz1\<rparr>))
      else Ret (0, s, p))"

end
