(* ===== verification/Swap_Area.thy ===== *)
theory Swap_Area
  imports Demand_Paging
begin

text \<open>
  The swap area of a process: byte blocks between frames and the descriptor, the slots and
  the list of swapped pages, and the round trip of a page through swap.
\<close>

section \<open>Byte blocks\<close>

lemma length_load_bytes [simp]: "length (load_bytes m a n) = n"
  by (simp add: load_bytes_def)

lemma nth_load_bytes [simp]: "i < n \<Longrightarrow> load_bytes m a n ! i = m (a + of_nat i)"
  by (simp add: load_bytes_def)

lemma store_bytes_closed:
  "length bs \<le> 2 ^ 64 \<Longrightarrow>
    store_bytes m a bs x = (if unat (x - a) < length bs then bs ! unat (x - a) else m x)"
proof (induction bs arbitrary: m a)
  case (Cons b bs)
  show ?case
  proof (cases "x = a")
    case True
    have "unat (x - (a + 1)) = 2 ^ 64 - 1" using True by (simp add: unsigned_minus_1_eq_mask mask_eq_exp_minus_1)
    then show ?thesis using True Cons by simp
  next
    case False
    then have "x - a \<noteq> 0" by simp
    then have "unat (x - a) = Suc (unat (x - (a + 1)))"
      using unat_gt_0 [of "x - a"] unat_minus_one [of "x - a"] by (simp add: diff_diff_eq)
    then show ?thesis using False Cons by auto
  qed
qed simp

lemma unat_page_offset [simp]: "i < 4096 \<Longrightarrow> unat (of_nat i :: uint64) = i"
  by (simp add: unat_of_nat)

lemma page_of_offset: "aligned 12 p \<Longrightarrow> i < 4096 \<Longrightarrow> PGROUNDDOWN (p + of_nat i) = p"
  using in_page_iff [of p "p + of_nat i"] by (simp add: word_less_nat_alt)

lemma load_store_bytes:
  assumes "length bs \<le> 4096"
  shows "load_bytes (store_bytes m a bs) a 4096 = bs @ drop (length bs) (load_bytes m a 4096)"
  by (rule nth_equalityI) (use assms in \<open>auto simp: store_bytes_closed nth_append\<close>)

lemma load_bytes_same_page:
  assumes "same_page m m' p" "aligned 12 p"
  shows "load_bytes m' p 4096 = load_bytes m p 4096"
  by (rule nth_equalityI) (use assms page_of_offset in \<open>auto simp: same_page_def\<close>)

lemma same_page_store_bytes [frame_intros]:
  assumes "aligned 12 p" "length bs \<le> 4096" "q \<noteq> p"
  shows "same_page m (store_bytes m p bs) q"
  unfolding same_page_def
proof (intro allI impI)
  fix x assume "PGROUNDDOWN x = q"
  then have "\<not> x - p < 4096" using in_page_iff [OF assms(1)] assms(3) by simp
  then have "4096 \<le> unat (x - p)" by (simp add: word_less_nat_alt)
  then show "store_bytes m p bs x = m x" using assms(2) by (simp add: store_bytes_closed)
qed

lemma load_bytes_memset: "aligned 12 p \<Longrightarrow> load_bytes (memset m p c 4096) p 4096 = replicate 4096 c"
  by (intro nth_equalityI) (auto simp: memset_page page_of_offset)

section \<open>Slots and swapped pages\<close>

definition swap_inv :: "proc \<Rightarrow> bool" where
  "swap_inv p \<longleftrightarrow> length (p_swapped_pages p) = 8 \<and> p_num_swapped p \<le> 8 \<and> length (p_swap_slots p) = 1024 \<and>
     distinct (map sp_va (swapped p)) \<and> distinct (map sp_slot (swapped p)) \<and>
     (\<forall>e \<in> set (swapped p). 0 \<le> sp_slot e \<and> sp_slot e < 1024 \<and> p_swap_slots p ! nat (sp_slot e) = 1 \<and>
        length (sp_data e) = 4096)"

lemma length_swapped: "swap_inv p \<Longrightarrow> length (swapped p) = p_num_swapped p"
  by (simp add: swap_inv_def swapped_def)

lemma find_free_from_spec:
  "find_free_from slots i = -1 \<and> (\<forall>j. i \<le> j \<and> j < 1024 \<longrightarrow> slots ! j \<noteq> 0) \<or>
   (\<exists>k. find_free_from slots i = int k \<and> i \<le> k \<and> k < 1024 \<and> slots ! k = 0)"
proof (induction slots i rule: find_free_from.induct)
  case (1 slots i)
  show ?case
  proof (cases "i < 1024 \<and> slots ! i \<noteq> 0")
    case True
    then have "find_free_from slots i = find_free_from slots (i + 1)" by (subst find_free_from.simps) simp
    then show ?thesis using 1 True by (metis Suc_eq_plus1 Suc_leD Suc_leI le_neq_implies_less)
  next
    case False
    then show ?thesis by (subst (1 2) find_free_from.simps) auto
  qed
qed

lemma find_free_swap_slot_cases:
  obtains (full) "find_free_swap_slot p = (-1, p)" "\<forall>j < 1024. p_swap_slots p ! j \<noteq> 0"
  | (slot) k where "find_free_swap_slot p = (int k, p\<lparr>p_swap_slots := (p_swap_slots p)[k := 1]\<rparr>)"
      "k < 1024" "p_swap_slots p ! k = 0"
  using find_free_from_spec [of "p_swap_slots p" 0] by (force simp: find_free_swap_slot_def)

lemma find_swapped_spec:
  assumes "i \<le> j" "j < p_num_swapped p" "sp_va (p_swapped_pages p ! j) = va" "sp_slot (p_swapped_pages p ! j) = slt"
    and "\<And>k. i \<le> k \<Longrightarrow> k < j \<Longrightarrow> sp_va (p_swapped_pages p ! k) \<noteq> va"
  shows "find_swapped p va slt i = int j"
  using assms
proof (induction p va slt i rule: find_swapped.induct)
  case (1 p va slt i)
  show ?case
  proof (cases "i = j")
    case True
    then show ?thesis using "1.prems" by (subst find_swapped.simps) simp
  next
    case False
    then have i: "i < p_num_swapped p" "i + 1 \<le> j" "sp_va (p_swapped_pages p ! i) \<noteq> va" using "1.prems" by auto
    then have "find_swapped p va slt i = find_swapped p va slt (i + 1)" by (subst find_swapped.simps) simp
    then show ?thesis using "1.IH" i "1.prems" by simp
  qed
qed

lemma swap_slot_from_spec:
  assumes "i \<le> p_num_swapped p" "p_num_swapped p \<le> length (p_swapped_pages p)"
  shows "swap_slot_from p a i = (case find (\<lambda>e. sp_va e = a) (drop i (swapped p)) of None \<Rightarrow> -1 | Some e \<Rightarrow> sp_slot e)"
  using assms
proof (induction p a i rule: swap_slot_from.induct)
  case (1 p a i)
  show ?case
  proof (cases "i < p_num_swapped p")
    case True
    have "drop i (swapped p) = p_swapped_pages p ! i # drop (i + 1) (swapped p)"
      using True "1.prems"(2) by (simp add: swapped_def Cons_nth_drop_Suc [symmetric])
    then show ?thesis using 1 True by (subst swap_slot_from.simps) auto
  next
    case False
    then show ?thesis using "1.prems" by (subst swap_slot_from.simps) (simp add: swapped_def)
  qed
qed

lemma swap_slot_cases:
  assumes "swap_inv p"
  obtains (none) "swap_slot_from p a 0 = -1" "a \<notin> sp_va ` set (swapped p)"
  | (some) e where "e \<in> set (swapped p)" "sp_va e = a" "swap_slot_from p a 0 = sp_slot e" "0 \<le> sp_slot e"
proof (cases "find (\<lambda>e. sp_va e = a) (swapped p)")
  case None
  moreover have "a \<notin> sp_va ` set (swapped p)" using None by (auto simp: find_None_iff)
  ultimately show ?thesis using none swap_slot_from_spec [of 0 p a] assms by (simp add: swap_inv_def)
next
  case (Some e)
  then have "e \<in> set (swapped p)" "sp_va e = a" by (auto simp: find_Some_iff)
  moreover have "swap_slot_from p a 0 = sp_slot e"
    using Some swap_slot_from_spec [of 0 p a] assms by (simp add: swap_inv_def)
  ultimately show ?thesis using some assms by (auto simp: swap_inv_def)
qed

lemma find_swapped_entry:
  assumes "swap_inv p" "e \<in> set (swapped p)"
  obtains j where "find_swapped p (sp_va e) (sp_slot e) 0 = int j" "j < p_num_swapped p"
    "p_swapped_pages p ! j = e"
proof -
  obtain j where j: "j < p_num_swapped p" "p_swapped_pages p ! j = e"
    using assms length_swapped by (force simp: in_set_conv_nth swapped_def)
  have "sp_va (p_swapped_pages p ! k) \<noteq> sp_va e" if "k < j" for k
  proof -
    have "map sp_va (swapped p) ! k \<noteq> map sp_va (swapped p) ! j"
      using assms(1) that j(1) length_swapped [OF assms(1)]
      by (subst nth_eq_iff_index_eq) (auto simp: swap_inv_def)
    then show ?thesis using that j assms(1) by (simp add: swapped_def swap_inv_def)
  qed
  then show ?thesis using find_swapped_spec [of 0 j p] j that by simp
qed

text \<open>Bringing a swapped page back.\<close>

lemma swap_in_page_spec:
  assumes "swap_inv p" "e \<in> set (swapped p)"
  obtains p' where "swap_in_page s p (sp_va e) (sp_slot e) frame =
      (0, s\<lparr>mem := store_bytes (mem s) frame (sp_data e)\<rparr>, p')"
    "swap_inv p'" "swapped p' = filter (\<lambda>x. sp_va x \<noteq> sp_va e) (swapped p)"
    "\<exists>sps n sl. p' = p\<lparr>p_swapped_pages := sps, p_num_swapped := n, p_swap_slots := sl\<rparr>"
proof -
  obtain j where j: "find_swapped p (sp_va e) (sp_slot e) 0 = int j" "j < p_num_swapped p" "p_swapped_pages p ! j = e"
    by (rule find_swapped_entry [OF assms])
  define p' where "p' = p\<lparr>p_swapped_pages := shift_down (p_swapped_pages p) j (p_num_swapped p),
    p_num_swapped := p_num_swapped p - 1, p_swap_slots := (p_swap_slots p)[nat (sp_slot e) := 0]\<rparr>"
  have D: "length (p_swapped_pages p) = 8" "p_num_swapped p \<le> 8" "distinct (map sp_va (swapped p))"
    "distinct (map sp_slot (swapped p))" using assms(1) by (simp_all add: swap_inv_def)
  have sw: "swapped p' = filter (\<lambda>x. sp_va x \<noteq> sp_va e) (swapped p)"
    using take_shift_filter [of j "p_num_swapped p" "p_swapped_pages p" sp_va] j(2,3) D by (simp add: p'_def swapped_def)
  moreover have "swap_inv p'"
  proof -
    have "nat (sp_slot e) \<noteq> nat (sp_slot x)" if "x \<in> set (swapped p)" "sp_va x \<noteq> sp_va e" for x
      using that assms D(4) by (auto simp: distinct_map inj_on_def swap_inv_def) (metis eq_nat_nat_iff)
    then show ?thesis
      using assms D unfolding swap_inv_def sw by (auto simp: p'_def distinct_map_filter)
  qed
  moreover have "swap_in_page s p (sp_va e) (sp_slot e) frame = (0, s\<lparr>mem := store_bytes (mem s) frame (sp_data e)\<rparr>, p')"
    using j by (simp add: swap_in_page_def p'_def)
  moreover have "\<exists>sps n sl. p' = p\<lparr>p_swapped_pages := sps, p_num_swapped := n, p_swap_slots := sl\<rparr>"
    unfolding p'_def by blast
  ultimately show ?thesis using that by blast
qed

text \<open>Writing a user page to swap, into a slot that was just marked used.\<close>

lemma swap_inv_slots:
  "swap_inv p \<Longrightarrow> k < 1024 \<Longrightarrow> swap_inv (p\<lparr>p_swap_slots := (p_swap_slots p)[k := 1]\<rparr>)"
  unfolding swap_inv_def swapped_def by (auto simp: nth_list_update)

lemma swapped_slots [simp]: "swapped (p\<lparr>p_swap_slots := sl\<rparr>) = swapped p"
  by (simp add: swapped_def)

lemma swap_inv_add:
  assumes "swap_inv p" "p_num_swapped p < 8" "va \<notin> sp_va ` set (swapped p)" "k < 1024" "p_swap_slots p ! k = 0"
    and e: "e = \<lparr>sp_va = va, sp_slot = int k, sp_data = bs\<rparr>" "length bs = 4096"
    and p': "p' = p\<lparr>p_swap_slots := (p_swap_slots p)[k := 1],
      p_swapped_pages := (p_swapped_pages p)[p_num_swapped p := e], p_num_swapped := p_num_swapped p + 1\<rparr>"
  shows "swap_inv p'" "swapped p' = swapped p @ [e]"
proof -
  have "take (p_num_swapped p + 1) ((p_swapped_pages p)[p_num_swapped p := e]) = swapped p @ [e]"
    unfolding swapped_def using assms(1,2) by (intro take_append_update) (simp add: swap_inv_def)
  then show sw: "swapped p' = swapped p @ [e]" unfolding p' swapped_def by simp
  have "int k \<notin> sp_slot ` set (swapped p)" using assms(1,5) unfolding swap_inv_def by (metis imageE nat_int zero_neq_one)
  then show "swap_inv p'"
    using assms(1-5) e unfolding swap_inv_def sw by (auto simp: p' nth_list_update)
qed

lemma walk_user_page:
  assumes "as_inv s fl root" "va < MAXVA" "user_pte (pte_of (mem s) root va)"
  obtains u where "node (mem s) root (vpath 2 va) = Some u" "slot u (PX 0 va) \<noteq> 0"
    "walk s root va False = Ret (slot u (PX 0 va), s)" "load64 (mem s) (slot u (PX 0 va)) = pte_of (mem s) root va"
proof -
  obtain u where u: "node (mem s) root (vpath 2 va) = Some u"
    using assms(3) by (auto simp: user_pte_def pte_of_def split: option.splits)
  then show ?thesis
    using that [OF u] node_nonnull [OF as_invD(2) [OF assms(1)] u] walk_noalloc [OF assms(2), of s root]
    by (simp add: pte_of_def)
qed

text \<open>No room in swap: every slot is used, or all eight page buffers are.\<close>

definition swap_full :: "proc \<Rightarrow> bool" where
  "swap_full p \<longleftrightarrow> p_num_swapped p \<ge> 8 \<or> (\<forall>j < 1024. p_swap_slots p ! j \<noteq> 0)"

lemma save_victim_spec:
  assumes inv: "as_inv s fl (p_pagetable p)" and sw: "swap_inv p" and va: "va < MAXVA"
    and up: "user_pte (pte_of (mem s) (p_pagetable p) va)" and nsw: "va \<notin> sp_va ` set (swapped p)"
  obtains (gave_up) l sl where "save_victim s p va d = Ret (False, s\<lparr>klog := l\<rparr>, p\<lparr>p_swap_slots := sl\<rparr>)" "d"
      "swap_inv (p\<lparr>p_swap_slots := sl\<rparr>)" "swap_full p"
  | (saved) l p' es where "save_victim s p va d = Ret (True, s\<lparr>klog := l\<rparr>, p')" "swap_inv p'"
      "swapped p' = swapped p @ es" "\<exists>sps n sl. p' = p\<lparr>p_swap_slots := sl, p_swapped_pages := sps, p_num_swapped := n\<rparr>"
      "if d then map sp_va es = [va] \<and> map sp_data es = [load_bytes (mem s) (PTE2PA (pte_of (mem s) (p_pagetable p) va)) 4096]
       else es = []" "d \<Longrightarrow> \<not> swap_full p"
proof (cases d)
  case False
  show ?thesis
  proof (rule saved [of "klog s @ [DISCARD (p_pid p) va]" p "[]"])
    show "\<exists>sps n sl. p = p\<lparr>p_swap_slots := sl, p_swapped_pages := sps, p_num_swapped := n\<rparr>"
      by (intro exI [of _ "p_swapped_pages p"] exI [of _ "p_num_swapped p"] exI [of _ "p_swap_slots p"]) simp
  qed (use False sw in \<open>simp_all add: save_victim_def kprintf_def\<close>)
next
  case True
  show ?thesis
  proof (cases rule: find_free_swap_slot_cases [of p])
    case full
    show ?thesis
      by (rule gave_up [of "klog s @ [SWAPFULL (p_pid p), KILL (p_pid p) ''swap-exhausted'']" "p_swap_slots p"])
        (use full True sw in \<open>simp_all add: save_victim_def kprintf_def swap_full_def\<close>)
  next
    case (slot k)
    let ?p = "p\<lparr>p_swap_slots := (p_swap_slots p)[k := 1]\<rparr>"
    let ?pa = "PTE2PA (pte_of (mem s) (p_pagetable p) va)"
    define e where "e = \<lparr>sp_va = va, sp_slot = int k, sp_data = load_bytes (mem s) ?pa 4096\<rparr>"
    define p' where "p' = p\<lparr>p_swap_slots := (p_swap_slots p)[k := 1],
      p_swapped_pages := (p_swapped_pages p)[p_num_swapped p := e], p_num_swapped := p_num_swapped p + 1\<rparr>"
    have wk: "swap_out_page s ?p va (int k) =
        (if p_num_swapped p \<ge> 8 then Ret (-1, s, ?p) else Ret (0, kprintf s (SWAPOUT (p_pid p) va (int k)), p'))"
      by (rule walk_user_page [OF inv va up])
        (use up in \<open>simp add: swap_out_page_def user_pte_def Let_def p'_def e_def\<close>)
    show ?thesis
    proof (cases "p_num_swapped p \<ge> 8")
      case full: True
      show ?thesis
        by (rule gave_up [of "klog s @ [SWAPFULL (p_pid p), KILL (p_pid p) ''swap-exhausted'']" "(p_swap_slots p)[k := 1]"])
          (use full slot True wk swap_inv_slots [OF sw slot(2)] in \<open>simp_all add: save_victim_def kprintf_def swap_full_def\<close>)
    next
      case False
      have A: "swap_inv p'" "swapped p' = swapped p @ [e]"
        using swap_inv_add [OF sw _ nsw slot(2,3) e_def _ p'_def] False by simp_all
      have "\<exists>sps n sl. p' = p\<lparr>p_swap_slots := sl, p_swapped_pages := sps, p_num_swapped := n\<rparr>"
        unfolding p'_def by blast
      then show ?thesis
        by (intro saved [of "klog s @ [SWAPOUT (p_pid p) va (int k)]" p' "[e]"])
          (use False slot True wk A in \<open>auto simp: save_victim_def kprintf_def e_def swap_full_def\<close>)
    qed
  qed
qed

end
