(* ===== verification/Pager.thy ===== *)
theory Pager
  imports Swap_Area
begin

text \<open>
  Correctness of the page-fault handler.  The contents of a process's pages are read through
  its page table or, for a page that is swapped out, from the swap area; the handler's steps
  are followed on that view: choosing and saving the victim, freeing its frame, filling the
  new frame and mapping it.
\<close>

section \<open>The pages of a process\<close>

definition upage :: "'a kmem_scheme \<Rightarrow> uint64 \<Rightarrow> uint64 \<Rightarrow> uint8 list option" where
  "upage s root b =
     (if user_pte (pte_of (mem s) root b) then Some (load_bytes (mem s) (PTE2PA (pte_of (mem s) root b)) 4096)
      else None)"

definition spage :: "proc \<Rightarrow> uint64 \<Rightarrow> uint8 list option" where
  "spage p b = map_of (map (\<lambda>e. (sp_va e, sp_data e)) (swapped p)) b"

definition vpage :: "'a kmem_scheme \<Rightarrow> proc \<Rightarrow> uint64 \<Rightarrow> uint8 list option" where
  "vpage s p b = (case upage s (p_pagetable p) b of Some d \<Rightarrow> Some d | None \<Rightarrow> spage p b)"

definition page_addr :: "uint64 \<Rightarrow> bool" where
  "page_addr b \<longleftrightarrow> aligned 12 b \<and> b < MAXVA"

definition lists_inv :: "(uint64 \<Rightarrow> uint64) \<Rightarrow> proc \<Rightarrow> bool" where
  "lists_inv pte p \<longleftrightarrow> rset_inv p \<and> p_num_resident p \<le> MAX_RESIDENT_PAGES \<and> swap_inv p \<and>
     (\<forall>e \<in> set (resident p). page_addr (rp_va e) \<and> user_pte (pte (rp_va e))) \<and>
     (\<forall>e \<in> set (swapped p). page_addr (sp_va e) \<and> pte (sp_va e) AND PTE_V = 0)"

text \<open>
  The invariant of a process under demand paging: its address space is well formed, at most
  \<^verbatim>\<open>MAX_RESIDENT_PAGES\<close> pages are resident and each of them is mapped, and the swapped pages
  hold used slots and are not mapped.
\<close>

definition page_inv :: "'a machine_scheme \<Rightarrow> uint64 list \<Rightarrow> proc \<Rightarrow> bool" where
  "page_inv s fl p \<longleftrightarrow> as_inv s fl (p_pagetable p) \<and> lists_inv (pte_of (mem s) (p_pagetable p)) p"

lemma user_pte_valid: "user_pte v \<Longrightarrow> v AND PTE_V \<noteq> 0"
  by (simp add: user_pte_def)

lemma user_pte_0 [simp]: "\<not> user_pte 0"
  by (simp add: user_pte_def)

lemma page_addr_eq: "page_addr b \<Longrightarrow> PGROUNDDOWN b = b"
  by (simp add: page_addr_def PGROUNDDOWN_aligned)

lemma as_inv_klog [simp]: "as_inv (s\<lparr>klog := l\<rparr>) fl root = as_inv s fl root"
  unfolding as_inv_def pt_inv_def kmem_inv_def phys_page_def by simp

lemma fresh_frame_klog [simp]: "fresh_frame (s\<lparr>klog := l\<rparr>) fl root x = fresh_frame s fl root x"
  unfolding fresh_frame_def phys_page_def by simp

lemma upage_klog [simp]: "upage (s\<lparr>klog := l\<rparr>) root b = upage s root b"
  by (simp add: upage_def)

lemma vpage_klog [simp]: "vpage (s\<lparr>klog := l\<rparr>) p b = vpage s p b"
  by (simp add: vpage_def)

lemma resident_not_swapped:
  "lists_inv pte p \<Longrightarrow> e \<in> set (resident p) \<Longrightarrow> rp_va e \<notin> sp_va ` set (swapped p)"
  unfolding lists_inv_def by (metis imageE user_pte_valid)

lemma upage_frame:
  assumes "as_inv s fl root" "b < MAXVA" "pte_of (mem s') root b = pte_of (mem s) root b"
    and "user_pte (pte_of (mem s) root b) \<Longrightarrow> same_page (mem s) (mem s') (PTE2PA (pte_of (mem s) root b))"
  shows "upage s' root b = upage s root b"
proof (cases "user_pte (pte_of (mem s) root b)")
  case True
  then have "aligned 12 (PTE2PA (pte_of (mem s) root b))"
    using as_invD(3) [OF assms(1,2)] by (simp add: phys_page_def)
  then show ?thesis using load_bytes_same_page [OF assms(4) [OF True]] assms(3) by (simp add: upage_def)
qed (use assms(3) in \<open>simp add: upage_def\<close>)

section \<open>Frames\<close>

lemma free_victim_spec:
  assumes inv: "as_inv s fl (p_pagetable p)" and va: "page_addr va"
    and up: "user_pte (pte_of (mem s) (p_pagetable p) va)"
  obtains s' x where "free_victim s p va = Ret s'" "as_inv s' (x # fl) (p_pagetable p)"
    "kmem.more s' = kmem.more s"
    "\<And>b. b < MAXVA \<Longrightarrow> pte_of (mem s') (p_pagetable p) b =
       (if PGROUNDDOWN b = va then 0 else pte_of (mem s) (p_pagetable p) b)"
    "\<And>b. page_addr b \<Longrightarrow> upage s' (p_pagetable p) b = (if b = va then None else upage s (p_pagetable p) b)"
proof -
  let ?root = "p_pagetable p" and ?x = "PTE2PA (pte_of (mem s) (p_pagetable p) va)"
  note D = as_invD [OF inv]
  have lt: "va < MAXVA" and eq: "PGROUNDDOWN va = va" using va page_addr_eq by (auto simp: page_addr_def)
  obtain s1 u where s1: "kfree s ?x = Ret s1" "node (mem s) ?root (vpath 2 va) = Some u"
      "as_inv (s1\<lparr>mem := store64 (mem s1) (slot u (PX 0 va)) 0\<rparr>) (?x # fl) ?root"
      "\<And>b. b < MAXVA \<Longrightarrow> pte_of (store64 (mem s1) (slot u (PX 0 va)) 0) ?root b =
         (if PGROUNDDOWN b = PGROUNDDOWN va then 0 else pte_of (mem s) ?root b)"
      "kmem.more s1 = kmem.more s"
      "\<And>q. q \<noteq> ?x \<Longrightarrow> \<not> is_table (mem s) ?root q \<Longrightarrow> same_page (mem s) (store64 (mem s1) (slot u (PX 0 va)) 0) q"
    by (rule unmap_user_page [OF inv lt up]) blast
  define s' where "s' = s1\<lparr>mem := store64 (mem s1) (slot u (PX 0 va)) 0\<rparr>"
  have wk: "walk s ?root va False = Ret (slot u (PX 0 va), s)" "slot u (PX 0 va) \<noteq> 0"
    "load64 (mem s) (slot u (PX 0 va)) = pte_of (mem s) ?root va"
    by (rule walk_user_page [OF inv lt up], use s1(2) in simp)+
  show ?thesis
  proof (rule that [of s' ?x])
    show "free_victim s p va = Ret s'"
      using wk s1(1) up by (simp add: free_victim_def user_pte_def s'_def)
    show "as_inv s' (?x # fl) ?root" "kmem.more s' = kmem.more s" using s1(3,5) by (simp_all add: s'_def)
    show pte: "pte_of (mem s') ?root b = (if PGROUNDDOWN b = va then 0 else pte_of (mem s) ?root b)"
      if "b < MAXVA" for b using s1(4) [OF that] eq by (simp add: s'_def)
    show "upage s' ?root b = (if b = va then None else upage s ?root b)" if b: "page_addr b" for b
    proof (cases "b = va")
      case True
      then show ?thesis using pte [OF lt] eq by (simp add: upage_def)
    next
      case False
      have bl: "b < MAXVA" "PGROUNDDOWN b = b" using b page_addr_eq by (auto simp: page_addr_def)
      have "upage s' ?root b = upage s ?root b"
      proof (rule upage_frame [OF inv bl(1)])
        show "pte_of (mem s') ?root b = pte_of (mem s) ?root b" using pte [OF bl(1)] False bl(2) by simp
        show "same_page (mem s) (mem s') (PTE2PA (pte_of (mem s) ?root b))" if "user_pte (pte_of (mem s) ?root b)"
          using s1(6) D(5) [OF bl(1) that] D(6) [OF bl(1) lt that up] False eq bl(2) by (auto simp: s'_def)
      qed
      then show ?thesis using False by simp
    qed
  qed
qed

lemma upage_kalloc:
  assumes "as_inv s (x # fl) root"
  obtains s1 where "kalloc s = (x, s1)" "x \<noteq> 0" "as_inv s1 fl root" "fresh_frame s1 fl root x"
    "\<And>va. pte_of (mem s1) root va = pte_of (mem s) root va" "kmem.more s1 = kmem.more s"
    "\<And>b. page_addr b \<Longrightarrow> upage s1 root b = upage s root b"
proof (rule as_inv_kalloc [OF assms])
  fix s1 assume s1: "kalloc s = (x, s1)" "as_inv s1 fl root" "fresh_frame s1 fl root x"
    "\<And>va. pte_of (mem s1) root va = pte_of (mem s) root va" "kmem.more s1 = kmem.more s"
    "\<And>q. q \<noteq> x \<Longrightarrow> same_page (mem s) (mem s1) q"
  have "x \<noteq> 0" using s1(3) by (simp add: fresh_frame_def phys_page_def)
  moreover have "upage s1 root b = upage s root b" if "page_addr b" for b
  proof (rule upage_frame [OF assms])
    show "b < MAXVA" using that by (simp add: page_addr_def)
    show "same_page (mem s) (mem s1) (PTE2PA (pte_of (mem s) root b))" if "user_pte (pte_of (mem s) root b)"
      using s1(6) as_invD(4) [OF assms \<open>b < MAXVA\<close> that] by auto
  qed (simp add: s1(4))
  ultimately show thesis using that s1 by blast
qed

lemma upage_fill:
  assumes "as_inv s fl root" "fresh_frame s fl root pa" "page_addr b"
    and "\<And>q. q \<noteq> pa \<Longrightarrow> same_page (mem s) m' q"
  shows "upage (s\<lparr>mem := m'\<rparr>) root b = upage s root b"
proof (rule upage_frame [OF assms(1)])
  show b: "b < MAXVA" using assms(3) by (simp add: page_addr_def)
  show "pte_of (mem (s\<lparr>mem := m'\<rparr>)) root b = pte_of (mem s) root b"
    using as_inv_fill(3) [OF assms(1,2,4)] by simp
  show "same_page (mem s) (mem (s\<lparr>mem := m'\<rparr>)) (PTE2PA (pte_of (mem s) root b))" if "user_pte (pte_of (mem s) root b)"
    using assms(2,4) that b by (simp add: fresh_frame_def)
qed

lemma upage_kfree:
  assumes "as_inv s fl root" "fresh_frame s fl root pa"
  obtains s1 where "kfree s pa = Ret s1" "as_inv s1 (pa # fl) root" "kmem.more s1 = kmem.more s"
    "\<And>va. pte_of (mem s1) root va = pte_of (mem s) root va"
    "\<And>b. page_addr b \<Longrightarrow> upage s1 root b = upage s root b"
proof (rule as_inv_kfree [OF assms])
  fix s1 assume s1: "kfree s pa = Ret s1" "as_inv s1 (pa # fl) root" "kmem.more s1 = kmem.more s"
    "\<And>va. pte_of (mem s1) root va = pte_of (mem s) root va" "\<And>q. q \<noteq> pa \<Longrightarrow> same_page (mem s) (mem s1) q"
  have "upage s1 root b = upage s root b" if "page_addr b" for b
  proof (rule upage_frame [OF assms(1)])
    show b: "b < MAXVA" using that by (simp add: page_addr_def)
    show "same_page (mem s) (mem s1) (PTE2PA (pte_of (mem s) root b))" if "user_pte (pte_of (mem s) root b)"
      using s1(5) assms(2) that b by (simp add: fresh_frame_def)
  qed (simp add: s1(4))
  then show thesis using that s1 by blast
qed

lemma map_fresh_frame:
  assumes inv: "as_inv s fl root" and a: "page_addr a" and fresh: "fresh_frame s fl root pa"
    and iv: "pte_of (mem s) root a AND PTE_V = 0" and pm: "low_flags pm" "pm AND PTE_U \<noteq> 0"
  obtains (ok) s' fl' where "mappages s root a PGSIZE pa pm = Ret (0, s')" "as_inv s' fl' root"
      "kmem.more s' = kmem.more s"
      "\<And>b. b < MAXVA \<Longrightarrow> pte_of (mem s') root b = (if PGROUNDDOWN b = a then PA2PTE pa OR pm OR PTE_V else pte_of (mem s) root b)"
      "\<And>b. page_addr b \<Longrightarrow> upage s' root b = (if b = a then Some (load_bytes (mem s) pa 4096) else upage s root b)"
  | (full) s' where "mappages s root a PGSIZE pa pm = Ret (-1, s')" "as_inv s' [] root" "fresh_frame s' [] root pa"
      "kmem.more s' = kmem.more s" "\<And>b. b < MAXVA \<Longrightarrow> pte_of (mem s') root b = pte_of (mem s) root b"
      "\<And>b. page_addr b \<Longrightarrow> upage s' root b = upage s root b"
proof -
  note D = as_invD [OF inv]
  have al: "aligned 12 a" "a < MAXVA" using a by (simp_all add: page_addr_def)
  have pal: "phys_page s pa" "pa \<notin> set fl" "\<not> is_table (mem s) root pa"
    "\<And>va. va < MAXVA \<Longrightarrow> user_pte (pte_of (mem s) root va) \<Longrightarrow> PTE2PA (pte_of (mem s) root va) \<noteq> pa"
    using fresh by (auto simp: fresh_frame_def)
  have dec: "PTE2PA (PA2PTE pa OR pm OR PTE_V) = pa"
    using PTE2PA_encode [of pa "pm OR PTE_V"] pm(1) phys_page_addr [OF pal(1)] by (simp add: or.assoc)
  have keep: "upage s' root b = upage s root b"
    if b: "page_addr b" and m: "mapped_upto s fl s' fl' root a k pa pm" and p: "pte_of (mem s') root b = pte_of (mem s) root b"
    for s' fl' k b
  proof (rule upage_frame [OF inv])
    show bl: "b < MAXVA" using b by (simp add: page_addr_def)
    show "same_page (mem s) (mem s') (PTE2PA (pte_of (mem s) root b))" if "user_pte (pte_of (mem s) root b)"
      using m D(4,5) [OF bl that] unfolding mapped_upto_def by blast
  qed (rule p)
  show ?thesis
  proof (cases rule: mappages_page [OF D(1,2) al iv, where pa = pa and perm = pm])
    case (1 s' fl')
    have pte: "pte_of (mem s') root b = (if PGROUNDDOWN b = a then PA2PTE pa OR pm OR PTE_V else pte_of (mem s) root b)"
      if "b < MAXVA" for b
      using 1(2) that in_range_1 [OF al, of b] PGROUNDDOWN_aligned [OF al(1)] by (simp add: mapped_upto_def)
    have "same_page (mem s) (mem s') pa" using 1(2) pal(2,3) unfolding mapped_upto_def by blast
    then have "load_bytes (mem s') pa 4096 = load_bytes (mem s) pa 4096"
      using pal(1) by (simp add: load_bytes_same_page phys_page_def)
    moreover have "user_pte (PA2PTE pa OR pm OR PTE_V)" by (rule user_pte_encode [OF pm(2)])
    ultimately have "upage s' root a = Some (load_bytes (mem s) pa 4096)"
      using pte [OF al(2)] page_addr_eq [OF a] dec by (simp add: upage_def)
    moreover have "upage s' root b = upage s root b" if "page_addr b" "b \<noteq> a" for b
      by (rule keep [OF that(1) 1(2)]) (use pte [of b] that page_addr_eq in \<open>simp add: page_addr_def\<close>)
    ultimately show ?thesis
      using ok [OF 1(1) as_inv_map [OF inv al fresh pm(1) 1(2)] _ pte] 1(2) by (simp add: mapped_upto_def)
  next
    case (2 s')
    have pte: "pte_of (mem s') root b = pte_of (mem s) root b" if "b < MAXVA" for b
      using 2(2) that by (auto simp: mapped_upto_def in_range_def)
    have M: "kend s' = kend s" "kmem.more s' = kmem.more s"
      "\<And>u. is_table (mem s') root u \<Longrightarrow> is_table (mem s) root u \<or> u \<in> set fl"
      using 2(2) by (simp_all add: mapped_upto_def)
    have "fresh_frame s' [] root pa"
      using pal M(1,3) pte unfolding fresh_frame_def phys_page_def by auto
    moreover have "upage s' root b = upage s root b" if "page_addr b" for b
      by (rule keep [OF that 2(2)]) (use pte that in \<open>simp add: page_addr_def\<close>)
    ultimately show ?thesis using full [OF 2(1) as_inv_map_failed [OF inv 2(2)] _ M(2) pte] by blast
  qed
qed

section \<open>Page replacement\<close>

text \<open>The fields of the descriptor the pager may change.\<close>

definition pager_frame :: "proc \<Rightarrow> proc \<Rightarrow> bool" where
  "pager_frame p p' \<longleftrightarrow> (\<exists>rs n sps k sl q. p' = p\<lparr>p_resident_pages := rs, p_num_resident := n,
     p_swapped_pages := sps, p_num_swapped := k, p_swap_slots := sl, p_pf_seq := q\<rparr>)"

lemma pager_frame_fields:
  assumes "pager_frame p p'"
  shows "p_pagetable p' = p_pagetable p" "p_sz p' = p_sz p" "p_pid p' = p_pid p"
    "p_lazy_segs p' = p_lazy_segs p" "p_lazy_nseg p' = p_lazy_nseg p" "p_lazy_heap_start p' = p_lazy_heap_start p"
    "p_trapframe p' = p_trapframe p"
  using assms by (auto simp: pager_frame_def)

lemma pager_frame_upd [intro]:
  "pager_frame p (p\<lparr>p_resident_pages := rs, p_num_resident := n, p_swapped_pages := sps, p_num_swapped := k,
     p_swap_slots := sl, p_pf_seq := q\<rparr>)"
  unfolding pager_frame_def by blast

lemma pager_frame_slots [simp]: "pager_frame p (p\<lparr>p_swap_slots := sl\<rparr>)"
  using pager_frame_upd [where p = p and rs = "p_resident_pages p" and n = "p_num_resident p"
      and sps = "p_swapped_pages p" and k = "p_num_swapped p" and sl = sl and q = "p_pf_seq p"]
  by simp

lemma pager_frame_refl [simp]: "pager_frame p p"
  using pager_frame_slots [of p "p_swap_slots p"] by simp

lemma pager_frame_trans: "pager_frame p p' \<Longrightarrow> pager_frame p' p'' \<Longrightarrow> pager_frame p p''"
  unfolding pager_frame_def by force

lemma pager_frame_swap:
  "pager_frame p (p\<lparr>p_swap_slots := sl, p_swapped_pages := sps, p_num_swapped := k\<rparr>)"
  using pager_frame_upd [where p = p and rs = "p_resident_pages p" and n = "p_num_resident p"
      and sps = sps and k = k and sl = sl and q = "p_pf_seq p"] by (cases p) simp

lemma pager_frame_resident:
  "pager_frame p (p\<lparr>p_resident_pages := rs, p_num_resident := n\<rparr>)"
  using pager_frame_upd [where p = p and rs = rs and n = n and sps = "p_swapped_pages p"
      and k = "p_num_swapped p" and sl = "p_swap_slots p" and q = "p_pf_seq p"] by simp

lemma lists_inv_slots: "lists_inv pte p \<Longrightarrow> swap_inv (p\<lparr>p_swap_slots := sl\<rparr>) \<Longrightarrow> lists_inv pte (p\<lparr>p_swap_slots := sl\<rparr>)"
  unfolding lists_inv_def rset_inv_def resident_def by simp

lemma lists_inv_evict:
  assumes inv: "lists_inv pte p" and v: "v \<in> set (resident p)"
    and p': "p' = p\<lparr>p_swap_slots := sl, p_swapped_pages := sps, p_num_swapped := n\<rparr>" "swap_inv p'"
      "swapped p' = swapped p @ es" "set (map sp_va es) \<subseteq> {rp_va v}"
    and pte': "\<And>b. b < MAXVA \<Longrightarrow> pte' b = (if PGROUNDDOWN b = rp_va v then 0 else pte b)"
  shows "lists_inv pte' (remove_resident_page p' (rp_va v))"
    and "resident (remove_resident_page p' (rp_va v)) = filter (\<lambda>e. rp_va e \<noteq> rp_va v) (resident p)"
    and "swapped (remove_resident_page p' (rp_va v)) = swapped p @ es"
    and "p_num_resident (remove_resident_page p' (rp_va v)) < p_num_resident p"
    and "pager_frame p (remove_resident_page p' (rp_va v))"
proof -
  let ?p = "remove_resident_page p' (rp_va v)"
  have L: "rset_inv p" "p_num_resident p \<le> MAX_RESIDENT_PAGES"
    "\<And>e. e \<in> set (resident p) \<Longrightarrow> page_addr (rp_va e) \<and> user_pte (pte (rp_va e))"
    "\<And>e. e \<in> set (swapped p) \<Longrightarrow> page_addr (sp_va e) \<and> pte (sp_va e) AND PTE_V = 0"
    using inv by (auto simp: lists_inv_def)
  have rp: "resident p' = resident p" by (simp add: p'(1) resident_def)
  have ri: "rset_inv p'" using L(1) by (simp add: rset_inv_def rp) (simp add: p'(1))
  obtain rs k where e: "?p = p'\<lparr>p_resident_pages := rs, p_num_resident := k\<rparr>"
    using remove_resident_page_spec(2) [OF ri] by blast
  show res: "resident ?p = filter (\<lambda>e. rp_va e \<noteq> rp_va v) (resident p)"
    using remove_resident_page_spec(1) [OF ri] rp by simp
  have "swapped ?p = swapped p'" by (simp add: e swapped_def)
  then show sw: "swapped ?p = swapped p @ es" using p'(3) by simp
  have "p_num_resident p' = p_num_resident p" by (simp add: p'(1))
  then show lt: "p_num_resident ?p < p_num_resident p" using num_resident_remove [OF ri, of "rp_va v"] v rp by auto
  have "pager_frame p p'" unfolding p'(1) by (rule pager_frame_swap)
  moreover have "pager_frame p' ?p" unfolding e by (rule pager_frame_resident)
  ultimately show "pager_frame p ?p" by (rule pager_frame_trans)
  have si: "swap_inv ?p" using p'(2) by (simp add: e swap_inv_def swapped_def)
  show "lists_inv pte' ?p"
    unfolding lists_inv_def res sw
  proof (intro conjI ballI)
    show "rset_inv ?p" by (rule rset_inv_remove [OF ri])
    show "p_num_resident ?p \<le> MAX_RESIDENT_PAGES" using lt L(2) by simp
    fix e assume e: "e \<in> set (filter (\<lambda>e. rp_va e \<noteq> rp_va v) (resident p))"
    then show "page_addr (rp_va e)" "user_pte (pte' (rp_va e))"
      using L(3) [of e] pte' [of "rp_va e"] page_addr_eq by (auto simp: page_addr_def)
  next
    fix e assume e: "e \<in> set (swapped p @ es)"
    then have "e \<in> set (swapped p) \<or> sp_va e = rp_va v" using p'(4) by auto
    then show "page_addr (sp_va e)" "pte' (sp_va e) AND PTE_V = 0"
      using L(4) [of e] L(3) [OF v] pte' [of "sp_va e"] page_addr_eq by (auto simp: page_addr_def)
  qed (rule si)
qed

lemma spage_append:
  assumes "swapped p' = swapped p @ es" "set (map sp_va es) \<subseteq> {va}"
  shows "b \<noteq> va \<Longrightarrow> spage p' b = spage p b"
    and "va \<notin> sp_va ` set (swapped p) \<Longrightarrow>
      spage p' va = map_of (map (\<lambda>e. (sp_va e, sp_data e)) es) va"
proof -
  have "map_of (map (\<lambda>e. (sp_va e, sp_data e)) es) b = None" if "b \<noteq> va"
    using assms(2) that by (auto simp: map_of_eq_None_iff)
  then show "b \<noteq> va \<Longrightarrow> spage p' b = spage p b"
    unfolding spage_def assms(1) by (auto simp: map_add_def split: option.splits)
  assume "va \<notin> sp_va ` set (swapped p)"
  then have "map_of (map (\<lambda>e. (sp_va e, sp_data e)) (swapped p)) va = None"
    by (force simp: map_of_eq_None_iff)
  then show "spage p' va = map_of (map (\<lambda>e. (sp_va e, sp_data e)) es) va"
    unfolding spage_def assms(1) by (auto simp: map_add_def split: option.splits)
qed

lemma spage_None: "va \<notin> sp_va ` set (swapped p) \<Longrightarrow> spage p va = None"
  unfolding spage_def by (force simp: map_of_eq_None_iff)

text \<open>
  What eviction of \<open>v\<close> does to the pages: nothing to the others, and a dirty victim keeps its
  contents in swap.
\<close>

definition evicted :: "'a kmem_scheme \<Rightarrow> proc \<Rightarrow> 'a kmem_scheme \<Rightarrow> proc \<Rightarrow> res_page \<Rightarrow> bool" where
  "evicted s p s' p' v \<longleftrightarrow>
     (\<forall>b < MAXVA. pte_of (mem s') (p_pagetable p) b =
        (if PGROUNDDOWN b = rp_va v then 0 else pte_of (mem s) (p_pagetable p) b)) \<and>
     (\<forall>b. page_addr b \<longrightarrow> b \<noteq> rp_va v \<longrightarrow> vpage s' p' b = vpage s p b) \<and>
     vpage s' p' (rp_va v) = (if rp_is_dirty v \<noteq> 0 then vpage s p (rp_va v) else None) \<and>
     resident p' = filter (\<lambda>e. rp_va e \<noteq> rp_va v) (resident p) \<and>
     (\<exists>es. swapped p' = swapped p @ es \<and> set (map sp_va es) \<subseteq> {rp_va v})"

lemma evicted_vpage:
  assumes inv: "lists_inv (pte_of (mem s) (p_pagetable p)) p" and v: "v \<in> set (resident p)"
    and p': "p_pagetable p' = p_pagetable p" "swapped p' = swapped p @ es"
      "if rp_is_dirty v \<noteq> 0 then map sp_va es = [rp_va v] \<and>
         map sp_data es = [load_bytes (mem s) (PTE2PA (pte_of (mem s) (p_pagetable p) (rp_va v))) 4096] else es = []"
    and up: "\<And>b. page_addr b \<Longrightarrow> upage s' (p_pagetable p) b = (if b = rp_va v then None else upage s (p_pagetable p) b)"
  shows "page_addr b \<Longrightarrow> b \<noteq> rp_va v \<Longrightarrow> vpage s' p' b = vpage s p b"
    and "vpage s' p' (rp_va v) = (if rp_is_dirty v \<noteq> 0 then vpage s p (rp_va v) else None)"
proof -
  have sub: "set (map sp_va es) \<subseteq> {rp_va v}" using p'(3) by (auto split: if_splits)
  have pv: "page_addr (rp_va v)" "user_pte (pte_of (mem s) (p_pagetable p) (rp_va v))"
    using inv v by (auto simp: lists_inv_def)
  show "page_addr b \<Longrightarrow> b \<noteq> rp_va v \<Longrightarrow> vpage s' p' b = vpage s p b"
    using up spage_append(1) [OF p'(2) sub] p'(1) by (simp add: vpage_def split: option.splits)
  have "spage p' (rp_va v) = map_of (map (\<lambda>e. (sp_va e, sp_data e)) es) (rp_va v)"
    by (rule spage_append(2) [OF p'(2) sub resident_not_swapped [OF inv v]])
  then show "vpage s' p' (rp_va v) = (if rp_is_dirty v \<noteq> 0 then vpage s p (rp_va v) else None)"
    using up [OF pv(1)] p'(1,3) pv(2) by (auto simp: vpage_def upage_def map_eq_Cons_conv split: if_splits)
qed

lemma victim_entry:
  assumes "rset_inv p" "resident p \<noteq> []"
  obtains v where "\<not> find_victim_page p < 0" "p_resident_pages p ! nat (find_victim_page p) = v" "v \<in> set (resident p)"
    "\<And>e. e \<in> set (resident p) \<Longrightarrow> rp_seq v \<le> rp_seq e"
proof (rule find_victim_page_spec [OF assms])
  fix i assume i: "find_victim_page p = int i" "i < length (resident p)"
    "\<And>e. e \<in> set (resident p) \<Longrightarrow> rp_seq (resident p ! i) \<le> rp_seq e"
  then have "p_resident_pages p ! i = resident p ! i" using length_resident [OF assms(1)] by (simp add: nth_resident)
  then show thesis using i by (intro that [of "resident p ! i"]) auto
qed

text \<open>Freeing the victim's frame once its contents are saved, and taking it again.\<close>

lemma evict_saved:
  assumes inv: "as_inv s fl (p_pagetable p)" "lists_inv (pte_of (mem s) (p_pagetable p)) p" and v: "v \<in> set (resident p)"
    and p4: "p4 = p\<lparr>p_swap_slots := sl, p_swapped_pages := sps, p_num_swapped := n\<rparr>" "swap_inv p4" "swapped p4 = swapped p @ es"
      "if rp_is_dirty v \<noteq> 0 then map sp_va es = [rp_va v] \<and>
         map sp_data es = [load_bytes (mem s) (PTE2PA (pte_of (mem s) (p_pagetable p) (rp_va v))) 4096] else es = []"
  obtains x s5 s6 where "free_victim (s\<lparr>klog := l\<rparr>) p4 (rp_va v) = Ret s5" "kalloc s5 = (x, s6)" "x \<noteq> 0"
    "as_inv s6 fl (p_pagetable p)" "fresh_frame s6 fl (p_pagetable p) x"
    "lists_inv (pte_of (mem s6) (p_pagetable p)) (remove_resident_page p4 (rp_va v))"
    "pager_frame p (remove_resident_page p4 (rp_va v))"
    "p_num_resident (remove_resident_page p4 (rp_va v)) < p_num_resident p"
    "evicted s p s6 (remove_resident_page p4 (rp_va v)) v"
proof -
  let ?s4 = "s\<lparr>klog := l\<rparr>" and ?p5 = "remove_resident_page p4 (rp_va v)"
  have pv: "page_addr (rp_va v)" "user_pte (pte_of (mem s) (p_pagetable p) (rp_va v))"
    using inv(2) v by (auto simp: lists_inv_def)
  have pt: "p_pagetable p4 = p_pagetable p" by (simp add: p4(1))
  have a4: "as_inv ?s4 fl (p_pagetable p4)" "user_pte (pte_of (mem ?s4) (p_pagetable p4) (rp_va v))"
    using inv(1) pv(2) pt by simp_all
  obtain s5 x where s5: "free_victim ?s4 p4 (rp_va v) = Ret s5" "as_inv s5 (x # fl) (p_pagetable p)"
      "\<And>b. b < MAXVA \<Longrightarrow> pte_of (mem s5) (p_pagetable p) b = (if PGROUNDDOWN b = rp_va v then 0 else pte_of (mem s) (p_pagetable p) b)"
      "\<And>b. page_addr b \<Longrightarrow> upage s5 (p_pagetable p) b = (if b = rp_va v then None else upage s (p_pagetable p) b)"
    by (rule free_victim_spec [OF a4(1) pv(1) a4(2)]) (simp add: pt)
  obtain s6 where s6: "kalloc s5 = (x, s6)" "x \<noteq> 0" "as_inv s6 fl (p_pagetable p)" "fresh_frame s6 fl (p_pagetable p) x"
      "\<And>b. pte_of (mem s6) (p_pagetable p) b = pte_of (mem s5) (p_pagetable p) b"
      "\<And>b. page_addr b \<Longrightarrow> upage s6 (p_pagetable p) b = upage s5 (p_pagetable p) b"
    by (rule upage_kalloc [OF s5(2)]) blast
  have pte6: "pte_of (mem s6) (p_pagetable p) b = (if PGROUNDDOWN b = rp_va v then 0 else pte_of (mem s) (p_pagetable p) b)"
    if "b < MAXVA" for b using s6(5) s5(3) [OF that] by simp
  have sub: "set (map sp_va es) \<subseteq> {rp_va v}" using p4(4) by (auto split: if_splits)
  note L = lists_inv_evict [OF inv(2) v p4(1-3) sub pte6]
  have up6: "upage s6 (p_pagetable p) b = (if b = rp_va v then None else upage s (p_pagetable p) b)" if "page_addr b" for b
    using s5(4) s6(6) that by simp
  note V = evicted_vpage [OF inv(2) v pager_frame_fields(1) [OF L(5)] L(3) p4(4) up6]
  have "evicted s p s6 ?p5 v" unfolding evicted_def using pte6 V L(2,3) sub by blast
  then show ?thesis using that [OF s5(1) s6(1-4) L(1,5,4)] by blast
qed

lemma replace_page_spec:
  assumes inv: "page_inv s fl p"
  obtains (fail) l sl where "replace_page s p = Ret (0, s\<lparr>klog := l\<rparr>, p\<lparr>p_swap_slots := sl\<rparr>)"
      "swap_inv (p\<lparr>p_swap_slots := sl\<rparr>)" 
      "resident p \<noteq> [] \<Longrightarrow> swap_full p \<and> rp_is_dirty (p_resident_pages p ! nat (find_victim_page p)) \<noteq> 0"
  | (frame) x s' p' v where "replace_page s p = Ret (x, s', p')" "x \<noteq> 0" "as_inv s' fl (p_pagetable p)"
      "fresh_frame s' fl (p_pagetable p) x" "lists_inv (pte_of (mem s') (p_pagetable p)) p'" "pager_frame p p'"
      "p_num_resident p' < p_num_resident p" "v \<in> set (resident p)"
      "\<forall>e \<in> set (resident p). rp_seq v \<le> rp_seq e" "evicted s p s' p' v"
      "p_resident_pages p ! nat (find_victim_page p) = v" "rp_is_dirty v \<noteq> 0 \<Longrightarrow> \<not> swap_full p"
proof (cases "resident p = []")
  case True
  have "rset_inv p" "swap_inv p" using inv by (simp_all add: page_inv_def lists_inv_def)
  then show ?thesis
    by (intro fail [of "klog s @ [MEMFULL (p_pid p), KILL (p_pid p) ''no-resident-pages'']" "p_swap_slots p"])
      (simp_all add: replace_page_def find_victim_page_empty True kprintf_def)
next
  case False
  have I: "as_inv s fl (p_pagetable p)" "lists_inv (pte_of (mem s) (p_pagetable p)) p" "rset_inv p" "swap_inv p"
    using inv by (simp_all add: page_inv_def lists_inv_def)
  obtain v where v: "\<not> find_victim_page p < 0" "p_resident_pages p ! nat (find_victim_page p) = v" "v \<in> set (resident p)"
    "\<And>e. e \<in> set (resident p) \<Longrightarrow> rp_seq v \<le> rp_seq e"
    by (rule victim_entry [OF I(3) False]) blast
  have pv: "page_addr (rp_va v)" "user_pte (pte_of (mem s) (p_pagetable p) (rp_va v))"
    using I(2) v(3) by (auto simp: lists_inv_def)
  define s3 where "s3 = s\<lparr>klog := klog s @ [MEMFULL (p_pid p), VICTIM (p_pid p) (rp_va v) (rp_seq v),
      EVICT (p_pid p) (rp_va v) (if rp_is_dirty v \<noteq> 0 then ''dirty'' else ''clean'')]\<rparr>"
  have s3: "as_inv s3 fl (p_pagetable p)" "mem s3 = mem s" using I(1) by (simp_all add: s3_def)
  note sv = save_victim_spec [OF s3(1) I(4), of "rp_va v" "rp_is_dirty v \<noteq> 0"]
  have unf: "replace_page s p = rbind (save_victim s3 p (rp_va v) (rp_is_dirty v \<noteq> 0)) (\<lambda>(ok, s4, p4).
      if \<not> ok then Ret (0, s4, p4)
      else rbind (free_victim s4 p4 (rp_va v)) (\<lambda>s5. let p5 = remove_resident_page p4 (rp_va v) in
        case kalloc s5 of (frame, s6) \<Rightarrow>
          if frame = 0 then Ret (0, kprintf s6 (KILL (p_pid p) ''allocation-failed''), p5) else Ret (frame, s6, p5)))"
    using v(1,2) by (simp add: replace_page_def Let_def kprintf_def s3_def)
  show ?thesis
  proof (rule sv)
    show "rp_va v < MAXVA" using pv(1) by (simp add: page_addr_def)
    show "user_pte (pte_of (mem s3) (p_pagetable p) (rp_va v))" using pv(2) s3(2) by simp
    show "rp_va v \<notin> sp_va ` set (swapped p)" by (rule resident_not_swapped [OF I(2) v(3)])
  next
    fix l sl assume "save_victim s3 p (rp_va v) (rp_is_dirty v \<noteq> 0) = Ret (False, s3\<lparr>klog := l\<rparr>, p\<lparr>p_swap_slots := sl\<rparr>)"
      "swap_inv (p\<lparr>p_swap_slots := sl\<rparr>)" "swap_full p" "rp_is_dirty v \<noteq> 0"
    then show ?thesis using fail [of l sl] v(2) by (simp add: unf s3_def)
  next
    fix l p4 es
    assume A: "save_victim s3 p (rp_va v) (rp_is_dirty v \<noteq> 0) = Ret (True, s3\<lparr>klog := l\<rparr>, p4)" "swap_inv p4"
      "swapped p4 = swapped p @ es" "\<exists>sps n sl. p4 = p\<lparr>p_swap_slots := sl, p_swapped_pages := sps, p_num_swapped := n\<rparr>"
      "if rp_is_dirty v \<noteq> 0 then map sp_va es = [rp_va v] \<and>
         map sp_data es = [load_bytes (mem s3) (PTE2PA (pte_of (mem s3) (p_pagetable p) (rp_va v))) 4096] else es = []"
      "rp_is_dirty v \<noteq> 0 \<Longrightarrow> \<not> swap_full p"
    obtain sps n sl where p4: "p4 = p\<lparr>p_swap_slots := sl, p_swapped_pages := sps, p_num_swapped := n\<rparr>" using A(4) by blast
    show ?thesis
    proof (rule evict_saved [OF I(1,2) v(3) p4 A(2,3), of l])
      fix x s5 s6
      assume B: "free_victim (s\<lparr>klog := l\<rparr>) p4 (rp_va v) = Ret s5" "kalloc s5 = (x, s6)" "x \<noteq> 0"
        "as_inv s6 fl (p_pagetable p)" "fresh_frame s6 fl (p_pagetable p) x"
        "lists_inv (pte_of (mem s6) (p_pagetable p)) (remove_resident_page p4 (rp_va v))"
        "pager_frame p (remove_resident_page p4 (rp_va v))"
        "p_num_resident (remove_resident_page p4 (rp_va v)) < p_num_resident p"
        "evicted s p s6 (remove_resident_page p4 (rp_va v)) v"
      have "s3\<lparr>klog := l\<rparr> = s\<lparr>klog := l\<rparr>" by (simp add: s3_def)
      then have "replace_page s p = Ret (x, s6, remove_resident_page p4 (rp_va v))"
        using A(1) B(1-3) by (simp add: unf)
      then show ?thesis using frame [OF _ B(3-8) v(3)] v(2,4) B(9) A(6) by blast
    qed (use A(5) s3(2) in simp)
  qed
qed

section \<open>Getting and filling a frame\<close>

definition oldest :: "proc \<Rightarrow> res_page \<Rightarrow> bool" where
  "oldest p v \<longleftrightarrow> v \<in> set (resident p) \<and> (\<forall>e \<in> set (resident p). rp_seq v \<le> rp_seq e)"

text \<open>A frame came off the free list, or the oldest page was evicted because none could be had.\<close>

definition made_room :: "'a kmem_scheme \<Rightarrow> uint64 list \<Rightarrow> proc \<Rightarrow> 'a kmem_scheme \<Rightarrow> proc \<Rightarrow> bool" where
  "made_room s fl p s' p' \<longleftrightarrow>
     p' = p \<and> (\<forall>b < MAXVA. pte_of (mem s') (p_pagetable p) b = pte_of (mem s) (p_pagetable p) b) \<and>
       (\<forall>b. page_addr b \<longrightarrow> vpage s' p b = vpage s p b) \<or>
     (fl = [] \<or> p_num_resident p \<ge> MAX_RESIDENT_PAGES) \<and> (\<exists>v. oldest p v \<and> evicted s p s' p' v)"

lemma get_frame_spec:
  assumes inv: "page_inv s fl p"
  obtains (fail) l sl where "get_frame s p = Ret (0, s\<lparr>klog := l\<rparr>, p\<lparr>p_swap_slots := sl\<rparr>)"
      "swap_inv (p\<lparr>p_swap_slots := sl\<rparr>)"
  | (frame) x s' p' fl' where "get_frame s p = Ret (x, s', p')" "x \<noteq> 0" "as_inv s' fl' (p_pagetable p)"
      "fresh_frame s' fl' (p_pagetable p) x" "lists_inv (pte_of (mem s') (p_pagetable p)) p'" "pager_frame p p'"
      "p_num_resident p' < MAX_RESIDENT_PAGES" "made_room s fl p s' p'"
proof (cases "p_num_resident p < MAX_RESIDENT_PAGES \<and> fl \<noteq> []")
  case True
  have I: "as_inv s fl (p_pagetable p)" "lists_inv (pte_of (mem s) (p_pagetable p)) p"
    using inv by (simp_all add: page_inv_def)
  obtain x fl' where fl: "fl = x # fl'" using True by (cases fl) auto
  obtain s1 where s1: "kalloc s = (x, s1)" "x \<noteq> 0" "as_inv s1 fl' (p_pagetable p)" "fresh_frame s1 fl' (p_pagetable p) x"
    "\<And>va. pte_of (mem s1) (p_pagetable p) va = pte_of (mem s) (p_pagetable p) va"
    "\<And>b. page_addr b \<Longrightarrow> upage s1 (p_pagetable p) b = upage s (p_pagetable p) b"
    by (rule upage_kalloc [OF I(1) [unfolded fl]]) blast
  have "made_room s fl p s1 p" using s1(5,6) by (simp add: made_room_def vpage_def)
  moreover have "get_frame s p = Ret (x, s1, p)" using True s1(1,2) by (simp add: get_frame_def)
  moreover have "lists_inv (pte_of (mem s1) (p_pagetable p)) p" using I(2) s1(5) by (simp add: lists_inv_def)
  ultimately show ?thesis using frame [OF _ s1(2-4)] True by simp
next
  case False
  have "kalloc s = (0, s)" if "fl = []"
    using inv that kalloc_empty by (metis as_invD(1) page_inv_def)
  then have g: "get_frame s p = replace_page s p" using False by (auto simp: get_frame_def)
  have room: "fl = [] \<or> p_num_resident p \<ge> MAX_RESIDENT_PAGES" using False by auto
  show ?thesis
  proof (cases rule: replace_page_spec [OF inv])
    case (1 l sl)
    then show ?thesis using fail g by simp
  next
    case (2 x s' p' v)
    have "made_room s fl p s' p'" using room 2(8-10) by (auto simp: made_room_def oldest_def)
    moreover have "p_num_resident p \<le> MAX_RESIDENT_PAGES" using inv by (simp add: page_inv_def lists_inv_def)
    ultimately show ?thesis using frame [OF _ 2(2-6)] 2(1,7) g by simp
  qed
qed

text \<open>What a frame is filled with, and the permissions it is mapped with.\<close>

definition reader :: "file_reader \<Rightarrow> bool" where
  "reader rd \<longleftrightarrow> (\<forall>ip off n. length (rd ip off n) \<le> unat n)"

definition seg_bytes :: "file_reader \<Rightarrow> lazy_seg \<Rightarrow> uint64 \<Rightarrow> uint8 list" where
  "seg_bytes rd seg a =
     (let off = a - seg_vaddr seg in
      if off < seg_filesz seg
      then rd (seg_ip seg) (ucast (seg_fileoff seg + off)) (ucast (min PGSIZE (seg_filesz seg - off))) else [])"

definition page_contents :: "file_reader \<Rightarrow> proc \<Rightarrow> uint64 \<Rightarrow> int \<Rightarrow> uint8 list" where
  "page_contents rd p a si =
     (case spage p a of Some d \<Rightarrow> d
      | None \<Rightarrow> let bs = (if si \<ge> 0 then seg_bytes rd (p_lazy_segs p ! nat si) a else [])
                in bs @ replicate (4096 - length bs) 0)"

definition page_perm :: "proc \<Rightarrow> uint64 \<Rightarrow> int \<Rightarrow> uint64" where
  "page_perm p a si =
     (if spage p a = None \<and> si \<ge> 0 then PTE_U OR (PTE_R OR flags2perm (seg_flags (p_lazy_segs p ! nat si)))
      else PTE_U OR (PTE_R OR PTE_W OR PTE_X))"

lemma page_perm_flags: "low_flags (page_perm p a si)" "page_perm p a si AND PTE_U \<noteq> 0"
proof -
  have "low_flags 0" by (simp add: low_flags_def)
  then have "low_flags (flags2perm f)" for f by (simp add: flags2perm_def Let_def)
  then show "low_flags (page_perm p a si)" by (simp add: page_perm_def)
  show "page_perm p a si AND PTE_U \<noteq> 0"
    by (simp add: page_perm_def bit.conj_disj_distrib2 or_eq_0_iff) (simp add: PTE_U_def)
qed

lemma length_seg_bytes:
  assumes "reader rd"
  shows "length (seg_bytes rd seg a) \<le> 4096"
proof -
  have "unat (ucast (min PGSIZE x) :: uint32) \<le> 4096" for x :: uint64
  proof -
    have "unat (min PGSIZE x) \<le> 4096" by (simp add: min_def PGSIZE_def word_le_nat_alt)
    then show ?thesis by (simp add: unsigned_ucast_eq take_bit_nat_eq_self)
  qed
  then show ?thesis using assms unfolding reader_def seg_bytes_def Let_def by simp (meson order_trans)
qed

lemma load_segment_eq:
  "\<exists>ok. load_segment rd s seg a x = (ok, s\<lparr>mem := store_bytes (mem s) x (seg_bytes rd seg a)\<rparr>)"
  by (auto simp: load_segment_def seg_bytes_def Let_def min_def not_less)

text \<open>
  The handler's slot is the one of the page's swap entry, and -1 when it has none; evicting
  another page in between does not change that.
\<close>

definition slot_of :: "proc \<Rightarrow> uint64 \<Rightarrow> int \<Rightarrow> bool" where
  "slot_of p a slt \<longleftrightarrow>
     slt < 0 \<and> a \<notin> sp_va ` set (swapped p) \<or>
     (\<exists>e \<in> set (swapped p). sp_va e = a \<and> sp_slot e = slt \<and> 0 \<le> slt)"

lemma spage_entry:
  assumes "swap_inv p" "e \<in> set (swapped p)"
  shows "spage p (sp_va e) = Some (sp_data e)"
proof -
  have "distinct (map fst (map (\<lambda>e. (sp_va e, sp_data e)) (swapped p)))"
    using assms(1) by (simp add: swap_inv_def comp_def)
  then show ?thesis unfolding spage_def using assms(2) by (intro map_of_is_SomeI) auto
qed

lemma spage_filter:
  assumes "swapped p' = filter (\<lambda>x. sp_va x \<noteq> a) (swapped p)" "b \<noteq> a"
  shows "spage p' b = spage p b"
proof -
  have "map_of (map (\<lambda>e. (sp_va e, sp_data e)) (filter (\<lambda>x. sp_va x \<noteq> a) es)) b =
      map_of (map (\<lambda>e. (sp_va e, sp_data e)) es) b" for es
    using assms(2) by (induction es) auto
  then show ?thesis unfolding spage_def assms(1) .
qed

definition filled ::
  "file_reader \<Rightarrow> 'a machine_scheme \<Rightarrow> uint64 list \<Rightarrow> proc \<Rightarrow> uint64 \<Rightarrow> int \<Rightarrow> uint64 \<Rightarrow> 'a machine_scheme \<Rightarrow> proc \<Rightarrow> bool" where
  "filled rd s fl p a si x s' p' \<longleftrightarrow>
     as_inv s' fl (p_pagetable p) \<and> fresh_frame s' fl (p_pagetable p) x \<and>
     load_bytes (mem s') x 4096 = page_contents rd p a si \<and>
     (\<forall>b. pte_of (mem s') (p_pagetable p) b = pte_of (mem s) (p_pagetable p) b) \<and>
     (\<forall>b. page_addr b \<longrightarrow> upage s' (p_pagetable p) b = upage s (p_pagetable p) b) \<and>
     swapped p' = filter (\<lambda>e. sp_va e \<noteq> a) (swapped p) \<and> swap_inv p' \<and>
     resident p' = resident p \<and> p_num_resident p' = p_num_resident p \<and> rset_inv p' \<and> pager_frame p p'"

lemma store_fresh:
  assumes "as_inv s fl root" "fresh_frame s fl root x" "length bs \<le> 4096"
  shows "as_inv (s\<lparr>mem := store_bytes (mem s) x bs, klog := l\<rparr>) fl root"
    "fresh_frame (s\<lparr>mem := store_bytes (mem s) x bs, klog := l\<rparr>) fl root x"
    "pte_of (store_bytes (mem s) x bs) root b = pte_of (mem s) root b"
    "page_addr b \<Longrightarrow> upage (s\<lparr>mem := store_bytes (mem s) x bs, klog := l\<rparr>) root b = upage s root b"
proof -
  have al: "aligned 12 x" using assms(2) by (simp add: fresh_frame_def phys_page_def)
  have sp: "\<And>q. q \<noteq> x \<Longrightarrow> same_page (mem s) (store_bytes (mem s) x bs) q"
    by (rule same_page_store_bytes [OF al assms(3)])
  note F = as_inv_fill [OF assms(1,2) sp]
  show "as_inv (s\<lparr>mem := store_bytes (mem s) x bs, klog := l\<rparr>) fl root"
    unfolding as_inv_klog by (rule F(1))
  show "fresh_frame (s\<lparr>mem := store_bytes (mem s) x bs, klog := l\<rparr>) fl root x"
    unfolding fresh_frame_klog by (rule F(2))
  show "pte_of (store_bytes (mem s) x bs) root b = pte_of (mem s) root b" by (rule F(3))
  show "page_addr b \<Longrightarrow> upage (s\<lparr>mem := store_bytes (mem s) x bs, klog := l\<rparr>) root b = upage s root b"
    unfolding upage_klog by (rule upage_fill [OF assms(1,2) _ sp])
qed

lemma fill_frame_swap:
  assumes inv: "as_inv s fl (p_pagetable p)" "fresh_frame s fl (p_pagetable p) x"
    and L: "rset_inv p" "swap_inv p" and e: "e \<in> set (swapped p)" "0 \<le> sp_slot e"
  shows "\<exists>s' p'. fill_frame rd s p (sp_va e) (sp_slot e) si x = Ret (Some (page_perm p (sp_va e) si), s', p') \<and>
    filled rd s fl p (sp_va e) si x s' p'"
proof -
  obtain p' where p': "swap_in_page s p (sp_va e) (sp_slot e) x = (0, s\<lparr>mem := store_bytes (mem s) x (sp_data e)\<rparr>, p')"
      "swap_inv p'" "swapped p' = filter (\<lambda>x. sp_va x \<noteq> sp_va e) (swapped p)"
      "\<exists>sps n sl. p' = p\<lparr>p_swapped_pages := sps, p_num_swapped := n, p_swap_slots := sl\<rparr>"
    by (rule swap_in_page_spec [OF L(2) e(1)])
  obtain sps n sl where q: "p' = p\<lparr>p_swapped_pages := sps, p_num_swapped := n, p_swap_slots := sl\<rparr>" using p'(4) by blast
  have len: "length (sp_data e) = 4096" using L(2) e(1) by (simp add: swap_inv_def)
  let ?s = "s\<lparr>mem := store_bytes (mem s) x (sp_data e), klog := klog s @ [SWAPIN (p_pid p) (sp_va e) (sp_slot e)]\<rparr>"
  note F = store_fresh [OF inv, of "sp_data e"]
  have sp: "spage p (sp_va e) = Some (sp_data e)" by (rule spage_entry [OF L(2) e(1)])
  have "pager_frame p p'"
    unfolding pager_frame_def q
    by (intro exI [of _ "p_resident_pages p"] exI [of _ "p_num_resident p"] exI [of _ sps] exI [of _ n] exI [of _ sl]
        exI [of _ "p_pf_seq p"]) simp
  moreover have "resident p' = resident p" "rset_inv p'" "p_num_resident p' = p_num_resident p"
    using L(1) by (simp_all add: q resident_def rset_inv_def)
  moreover have "load_bytes (mem ?s) x 4096 = page_contents rd p (sp_va e) si"
    using len sp load_store_bytes [of "sp_data e" "mem s" x] by (simp add: page_contents_def)
  moreover have "upage ?s (p_pagetable p) b = upage s (p_pagetable p) b" if "page_addr b" for b
    by (rule F(4) [OF _ that]) (simp add: len)
  ultimately have "filled rd s fl p (sp_va e) si x ?s p'"
    unfolding filled_def using F(1-3) p'(2,3) len by simp
  moreover have "fill_frame rd s p (sp_va e) (sp_slot e) si x = Ret (Some (page_perm p (sp_va e) si), ?s, p')"
    using e(2) p'(1) sp by (simp add: fill_frame_def page_perm_def kprintf_def)
  ultimately show ?thesis by blast
qed

lemma fill_frame_spec:
  assumes rd: "reader rd" and inv: "as_inv s fl (p_pagetable p)" "fresh_frame s fl (p_pagetable p) x"
    and L: "rset_inv p" "swap_inv p" and slt: "slot_of p a slt" and z: "load_bytes (mem s) x 4096 = replicate 4096 0"
  obtains (fail) s' where "fill_frame rd s p a slt si x = Ret (None, s', p)" "as_inv s' (x # fl) (p_pagetable p)"
      "\<And>b. pte_of (mem s') (p_pagetable p) b = pte_of (mem s) (p_pagetable p) b"
      "\<And>b. page_addr b \<Longrightarrow> upage s' (p_pagetable p) b = upage s (p_pagetable p) b"
  | (ok) s' p' where "fill_frame rd s p a slt si x = Ret (Some (page_perm p a si), s', p')" "filled rd s fl p a si x s' p'"
proof (cases "slt < 0")
  case False
  then obtain e where e: "e \<in> set (swapped p)" "sp_va e = a" "sp_slot e = slt" "0 \<le> sp_slot e"
    using slt by (auto simp: slot_of_def)
  show ?thesis using fill_frame_swap [OF inv L e(1,4), of rd si] ok unfolding e(2,3) by blast
next
  case neg: True
  then have ns: "a \<notin> sp_va ` set (swapped p)" using slt by (auto simp: slot_of_def)
  then have sw: "filter (\<lambda>e. sp_va e \<noteq> a) (swapped p) = swapped p" by (auto simp: filter_id_conv)
  define bs where "bs = (if si \<ge> 0 then seg_bytes rd (p_lazy_segs p ! nat si) a else [])"
  have len: "length bs \<le> 4096" using length_seg_bytes [OF rd] by (simp add: bs_def)
  note F = store_fresh [OF inv len]
  have pc: "load_bytes (store_bytes (mem s) x bs) x 4096 = page_contents rd p a si"
    using load_store_bytes [OF len, of "mem s" x] z spage_None [OF ns] by (simp add: page_contents_def bs_def Let_def)
  have fil: "filled rd s fl p a si x (s\<lparr>mem := store_bytes (mem s) x bs, klog := l\<rparr>) p" for l
    unfolding filled_def using F pc sw L by simp
  show ?thesis
  proof (cases "si \<ge> 0")
    case True
    obtain g where g: "load_segment rd s (p_lazy_segs p ! nat si) a x = (g, s\<lparr>mem := store_bytes (mem s) x bs\<rparr>)"
      using load_segment_eq True by (metis bs_def)
    show ?thesis
    proof (cases g)
      case True
      then show ?thesis using ok [OF _ fil] g neg \<open>si \<ge> 0\<close> spage_None [OF ns]
        by (simp add: fill_frame_def page_perm_def kprintf_def Let_def)
    next
      case False
      let ?s = "s\<lparr>mem := store_bytes (mem s) x bs\<rparr>"
      have I: "as_inv ?s fl (p_pagetable p)" "fresh_frame ?s fl (p_pagetable p) x"
        using F(1,2) [of "klog ?s"] by simp_all
      obtain s1 where "kfree ?s x = Ret s1" "as_inv s1 (x # fl) (p_pagetable p)"
        "\<And>b. pte_of (mem s1) (p_pagetable p) b = pte_of (mem ?s) (p_pagetable p) b"
        "\<And>b. page_addr b \<Longrightarrow> upage s1 (p_pagetable p) b = upage ?s (p_pagetable p) b"
        by (rule upage_kfree [OF I]) blast
      moreover have "upage ?s (p_pagetable p) b = upage s (p_pagetable p) b" if "page_addr b" for b
        using F(4) [OF that, of "klog ?s"] by simp
      ultimately show ?thesis using fail [of s1] g False neg \<open>si \<ge> 0\<close> F(3) by (simp add: fill_frame_def Let_def)
    qed
  next
    case False
    then have "bs = []" by (simp add: bs_def)
    then show ?thesis using ok [of "kprintf s (ALLOC (p_pid p) a)" p] fil [of "klog s @ [ALLOC (p_pid p) a]"] neg False
      by (simp add: fill_frame_def page_perm_def kprintf_def)
  qed
qed

section \<open>The page fault\<close>

lemma lists_inv_cong:
  assumes "\<And>b. b < MAXVA \<Longrightarrow> pte' b = pte b"
  shows "lists_inv pte' p = lists_inv pte p"
  unfolding lists_inv_def page_addr_def using assms by auto

text \<open>The page a clean eviction drops: one with the smallest sequence number, not marked dirty.\<close>

definition clean_victim :: "proc \<Rightarrow> uint64 \<Rightarrow> bool" where
  "clean_victim p b \<longleftrightarrow> (\<exists>v. oldest p v \<and> rp_va v = b \<and> rp_is_dirty v = 0)"

text \<open>
  Every page but \<open>a\<close> keeps its contents, in memory or in swap, except that the oldest page may
  be dropped if it is not marked dirty and room was needed.
\<close>

definition keeps_pages :: "'a kmem_scheme \<Rightarrow> uint64 list \<Rightarrow> proc \<Rightarrow> 'a kmem_scheme \<Rightarrow> proc \<Rightarrow> uint64 \<Rightarrow> bool" where
  "keeps_pages s fl p s' p' a \<longleftrightarrow> (\<forall>b. page_addr b \<longrightarrow> b \<noteq> a \<longrightarrow>
     vpage s' p' b = vpage s p b \<or>
     vpage s' p' b = None \<and> clean_victim p b \<and> (fl = [] \<or> p_num_resident p \<ge> MAX_RESIDENT_PAGES))"

lemma made_room_facts:
  assumes inv: "page_inv s fl p" and a: "page_addr a" and iv: "pte_of (mem s) (p_pagetable p) a AND PTE_V = 0"
    and m: "made_room s fl p s' p'"
  shows "pte_of (mem s') (p_pagetable p) a AND PTE_V = 0" "keeps_pages s fl p s' p' a"
    and "slot_of p a slt \<Longrightarrow> slot_of p' a slt" "spage p' a = spage p a"
proof -
  have al: "a < MAXVA" "PGROUNDDOWN a = a" using a page_addr_eq by (auto simp: page_addr_def)
  have "pte_of (mem s') (p_pagetable p) a AND PTE_V = 0 \<and> keeps_pages s fl p s' p' a \<and>
    (slot_of p a slt \<longrightarrow> slot_of p' a slt) \<and> spage p' a = spage p a"
  proof (cases "p' = p \<and> (\<forall>b < MAXVA. pte_of (mem s') (p_pagetable p) b = pte_of (mem s) (p_pagetable p) b) \<and>
       (\<forall>b. page_addr b \<longrightarrow> vpage s' p b = vpage s p b)")
    case True
    then show ?thesis using iv al(1) by (simp add: keeps_pages_def)
  next
    case False
    then obtain v where room: "fl = [] \<or> p_num_resident p \<ge> MAX_RESIDENT_PAGES" and v: "oldest p v" "evicted s p s' p' v"
      using m unfolding made_room_def by blast
    obtain es where es: "swapped p' = swapped p @ es" "set (map sp_va es) \<subseteq> {rp_va v}"
      using v(2) by (auto simp: evicted_def)
    have "user_pte (pte_of (mem s) (p_pagetable p) (rp_va v))"
      using inv v(1) by (auto simp: page_inv_def lists_inv_def oldest_def)
    then have ne: "a \<noteq> rp_va v" using iv user_pte_valid by blast
    have "keeps_pages s fl p s' p' a"
      using v room unfolding keeps_pages_def evicted_def clean_victim_def by metis
    moreover have "slot_of p' a slt" if "slot_of p a slt"
      using that es ne by (auto simp: slot_of_def)
    ultimately show ?thesis
      using v(2) ne al iv spage_append(1) [OF es ne] by (simp add: evicted_def)
  qed
  then show "pte_of (mem s') (p_pagetable p) a AND PTE_V = 0" "keeps_pages s fl p s' p' a"
    "slot_of p a slt \<Longrightarrow> slot_of p' a slt" "spage p' a = spage p a" by blast+
qed

lemma keeps_pages_step:
  assumes "keeps_pages s fl p s1 p1 a"
    and "\<And>b. page_addr b \<Longrightarrow> b \<noteq> a \<Longrightarrow> upage s2 (p_pagetable p1) b = upage s1 (p_pagetable p1) b"
    and "\<And>b. b \<noteq> a \<Longrightarrow> spage p2 b = spage p1 b" "p_pagetable p2 = p_pagetable p1"
  shows "keeps_pages s fl p s2 p2 a"
proof -
  have "vpage s2 p2 b = vpage s1 p1 b" if "page_addr b" "b \<noteq> a" for b
    using assms(2) [OF that] assms(3) [OF that(2)] assms(4) by (simp add: vpage_def split: option.splits)
  then show ?thesis using assms(1) unfolding keeps_pages_def by metis
qed

text \<open>After the fault: the page is mapped with its contents and is the newest resident.\<close>

definition page_loaded ::
  "file_reader \<Rightarrow> proc \<Rightarrow> uint64 \<Rightarrow> bool \<Rightarrow> int \<Rightarrow> 'a machine_scheme \<Rightarrow> proc \<Rightarrow> bool" where
  "page_loaded rd p a w si s' p' \<longleftrightarrow>
     upage s' (p_pagetable p) a = Some (page_contents rd p a si) \<and>
     PTE_FLAGS (pte_of (mem s') (p_pagetable p) a) = page_perm p a si OR PTE_V \<and>
     (\<exists>es. resident p' = es @ [\<lparr>rp_va = a, rp_seq = to_int (p_pf_seq p'), rp_is_dirty = (if w then 1 else 0), rp_swap_slot = -1\<rparr>])"

lemma lists_inv_add:
  assumes L: "lists_inv pte p" "p_num_resident p < MAX_RESIDENT_PAGES" and a: "page_addr a"
    and iv: "pte a AND PTE_V = 0" "a \<notin> sp_va ` set (swapped p)"
    and pte': "\<And>b. b < MAXVA \<Longrightarrow> pte' b = (if PGROUNDDOWN b = a then v else pte b)" "user_pte v"
    and p': "add_resident_page p a d = Ret p'"
  shows "lists_inv pte' p'" "pager_frame p p'" "swapped p' = swapped p"
    "\<exists>es. resident p' = es @ [\<lparr>rp_va = a, rp_seq = to_int (p_pf_seq p'), rp_is_dirty = d, rp_swap_slot = -1\<rparr>]"
proof -
  have D: "rset_inv p" "swap_inv p"
    "\<And>e. e \<in> set (resident p) \<Longrightarrow> page_addr (rp_va e) \<and> user_pte (pte (rp_va e))"
    "\<And>e. e \<in> set (swapped p) \<Longrightarrow> page_addr (sp_va e) \<and> pte (sp_va e) AND PTE_V = 0"
    using L(1) by (auto simp: lists_inv_def)
  note A = add_resident_page_Ret [OF D(1) p']
  obtain rs where q: "p' = p\<lparr>p_pf_seq := p_pf_seq p + 1, p_resident_pages := rs, p_num_resident := p_num_resident p + 1\<rparr>"
    using A(2) by blast
  have nr: "a \<notin> rp_va ` set (resident p)" using D(3) iv(1) user_pte_valid by (metis imageE)
  show sw: "swapped p' = swapped p" by (simp add: q swapped_def)
  show "\<exists>es. resident p' = es @ [\<lparr>rp_va = a, rp_seq = to_int (p_pf_seq p'), rp_is_dirty = d, rp_swap_slot = -1\<rparr>]"
    using A(3) by (simp add: q)
  show "pager_frame p p'"
    unfolding pager_frame_def q
    by (intro exI [of _ rs] exI [of _ "p_num_resident p + 1"] exI [of _ "p_swapped_pages p"] exI [of _ "p_num_swapped p"]
        exI [of _ "p_swap_slots p"] exI [of _ "p_pf_seq p + 1"]) simp
  have pv: "pte' (rp_va e) = pte (rp_va e)" if "e \<in> set (resident p)" for e
    using pte'(1) [of "rp_va e"] D(3) [OF that] nr that page_addr_eq by (auto simp: page_addr_def)
  have sv: "pte' (sp_va e) = pte (sp_va e)" if "e \<in> set (swapped p)" for e
    using pte'(1) [of "sp_va e"] D(4) [OF that] iv(2) that page_addr_eq by (auto simp: page_addr_def)
  have av: "pte' a = v" using pte'(1) [of a] a page_addr_eq by (simp add: page_addr_def)
  have "swap_inv p'" using D(2) by (simp add: q swap_inv_def swapped_def)
  moreover have "p_num_resident p' \<le> MAX_RESIDENT_PAGES" using L(2) by (simp add: q)
  ultimately show "lists_inv pte' p'"
    unfolding lists_inv_def sw A(3) using rset_inv_add [OF D(1) p' nr] D(3,4) pv sv av a pte'(2) by auto
qed

lemma map_filled_page:
  assumes f: "filled rd s0 fl p a si x s p2" and a: "page_addr a"
    and iv: "pte_of (mem s) (p_pagetable p) a AND PTE_V = 0"
    and L: "lists_inv (pte_of (mem s) (p_pagetable p)) p2" "p_num_resident p2 < MAX_RESIDENT_PAGES"
  obtains (full) s' s'' where "mappages s (p_pagetable p2) a PGSIZE x (page_perm p a si) = Ret (-1, s')" "kfree s' x = Ret s''"
      "page_inv s'' [x] p2" "\<And>b. page_addr b \<Longrightarrow> upage s'' (p_pagetable p) b = upage s (p_pagetable p) b"
  | (ok) s' p' fl' where "mappages s (p_pagetable p2) a PGSIZE x (page_perm p a si) = Ret (0, s')"
      "add_resident_page p2 a (if w then 1 else 0) = Ret p'" "\<And>ev. page_inv (kprintf s' ev) fl' p'" "pager_frame p2 p'"
      "\<And>b. page_addr b \<Longrightarrow> b \<noteq> a \<Longrightarrow> upage s' (p_pagetable p) b = upage s (p_pagetable p) b"
      "swapped p' = swapped p2" "\<And>ev. page_loaded rd p a w si (kprintf s' ev) p'"
proof -
  have F: "as_inv s fl (p_pagetable p)" "fresh_frame s fl (p_pagetable p) x" "load_bytes (mem s) x 4096 = page_contents rd p a si"
    "pager_frame p p2" "a \<notin> sp_va ` set (swapped p2)" using f by (auto simp: filled_def)
  have pt: "p_pagetable p2 = p_pagetable p" by (rule pager_frame_fields(1) [OF F(4)])
  have al: "a < MAXVA" "PGROUNDDOWN a = a" using a page_addr_eq by (auto simp: page_addr_def)
  let ?pm = "page_perm p a si"
  show ?thesis
  proof (cases rule: map_fresh_frame [OF F(1) a F(2) iv page_perm_flags [of p a si]])
    case (1 s' fl')
    have lt: "p_num_resident p2 < 256" "rset_inv p2" using L by (auto simp: lists_inv_def MAX_RESIDENT_PAGES_def)
    obtain p' where p': "add_resident_page p2 a (if w then 1 else 0) = Ret p'"
      by (rule add_resident_page_ok [OF lt(2,1)])
    have uv: "user_pte (PA2PTE x OR ?pm OR PTE_V)" by (rule user_pte_encode [OF page_perm_flags(2)])
    note A = lists_inv_add [OF L a iv F(5) 1(4) uv p']
    have pt': "p_pagetable p' = p_pagetable p" using pager_frame_fields(1) [OF A(2)] pt by simp
    have "PTE_FLAGS (pte_of (mem s') (p_pagetable p) a) = ?pm OR PTE_V"
      using 1(4) [OF al(1)] al(2) PTE_FLAGS_encode [of "?pm OR PTE_V" x] page_perm_flags(1) by (simp add: or.assoc)
    then have "page_loaded rd p a w si (kprintf s' ev) p'" for ev
      using 1(5) [OF a] F(3) A(4) by (simp add: page_loaded_def kprintf_def)
    moreover have "page_inv (kprintf s' ev) fl' p'" for ev
      using 1(2) A(1) by (simp add: page_inv_def kprintf_def pt')
    ultimately show ?thesis using 1(1,5) pt by (intro ok [OF _ p' _ A(2) _ A(3), of s' fl']) auto
  next
    case (2 s')
    obtain s'' where s'': "kfree s' x = Ret s''" "as_inv s'' [x] (p_pagetable p)"
      "\<And>va. pte_of (mem s'') (p_pagetable p) va = pte_of (mem s') (p_pagetable p) va"
      "\<And>b. page_addr b \<Longrightarrow> upage s'' (p_pagetable p) b = upage s' (p_pagetable p) b"
      by (rule upage_kfree [OF 2(2,3)]) blast
    have "lists_inv (pte_of (mem s'') (p_pagetable p)) p2"
      using L(1) lists_inv_cong [of "pte_of (mem s'') (p_pagetable p)" "pte_of (mem s) (p_pagetable p)" p2] s''(3) 2(5) by simp
    then show ?thesis using full [OF _ s''(1)] 2(1,6) s''(2,4) pt by (simp add: page_inv_def)
  qed
qed

lemma slot_of_swap_slot: "swap_inv p \<Longrightarrow> slot_of p a (swap_slot_from p a 0)"
  by (rule swap_slot_cases [of p a]) (auto simp: slot_of_def)

lemma lists_inv_filled:
  assumes "lists_inv (pte_of (mem s0) (p_pagetable p)) p" "filled rd s0 fl p a si x s p2"
  shows "lists_inv (pte_of (mem s) (p_pagetable p)) p2"
  using assms unfolding lists_inv_def filled_def by auto

lemma spage_slots [simp]: "spage (p\<lparr>p_swap_slots := sl\<rparr>) = spage p"
  by (simp add: spage_def fun_eq_iff)

lemma vpage_slots [simp]: "vpage s (p\<lparr>p_swap_slots := sl\<rparr>) b = vpage s p b"
  by (simp add: vpage_def cong: option.case_cong)

text \<open>The handler from the moment it has a cleared frame.\<close>

definition fill_and_map ::
  "file_reader \<Rightarrow> 'a machine_scheme \<Rightarrow> proc \<Rightarrow> uint64 \<Rightarrow> bool \<Rightarrow> int \<Rightarrow> int \<Rightarrow> uint64 \<Rightarrow> (int \<times> 'a machine_scheme \<times> proc) res" where
  "fill_and_map rd s p a w slt si x =
     rbind (fill_frame rd s p a slt si x) (\<lambda>(perm, s2, p2).
       case perm of
         None \<Rightarrow> Ret (-1, s2, p2)
       | Some pm \<Rightarrow>
           rbind (mappages s2 (p_pagetable p2) a PGSIZE x pm) (\<lambda>(r, s3).
             if r \<noteq> 0 then rbind (kfree s3 x) (\<lambda>s4. Ret (-1, s4, p2))
             else rbind (add_resident_page p2 a (if w then 1 else 0)) (\<lambda>p3.
               Ret (0, kprintf s3 (RESIDENT (p_pid p3) a (p_pf_seq p3)), p3))))"

lemma fill_and_map_spec:
  assumes rd: "reader rd" and S: "as_inv s fl (p_pagetable p)" "fresh_frame s fl (p_pagetable p) x"
      "load_bytes (mem s) x 4096 = replicate 4096 0"
    and L: "lists_inv (pte_of (mem s) (p_pagetable p)) p" "p_num_resident p < MAX_RESIDENT_PAGES"
    and a: "page_addr a" "pte_of (mem s) (p_pagetable p) a AND PTE_V = 0" "slot_of p a slt"
  obtains r s' p' fl' where "fill_and_map rd s p a w slt si x = Ret (r, s', p')"
    "page_inv s' fl' p'" "pager_frame p p'" "r = 0 \<or> r = -1"
    "\<And>b. page_addr b \<Longrightarrow> b \<noteq> a \<Longrightarrow> upage s' (p_pagetable p) b = upage s (p_pagetable p) b"
    "\<And>b. b \<noteq> a \<Longrightarrow> spage p' b = spage p b"
    "r = 0 \<Longrightarrow> page_loaded rd p a w si s' p'"
proof -
  have L1: "rset_inv p" "swap_inv p" using L(1) by (simp_all add: lists_inv_def)
  show ?thesis
  proof (cases rule: fill_frame_spec [OF rd S(1,2) L1 a(3) S(3), where si = si])
    case (1 s')
    have "lists_inv (pte_of (mem s') (p_pagetable p)) p" using L(1) 1(3) by (simp add: lists_inv_def)
    then show ?thesis using that [of "-1" s' p "x # fl"] 1 by (simp add: fill_and_map_def page_inv_def)
  next
    case (2 s2 p2)
    have F: "\<And>b. pte_of (mem s2) (p_pagetable p) b = pte_of (mem s) (p_pagetable p) b"
      "\<And>b. page_addr b \<Longrightarrow> upage s2 (p_pagetable p) b = upage s (p_pagetable p) b"
      "swapped p2 = filter (\<lambda>e. sp_va e \<noteq> a) (swapped p)" "p_num_resident p2 < MAX_RESIDENT_PAGES" "pager_frame p p2"
      using 2(2) L(2) by (simp_all add: filled_def)
    have iv: "pte_of (mem s2) (p_pagetable p) a AND PTE_V = 0" using a(2) F(1) by simp
    have L2: "lists_inv (pte_of (mem s2) (p_pagetable p)) p2" by (rule lists_inv_filled [OF L(1) 2(2)])
    have sp: "spage p' b = spage p b" if "b \<noteq> a" "swapped p' = swapped p2" for p' b
      using spage_filter [of p' a p b] that F(3) by simp
    show ?thesis
    proof (cases rule: map_filled_page [OF 2(2) a(1) iv L2 F(4), where w = w])
      case (1 s3 s4)
      then show ?thesis using that [of "-1" s4 p2 "[x]"] 2(1) F(2,5) sp by (simp add: fill_and_map_def)
    next
      case (2 s3 p3 fl3)
      let ?s = "kprintf s3 (RESIDENT (p_pid p3) a (p_pf_seq p3))"
      have "upage ?s (p_pagetable p) b = upage s (p_pagetable p) b" if "page_addr b" "b \<noteq> a" for b
        using 2(5) [OF that] F(2) [OF that(1)] by (simp add: kprintf_def)
      moreover have "fill_and_map rd s p a w slt si x = Ret (0, ?s, p3)"
        using 2(1,2) \<open>fill_frame rd s p a slt si x = _\<close> by (simp add: fill_and_map_def)
      ultimately show ?thesis
        using that [of 0 ?s p3 fl3] 2(3,7) pager_frame_trans [OF F(5) 2(4)] sp [OF _ 2(6)] by blast
    qed
  qed
qed

lemma load_new_page_eq:
  "load_new_page rd s p a w slt si =
     rbind (get_frame s p) (\<lambda>(x, s1, p1).
       if x = 0 then Ret (-1, s1, p1)
       else fill_and_map rd (s1\<lparr>mem := memset (mem s1) x 0 4096\<rparr>) p1 a w slt si x)"
  unfolding load_new_page_def fill_and_map_def by (rule refl)

text \<open>With a full resident set an oldest page leaves: to swap if it is marked dirty, else for good.\<close>

definition evicts_oldest :: "'a kmem_scheme \<Rightarrow> proc \<Rightarrow> 'a kmem_scheme \<Rightarrow> proc \<Rightarrow> bool" where
  "evicts_oldest s p s' p' \<longleftrightarrow> (p_num_resident p \<ge> MAX_RESIDENT_PAGES \<longrightarrow>
     (\<exists>v. oldest p v \<and> vpage s' p' (rp_va v) = (if rp_is_dirty v \<noteq> 0 then vpage s p (rp_va v) else None)))"

lemma evicts_oldest_step:
  assumes inv: "page_inv s fl p" and iv: "pte_of (mem s) (p_pagetable p) a AND PTE_V = 0"
    and m: "made_room s fl p s1 p1" "p_num_resident p1 < MAX_RESIDENT_PAGES"
    and k: "\<And>b. page_addr b \<Longrightarrow> b \<noteq> a \<Longrightarrow> vpage s2 p2 b = vpage s1 p1 b"
  shows "evicts_oldest s p s2 p2"
proof (cases "p_num_resident p \<ge> MAX_RESIDENT_PAGES")
  case True
  then obtain v where v: "oldest p v" "evicted s p s1 p1 v" using m unfolding made_room_def by auto
  have pv: "page_addr (rp_va v)" "user_pte (pte_of (mem s) (p_pagetable p) (rp_va v))"
    using inv v(1) by (auto simp: page_inv_def lists_inv_def oldest_def)
  then have "rp_va v \<noteq> a" using iv user_pte_valid by blast
  then have "vpage s2 p2 (rp_va v) = vpage s1 p1 (rp_va v)" by (rule k [OF pv(1)])
  then show ?thesis using v by (auto simp: evicts_oldest_def evicted_def)
qed (simp add: evicts_oldest_def)

lemma load_new_page_spec:
  assumes rd: "reader rd" and inv: "page_inv s fl p" and a: "page_addr a"
    and iv: "pte_of (mem s) (p_pagetable p) a AND PTE_V = 0"
  obtains r s' p' fl' where "load_new_page rd s p a w (swap_slot_from p a 0) si = Ret (r, s', p')"
    "page_inv s' fl' p'" "pager_frame p p'" "r = 0 \<or> r = -1" "keeps_pages s fl p s' p' a"
    "r = 0 \<Longrightarrow> page_loaded rd p a w si s' p'" "r = 0 \<Longrightarrow> evicts_oldest s p s' p'"
proof -
  let ?root = "p_pagetable p" and ?slt = "swap_slot_from p a 0"
  have sl: "slot_of p a ?slt" using inv by (intro slot_of_swap_slot) (simp add: page_inv_def lists_inv_def)
  show ?thesis
  proof (cases rule: get_frame_spec [OF inv])
    case (1 l sl)
    have "keeps_pages s fl p (s\<lparr>klog := l\<rparr>) (p\<lparr>p_swap_slots := sl\<rparr>) a" by (simp add: keeps_pages_def)
    moreover have "page_inv (s\<lparr>klog := l\<rparr>) fl (p\<lparr>p_swap_slots := sl\<rparr>)"
      using inv lists_inv_slots [OF _ 1(2)] by (simp add: page_inv_def)
    ultimately show ?thesis using that [of "-1"] 1(1) by (simp add: load_new_page_eq)
  next
    case (2 x s1 p1 fl1)
    note M = made_room_facts [OF inv a iv 2(8)]
    have pt: "p_pagetable p1 = ?root" "p_lazy_segs p1 = p_lazy_segs p" using pager_frame_fields [OF 2(6)] by simp_all
    have al: "aligned 12 x" using 2(4) by (simp add: fresh_frame_def phys_page_def)
    define s2 where "s2 = s1\<lparr>mem := memset (mem s1) x 0 4096\<rparr>"
    note Z = as_inv_fill [OF 2(3,4) same_page_memset [OF al], of 0]
    have S2: "as_inv s2 fl1 (p_pagetable p1)" "fresh_frame s2 fl1 (p_pagetable p1) x" "load_bytes (mem s2) x 4096 = replicate 4096 0"
      using Z(1,2) load_bytes_memset [OF al] pt by (auto simp: s2_def)
    have pte2: "pte_of (mem s2) ?root b = pte_of (mem s1) ?root b" for b using Z(3) by (simp add: s2_def)
    have up2: "upage s2 ?root b = upage s1 ?root b" if "page_addr b" for b
      unfolding s2_def by (rule upage_fill [OF 2(3,4) that same_page_memset [OF al]]) simp
    have L1: "lists_inv (pte_of (mem s2) (p_pagetable p1)) p1" "pte_of (mem s2) (p_pagetable p1) a AND PTE_V = 0"
      using 2(5) pte2 pt M(1) by (auto simp: lists_inv_def)
    have K2: "keeps_pages s fl p s2 p1 a" by (rule keeps_pages_step [OF M(2)]) (use up2 pt in auto)
    have pc: "page_loaded rd p1 a w si s' p' = page_loaded rd p a w si s' p'" for s' p'
      unfolding page_loaded_def page_contents_def page_perm_def M(4) pt by (rule refl)
    show ?thesis
    proof (rule fill_and_map_spec [OF rd S2 L1(1) 2(7) a L1(2) M(3) [OF sl], where w = w and si = si])
      fix r s' p' fl'
      assume R: "fill_and_map rd s2 p1 a w ?slt si x = Ret (r, s', p')" "page_inv s' fl' p'" "pager_frame p1 p'" "r = 0 \<or> r = -1"
        "\<And>b. page_addr b \<Longrightarrow> b \<noteq> a \<Longrightarrow> upage s' (p_pagetable p1) b = upage s2 (p_pagetable p1) b"
        "\<And>b. b \<noteq> a \<Longrightarrow> spage p' b = spage p1 b" "r = 0 \<Longrightarrow> page_loaded rd p1 a w si s' p'"
      have "load_new_page rd s p a w ?slt si = Ret (r, s', p')" using 2(1,2) R(1) by (simp add: load_new_page_eq s2_def)
      moreover have "keeps_pages s fl p s' p' a"
        by (rule keeps_pages_step [OF K2 R(5,6) pager_frame_fields(1) [OF R(3)]])
      moreover have "vpage s' p' b = vpage s1 p1 b" if "page_addr b" "b \<noteq> a" for b
        using R(5) [OF that] R(6) [OF that(2)] up2 [OF that(1)] pager_frame_fields(1) [OF R(3)] pt(1)
        by (simp add: vpage_def split: option.splits)
      then have "evicts_oldest s p s' p'" by (rule evicts_oldest_step [OF inv iv 2(8,7)])
      ultimately show ?thesis
        using that [OF _ R(2) pager_frame_trans [OF 2(6) R(3)] R(4)] R(7) pc by blast
    qed
  qed
qed

subsection \<open>A fault on a mapped page\<close>

lemma map_update_key: "f y = f (xs ! i) \<Longrightarrow> map f (xs[i := y]) = map f xs"
  by (metis list_update_beyond list_update_id map_update not_le nth_map)

lemma mark_dirty_from_spec:
  assumes "length (p_resident_pages p) = 256" "p_num_resident p \<le> 256"
  shows "\<exists>rs. mark_dirty_from p a i = p\<lparr>p_resident_pages := rs\<rparr> \<and> length rs = 256 \<and>
    map rp_va (resident (mark_dirty_from p a i)) = map rp_va (resident p) \<and>
    map rp_seq (resident (mark_dirty_from p a i)) = map rp_seq (resident p)"
  using assms
proof (induction p a i rule: mark_dirty_from.induct)
  case (1 p a i)
  show ?case
  proof (cases "i < p_num_resident p")
    case lt: True
    show ?thesis
    proof (cases "rp_va (p_resident_pages p ! i) = a")
      case True
      let ?e = "(p_resident_pages p ! i)\<lparr>rp_is_dirty := 1\<rparr>"
      show ?thesis
        using lt True 1(2) map_update_key [of rp_va ?e "p_resident_pages p" i] map_update_key [of rp_seq ?e "p_resident_pages p" i]
        by (subst (1 2 3) mark_dirty_from.simps) (auto simp: resident_def simp flip: take_map)
    next
      case False
      then show ?thesis using 1 lt by (subst (1 2 3) mark_dirty_from.simps) simp
    qed
  next
    case False
    then show ?thesis using 1(2) by (subst (1 2 3) mark_dirty_from.simps) (auto intro!: exI [of _ "p_resident_pages p"])
  qed
qed

lemma mark_dirty_facts:
  assumes "page_inv s fl p" "q = mark_dirty_from p a i"
  shows "page_inv s fl q" "pager_frame p q" "vpage s q b = vpage s p b"
proof -
  have L: "rset_inv p" "lists_inv (pte_of (mem s) (p_pagetable p)) p" using assms by (simp_all add: page_inv_def lists_inv_def)
  obtain rs where q: "q = p\<lparr>p_resident_pages := rs\<rparr>" "length rs = 256" "map rp_va (resident q) = map rp_va (resident p)"
    using mark_dirty_from_spec [of p a i] L(1) assms(2) by (auto simp: rset_inv_def)
  have sw: "swapped q = swapped p" by (simp add: q(1) swapped_def)
  show "vpage s q b = vpage s p b" unfolding vpage_def spage_def sw by (simp add: q(1))
  have "pager_frame p (p\<lparr>p_resident_pages := rs, p_num_resident := p_num_resident p\<rparr>)" by (rule pager_frame_resident)
  then show "pager_frame p q" by (simp add: q(1))
  have "rp_va ` set (resident q) = rp_va ` set (resident p)" using q(3) by (metis list.set_map)
  moreover have "(\<forall>e \<in> set r. P (rp_va e)) = (\<forall>v \<in> rp_va ` set r. P v)" for r P by simp
  ultimately have all: "(\<forall>e \<in> set (resident q). P (rp_va e)) = (\<forall>e \<in> set (resident p). P (rp_va e))" for P by metis
  have "rset_inv q" using L(1) q(2,3) by (simp add: rset_inv_def) (simp add: q(1))
  moreover have "swap_inv q" using L(2) sw by (simp add: lists_inv_def swap_inv_def) (simp add: q(1))
  ultimately have "lists_inv (pte_of (mem s) (p_pagetable p)) q"
    using L(2) all [of "\<lambda>v. page_addr v \<and> user_pte (pte_of (mem s) (p_pagetable p) v)"]
    by (simp add: lists_inv_def sw) (simp add: q(1))
  then show "page_inv s fl q" using assms(1) by (simp add: page_inv_def) (simp add: q(1))
qed

section \<open>The handler\<close>

lemma swap_slot_neg:
  assumes "swap_inv p"
  shows "swap_slot_from p a 0 < 0 \<longleftrightarrow> spage p a = None"
proof (rule swap_slot_cases [OF assms, of a])
  assume "swap_slot_from p a 0 = -1" "a \<notin> sp_va ` set (swapped p)"
  then show ?thesis using spage_None by simp
next
  fix e assume "e \<in> set (swapped p)" "sp_va e = a" "swap_slot_from p a 0 = sp_slot e" "0 \<le> sp_slot e"
  then show ?thesis using spage_entry [OF assms, of e] by simp
qed

text \<open>The segment the handler loads from: none for a page that is in swap.\<close>

definition fault_segment :: "proc \<Rightarrow> uint64 \<Rightarrow> int" where
  "fault_segment p va = (if spage p (PGROUNDDOWN va) = None then lazy_seg_find p va else -1)"

definition fault_allowed :: "proc \<Rightarrow> uint64 \<Rightarrow> bool" where
  "fault_allowed p va \<longleftrightarrow> fault_segment p va \<ge> 0 \<or> spage p (PGROUNDDOWN va) \<noteq> None \<or>
     in_heap p (PGROUNDDOWN va) \<or> in_stack p (PGROUNDDOWN va)"

lemma walk_pte_valid:
  assumes "pt_inv s fl root" "a < MAXVA"
  obtains pte where "walk s root a False = Ret (pte, s)"
    "(pte \<noteq> 0 \<and> load64 (mem s) pte AND PTE_V \<noteq> 0) = (pte_of (mem s) root a AND PTE_V \<noteq> 0)"
    "pte \<noteq> 0 \<Longrightarrow> load64 (mem s) pte = pte_of (mem s) root a"
proof (cases "node (mem s) root (vpath 2 a)")
  case None
  then show ?thesis
    by (intro that [of 0]) (simp_all add: walk_noalloc [OF assms(2)] pte_of_def)
next
  case (Some u)
  then show ?thesis
    using node_nonnull [OF assms(1) Some]
    by (intro that [of "slot u (PX 0 a)"]) (simp_all add: walk_noalloc [OF assms(2)] pte_of_def)
qed

lemma PGROUNDDOWN_page_addr:
  assumes "va < MAXVA"
  shows "page_addr (PGROUNDDOWN va)"
proof -
  have "PGROUNDDOWN va \<le> va" by (simp add: PGROUNDDOWN_def word_and_le2)
  then show ?thesis using assms by (simp add: page_addr_def PGROUNDDOWN_align)
qed

lemma mem_kprintf [simp]: "mem (kprintf s e) = mem s"
  by (simp add: kprintf_def)

lemma page_inv_kprintf [simp]: "page_inv (kprintf s e) fl p = page_inv s fl p"
  by (simp add: page_inv_def kprintf_def)

lemma demand_page_load_cases:
  assumes rd: "reader rd" and inv: "page_inv s fl p" and va: "va < MAXVA"
  obtains
    (mapped) "pte_of (mem s) (p_pagetable p) (PGROUNDDOWN va) AND PTE_V \<noteq> 0"
      "demand_page_load_new rd s p va w x =
         (if w \<and> pte_of (mem s) (p_pagetable p) (PGROUNDDOWN va) AND PTE_W = 0 then Ret (-1, s, p)
          else Ret (0, s, if w then mark_dirty_from p (PGROUNDDOWN va) 0 else p))"
  | (invalid) l where "pte_of (mem s) (p_pagetable p) (PGROUNDDOWN va) AND PTE_V = 0" "\<not> fault_allowed p va"
      "demand_page_load_new rd s p va w x = Ret (-1, s\<lparr>klog := l\<rparr>, p)"
  | (load) ev where "pte_of (mem s) (p_pagetable p) (PGROUNDDOWN va) AND PTE_V = 0" "fault_allowed p va"
      "demand_page_load_new rd s p va w x =
         load_new_page rd (kprintf s ev) p (PGROUNDDOWN va) w (swap_slot_from p (PGROUNDDOWN va) 0) (fault_segment p va)"
proof -
  let ?a = "PGROUNDDOWN va" and ?root = "p_pagetable p"
  have pt: "pt_inv s fl ?root" "swap_inv p"
    using inv as_invD(2) by (auto simp: page_inv_def lists_inv_def)
  have al: "?a < MAXVA" using PGROUNDDOWN_page_addr [OF va] by (simp add: page_addr_def)
  obtain pte where pte: "walk s ?root ?a False = Ret (pte, s)"
      "(pte \<noteq> 0 \<and> load64 (mem s) pte AND PTE_V \<noteq> 0) = (pte_of (mem s) ?root ?a AND PTE_V \<noteq> 0)"
      "pte \<noteq> 0 \<Longrightarrow> load64 (mem s) pte = pte_of (mem s) ?root ?a"
    by (rule walk_pte_valid [OF pt(1) al]) blast
  let ?slt = "swap_slot_from p ?a 0" and ?si = "fault_segment p va"
  have si: "(if ?slt < 0 then lazy_seg_find p va else -1) = ?si" by (simp add: swap_slot_neg [OF pt(2)] fault_segment_def)
  have ok: "is_valid_fault p ?a ?slt ?si = fault_allowed p va"
    using swap_slot_neg [OF pt(2), of ?a] by (auto simp: is_valid_fault_def fault_allowed_def not_less)
  have nva: "(va \<ge> MAXVA) = False" using va by simp
  have "demand_page_load_new rd s p va w x =
      (if pte \<noteq> 0 \<and> load64 (mem s) pte AND PTE_V \<noteq> 0 then
         if w then if load64 (mem s) pte AND PTE_W = 0 then Ret (-1, s, p) else Ret (0, s, mark_dirty_from p ?a 0)
         else Ret (0, s, p)
       else if \<not> fault_allowed p va
         then Ret (-1, kprintf (kprintf s (PAGEFAULT (p_pid p) va (access_type w x) (fault_cause p ?a ?slt ?si)))
                (INVALID_ACCESS (p_pid p) va (access_type w x)), p)
       else load_new_page rd (kprintf s (PAGEFAULT (p_pid p) va (access_type w x) (fault_cause p ?a ?slt ?si))) p ?a w ?slt ?si)"
    by (simp only: demand_page_load_new_def Let_def nva if_False pte(1) rbind_simps prod.case si ok)
  then show ?thesis
    using pte(2,3) mapped invalid load unfolding kprintf_def by (auto split: if_splits)
qed

subsection \<open>Success when memory is left\<close>

definition segment_complete :: "file_reader \<Rightarrow> lazy_seg \<Rightarrow> uint64 \<Rightarrow> bool" where
  "segment_complete rd seg a \<longleftrightarrow>
     (let off = a - seg_vaddr seg in
      off < seg_filesz seg \<longrightarrow> of_nat (length (seg_bytes rd seg a)) = min PGSIZE (seg_filesz seg - off))"

lemma load_segment_ok: "segment_complete rd seg a \<Longrightarrow> fst (load_segment rd s seg a x)"
  by (auto simp: segment_complete_def load_segment_def seg_bytes_def Let_def min_def not_less split: if_splits)

lemma fill_frame_ok:
  assumes "as_inv s fl (p_pagetable p)" "fresh_frame s fl (p_pagetable p) x" "rset_inv p" "swap_inv p" "slot_of p a slt"
    and "si \<ge> 0 \<Longrightarrow> segment_complete rd (p_lazy_segs p ! nat si) a"
  shows "\<exists>pm s' p'. fill_frame rd s p a slt si x = Ret (Some pm, s', p')"
proof (cases "slt < 0")
  case False
  then obtain e where e: "e \<in> set (swapped p)" "sp_va e = a" "sp_slot e = slt" "0 \<le> sp_slot e"
    using assms(5) by (auto simp: slot_of_def)
  show ?thesis using fill_frame_swap [OF assms(1-4) e(1,4), of rd si] unfolding e(2,3) by blast
next
  case True
  then show ?thesis
    using assms(6) load_segment_ok [of rd "p_lazy_segs p ! nat si" a s x]
    by (auto simp: fill_frame_def Let_def split: prod.splits)
qed

lemma load_new_page_succeeds:
  assumes rd: "reader rd" and inv: "page_inv s fl p" and a: "page_addr a"
    and iv: "pte_of (mem s) (p_pagetable p) a AND PTE_V = 0"
    and room: "p_num_resident p < MAX_RESIDENT_PAGES" "3 \<le> length fl"
    and seg: "si \<ge> 0 \<Longrightarrow> segment_complete rd (p_lazy_segs p ! nat si) a"
  shows "\<exists>s' p'. load_new_page rd s p a w (swap_slot_from p a 0) si = Ret (0, s', p')"
proof -
  let ?root = "p_pagetable p" and ?slt = "swap_slot_from p a 0"
  have I: "as_inv s fl ?root" "lists_inv (pte_of (mem s) ?root) p" "rset_inv p" "swap_inv p"
    using inv by (simp_all add: page_inv_def lists_inv_def)
  have sl: "slot_of p a ?slt" by (rule slot_of_swap_slot [OF I(4)])
  obtain x fl' where fl: "fl = x # fl'" "2 \<le> length fl'" using room(2) by (cases fl) auto
  obtain s1 where s1: "kalloc s = (x, s1)" "x \<noteq> 0" "as_inv s1 fl' ?root" "fresh_frame s1 fl' ?root x"
    "\<And>va. pte_of (mem s1) ?root va = pte_of (mem s) ?root va"
    by (rule upage_kalloc [OF I(1) [unfolded fl(1)]]) blast
  have al: "aligned 12 x" using s1(4) by (simp add: fresh_frame_def phys_page_def)
  define s2 where "s2 = s1\<lparr>mem := memset (mem s1) x 0 4096\<rparr>"
  note Z = as_inv_fill [OF s1(3,4) same_page_memset [OF al], of 0]
  have S2: "as_inv s2 fl' ?root" "fresh_frame s2 fl' ?root x" "load_bytes (mem s2) x 4096 = replicate 4096 0"
    using Z(1,2) load_bytes_memset [OF al] by (auto simp: s2_def)
  have pte2: "pte_of (mem s2) ?root b = pte_of (mem s) ?root b" for b using Z(3) s1(5) by (simp add: s2_def)
  obtain s3 p3 where f: "fill_frame rd s2 p a ?slt si x = Ret (Some (page_perm p a si), s3, p3)" "filled rd s2 fl' p a si x s3 p3"
    using fill_frame_ok [OF S2(1,2) I(3,4) sl seg] fill_frame_spec [OF rd S2(1,2) I(3,4) sl S2(3), where si = si] by fastforce
  have L2: "lists_inv (pte_of (mem s2) ?root) p" using I(2) pte2 by (simp add: lists_inv_def)
  have F: "as_inv s3 fl' ?root" "pte_of (mem s3) ?root a AND PTE_V = 0" "p_pagetable p3 = ?root" "p_num_resident p3 < MAX_RESIDENT_PAGES"
    using f(2) iv pte2 room(1) pager_frame_fields(1) by (auto simp: filled_def)
  note L3 = lists_inv_filled [OF L2 f(2)]
  have "\<exists>s'. mappages s3 ?root a PGSIZE x (page_perm p a si) = Ret (0, s')"
    by (rule mappages_page_room [OF as_invD(1,2) [OF F(1)]]) (use a F(2) fl(2) in \<open>auto simp: page_addr_def\<close>)
  then have "\<exists>s' p'. fill_and_map rd s2 p a w ?slt si x = Ret (0, s', p')"
    using map_filled_page [OF f(2) a F(2) L3 F(4), where w = w] f(1) F(3) by (fastforce simp: fill_and_map_def)
  then show ?thesis using room(1) s1(1,2) by (simp add: load_new_page_eq get_frame_def s2_def)
qed

lemma handler_preserves:
  assumes rd: "reader rd" and inv: "page_inv s fl p"
  shows "\<exists>r s' p' fl'. demand_page_load_new rd s p va w x = Ret (r, s', p') \<and> (r = 0 \<or> r = -1) \<and>
    page_inv s' fl' p' \<and> pager_frame p p' \<and> keeps_pages s fl p s' p' (PGROUNDDOWN va)"
proof (cases "va < MAXVA")
  case False
  then have "va \<ge> MAXVA" by (simp add: not_less)
  then have "demand_page_load_new rd s p va w x = Ret (-1, s, p)" by (simp add: demand_page_load_new_def)
  then show ?thesis using inv by (auto simp: keeps_pages_def)
next
  case True
  let ?a = "PGROUNDDOWN va"
  show ?thesis
  proof (cases rule: demand_page_load_cases [OF rd inv True, where w = w and x = x])
    case 1
    have "page_inv s fl (if w then mark_dirty_from p ?a 0 else p)"
      "pager_frame p (if w then mark_dirty_from p ?a 0 else p)"
      "keeps_pages s fl p s (if w then mark_dirty_from p ?a 0 else p) ?a"
      using inv mark_dirty_facts [OF inv refl] by (auto simp: keeps_pages_def)
    moreover have "keeps_pages s fl p s p ?a" by (simp add: keeps_pages_def)
    ultimately show ?thesis using 1(2) inv by (cases "w \<and> pte_of (mem s) (p_pagetable p) ?a AND PTE_W = 0") auto
  next
    case (2 l)
    then show ?thesis using inv by (auto simp: keeps_pages_def page_inv_def)
  next
    case (3 ev)
    have iv: "page_inv (kprintf s ev) fl p" "pte_of (mem (kprintf s ev)) (p_pagetable p) ?a AND PTE_V = 0"
      using inv 3(1) by simp_all
    have "keeps_pages (kprintf s ev) fl p s' p' ?a = keeps_pages s fl p s' p' ?a" for s' p'
      by (simp add: keeps_pages_def kprintf_def)
    then show ?thesis
      using load_new_page_spec [OF rd iv(1) PGROUNDDOWN_page_addr [OF True] iv(2), where w = w and si = "fault_segment p va"] 3(3)
      by metis
  qed
qed

lemma handler_loads:
  assumes rd: "reader rd" and inv: "page_inv s fl p"
    and iv: "pte_of (mem s) (p_pagetable p) (PGROUNDDOWN va) AND PTE_V = 0"
    and ok: "demand_page_load_new rd s p va w x = Ret (0, s', p')"
  shows "fault_allowed p va \<and> page_loaded rd p (PGROUNDDOWN va) w (fault_segment p va) s' p' \<and>
    evicts_oldest s p s' p'"
proof -
  have va: "va < MAXVA" using ok by (auto simp: demand_page_load_new_def not_less [symmetric] split: if_splits)
  let ?a = "PGROUNDDOWN va"
  show ?thesis
  proof (cases rule: demand_page_load_cases [OF rd inv va, where w = w and x = x])
    case (3 ev)
    have iv': "page_inv (kprintf s ev) fl p" "pte_of (mem (kprintf s ev)) (p_pagetable p) ?a AND PTE_V = 0"
      using inv 3(1) by simp_all
    have "evicts_oldest (kprintf s ev) p s' p' = evicts_oldest s p s' p'" by (simp add: evicts_oldest_def kprintf_def)
    then show ?thesis
      using load_new_page_spec [OF rd iv'(1) PGROUNDDOWN_page_addr [OF va] iv'(2), where w = w and si = "fault_segment p va"]
        3(2,3) ok by (metis prod.inject res.inject(2))
  qed (use iv ok in auto)
qed

lemma handler_succeeds:
  assumes rd: "reader rd" and inv: "page_inv s fl p" and va: "va < MAXVA" "fault_allowed p va"
    and iv: "pte_of (mem s) (p_pagetable p) (PGROUNDDOWN va) AND PTE_V = 0"
    and room: "p_num_resident p < MAX_RESIDENT_PAGES" "3 \<le> length fl"
    and seg: "fault_segment p va \<ge> 0 \<longrightarrow>
      segment_complete rd (p_lazy_segs p ! nat (fault_segment p va)) (PGROUNDDOWN va)"
  shows "\<exists>s' p'. demand_page_load_new rd s p va w x = Ret (0, s', p')"
proof (cases rule: demand_page_load_cases [OF rd inv va(1), where w = w and x = x])
  case (3 ev)
  have iv': "page_inv (kprintf s ev) fl p" "pte_of (mem (kprintf s ev)) (p_pagetable p) (PGROUNDDOWN va) AND PTE_V = 0"
    using inv iv by simp_all
  show ?thesis
    using load_new_page_succeeds [OF rd iv'(1) PGROUNDDOWN_page_addr [OF va(1)] iv'(2) room, where si = "fault_segment p va" and w = w]
      3(3) seg by simp
qed (use iv va(2) in auto)

end
