(* ===== verification/Pager_Props.thy ===== *)
theory Pager_Props
  imports Pager
begin

text \<open>
  The properties of the page-fault handler, with witnesses on a small machine.
\<close>

section \<open>Properties\<close>


text \<open>
  C2: when the handler returns 0 for a page that was not mapped, the access was allowed (in a
  segment of the executable, the heap, the stack, or in swap) and the page is now mapped and
  the newest resident.  Its contents are the swapped data, the file bytes of its segment
  padded with zeros, or zeros, and its permissions are those of the segment, or read, write
  and execute for swapped, heap and stack pages.  It is dirty exactly if the access was a write.
  If 40 pages were resident, one with the smallest sequence number was evicted.
\<close>

theorem demand_page_load_contents:
  assumes rd: "reader rd" and inv: "page_inv s fl p"
    and iv: "pte_of (mem s) (p_pagetable p) (PGROUNDDOWN va) AND PTE_V = 0"
    and ok: "demand_page_load_new rd s p va w x = Ret (0, s', p')"
  shows "fault_allowed p va \<and> page_loaded rd p (PGROUNDDOWN va) w (fault_segment p va) s' p' \<and>
    evicts_oldest s p s' p'"
  using handler_loads [OF assms] by blast


text \<open>
  C5: a page that is not a clean oldest page survives page replacement.  After a fault on
  another page, page \<open>b\<close> is still mapped with the contents it had, or it is not mapped and
  the next fault on it, if it is served, maps those contents again.
\<close>

theorem swap_round_trip:
  assumes rd: "reader rd" and inv: "page_inv s fl p" and b: "page_addr b" "b \<noteq> PGROUNDDOWN va"
    and d: "upage s (p_pagetable p) b = Some d" "\<not> clean_victim p b"
  shows "\<exists>r s1 p1. demand_page_load_new rd s p va w x = Ret (r, s1, p1) \<and>
    (if pte_of (mem s1) (p_pagetable p1) b AND PTE_V \<noteq> 0 then upage s1 (p_pagetable p1) b = Some d
     else \<exists>r' s2 p2. demand_page_load_new rd s1 p1 b w' x' = Ret (r', s2, p2) \<and>
       (r' = 0 \<longrightarrow> upage s2 (p_pagetable p2) b = Some d))"
proof -
  obtain r s1 p1 fl1 where s1: "demand_page_load_new rd s p va w x = Ret (r, s1, p1)" "page_inv s1 fl1 p1" "pager_frame p p1"
    "keeps_pages s fl p s1 p1 (PGROUNDDOWN va)" using handler_preserves [OF rd inv, of va w x] by auto
  have b': "PGROUNDDOWN b = b" by (rule page_addr_eq [OF b(1)])
  have v: "vpage s1 p1 b = Some d" using s1(4) b d unfolding keeps_pages_def vpage_def by fastforce
  show ?thesis
  proof (cases "pte_of (mem s1) (p_pagetable p1) b AND PTE_V \<noteq> 0")
    case True
    then have "b \<notin> sp_va ` set (swapped p1)" using s1(2) by (auto simp: page_inv_def lists_inv_def)
    then have "upage s1 (p_pagetable p1) b = Some d"
      using v spage_None by (simp add: vpage_def split: option.splits)
    then show ?thesis using s1(1) True by auto
  next
    case False
    then have "upage s1 (p_pagetable p1) b = None" by (auto simp: upage_def dest: user_pte_valid)
    then have "spage p1 b = Some d" using v by (simp add: vpage_def)
    then have pc: "page_contents rd p1 b si = d" for si by (simp add: page_contents_def)
    obtain r' s2 p2 where s2: "demand_page_load_new rd s1 p1 b w' x' = Ret (r', s2, p2)" "pager_frame p1 p2"
      using handler_preserves [OF rd s1(2), of b w' x'] by auto
    have "upage s2 (p_pagetable p2) b = Some d" if "r' = 0"
      using handler_loads [OF rd s1(2), of b w' x' s2 p2] False s2 that pc b' pager_frame_fields(1) [OF s2(2)]
      by (simp add: page_loaded_def)
    then show ?thesis using s1(1) s2(1) False by auto
  qed
qed

text \<open>
  C3: what page replacement does, with the resident pages in FIFO order.  The victim is the
  first of the queue.  A dirty victim that finds swap full (all 1024 slots used, or all 8
  page buffers) makes it fail with memory unchanged.  Otherwise it delivers a frame, the
  victim leaves the queue, and every other page keeps its contents; the victim's contents
  are in swap if it was marked dirty, and are gone if it was not.  The mark is only set by
  a fault and every heap and stack page is mapped writable, so what a process wrote to a
  page it first read is lost here.
\<close>

theorem replace_page_outcome:
  assumes inv: "page_inv s fl p" "fifo_inv p" and q: "resident p = v # rest"
  shows "\<exists>x s' p'. replace_page s p = Ret (x, s', p') \<and>
    (if rp_is_dirty v \<noteq> 0 \<and> swap_full p then x = 0 \<and> mem s' = mem s
     else x \<noteq> 0 \<and> resident p' = rest \<and>
       (\<forall>b. page_addr b \<longrightarrow> b \<noteq> rp_va v \<longrightarrow> vpage s' p' b = vpage s p b) \<and>
       vpage s' p' (rp_va v) = (if rp_is_dirty v \<noteq> 0 then vpage s p (rp_va v) else None))"
proof -
  have ri: "rset_inv p" using inv(1) by (simp add: page_inv_def lists_inv_def)
  have n: "0 < p_num_resident p" using q length_resident [OF ri] by auto
  have v: "p_resident_pages p ! nat (find_victim_page p) = v"
    using fifo_victim_first [OF ri inv(2)] nth_resident [OF n] q by simp
  have rest: "filter (\<lambda>e. rp_va e \<noteq> rp_va v) (resident p) = rest"
    using filter_other_pages [of v rest] ri q by (simp add: rset_inv_def)
  show ?thesis
  proof (cases rule: replace_page_spec [OF inv(1)])
    case (1 l sl)
    then show ?thesis using v q by auto
  next
    case (2 x s' p' v')
    have "v' = v" using 2(11) v by simp
    then show ?thesis using 2(1,2,10,12) rest by (auto simp: evicted_def)
  qed
qed

section \<open>Witnesses\<close>

definition to_machine :: "kmem \<Rightarrow> machine" where
  "to_machine s = \<lparr>mem = mem s, freelist = freelist s, kend = kend s, klog = []\<rparr>"

lemma mem_to_machine [simp]: "mem (to_machine s) = mem s"
  by (simp add: to_machine_def)

lemma as_inv_to_machine_iff: "as_inv (to_machine s) fl root = as_inv s fl root"
  unfolding as_inv_def pt_inv_def kmem_inv_def phys_page_def to_machine_def by simp

lemmas as_inv_to_machine = as_inv_to_machine_iff [THEN iffD2]

text \<open>The process of the earlier witnesses, before any page became resident and with one page.\<close>

definition fresh_proc :: proc where
  "fresh_proc = demo_proc\<lparr>p_pagetable := demo_root, p_num_resident := 0\<rparr>"

definition one_page_proc :: proc where
  "one_page_proc = demo_proc\<lparr>p_pagetable := demo_root,
     p_resident_pages := replicate 256 \<lparr>rp_va = 0x1000, rp_seq = 1, rp_is_dirty = 1, rp_swap_slot = -1\<rparr>\<rparr>"

definition no_file :: file_reader where
  "no_file ip off n = []"

lemma reader_no_file: "reader no_file"
  by (simp add: reader_def no_file_def)

lemma fresh_proc_facts:
  "p_pagetable fresh_proc = demo_root" "p_num_resident fresh_proc = 0" "resident fresh_proc = []" "swapped fresh_proc = []"
  "rset_inv fresh_proc" "swap_inv fresh_proc"
  by (simp_all add: fresh_proc_def demo_proc_def resident_def swapped_def rset_inv_def swap_inv_def)

lemma fresh_page_inv: "page_inv (to_machine demo_kmem) [0x80100000, 0x80102000] fresh_proc"
  using as_inv_to_machine [OF demo_as_inv] fresh_proc_facts by (simp add: page_inv_def lists_inv_def)


text \<open>Three free pages: the first fault of the process is served.\<close>

lemma demo_room:
  obtains s fl where "page_inv s fl fresh_proc" "length fl = 3" "\<And>va. pte_of (mem (s :: machine)) demo_root va = 0"
proof -
  let ?s = "to_machine demo_kmem" and ?fl = "[0x80100000, 0x80102000] :: uint64 list"
  have fr: "fresh_frame ?s ?fl demo_root 0x80106000"
    using demo_fresh unfolding fresh_frame_def phys_page_def to_machine_def by simp
  obtain s1 where "kfree ?s 0x80106000 = Ret s1" "as_inv s1 (0x80106000 # ?fl) demo_root"
    "\<And>va. pte_of (mem s1) demo_root va = pte_of (mem ?s) demo_root va"
    by (rule upage_kfree [OF as_inv_to_machine [OF demo_as_inv] fr]) blast
  then show ?thesis
    using that [of s1 "0x80106000 # ?fl"] fresh_proc_facts by (simp add: page_inv_def lists_inv_def demo_pte_of)
qed

lemma heap_fault: "fault_allowed fresh_proc 0x4008" "fault_segment fresh_proc 0x4008 = -1"
  "PGROUNDDOWN 0x4008 = 0x4000" "(0x4008 :: uint64) < MAXVA" "spage fresh_proc 0x4000 = None"
proof -
  show pg: "PGROUNDDOWN 0x4008 = 0x4000" by (simp add: PGROUNDDOWN_def PGSIZE_def)
  show sp: "spage fresh_proc 0x4000 = None" by (simp add: spage_def fresh_proc_facts)
  have "lazy_seg_find fresh_proc 0x4008 = -1"
    by (simp add: lazy_seg_find_def fresh_proc_def demo_proc_def lazy_seg_from.simps)
  then show seg: "fault_segment fresh_proc 0x4008 = -1" by (simp add: fault_segment_def pg sp)
  have "in_heap fresh_proc 0x4000"
    by (simp add: in_heap_def fresh_proc_def demo_proc_def PGROUNDDOWN_def PGSIZE_def)
  then show "fault_allowed fresh_proc 0x4008" by (simp add: fault_allowed_def seg pg)
qed (simp add: MAXVA_def)

lemma demo_fault:
  obtains s fl s' p' where "page_inv (s :: machine) fl fresh_proc" "pte_of (mem s) demo_root 0x4000 = 0" "length fl = 3"
    "demand_page_load_new no_file s fresh_proc 0x4008 True False = Ret (0, s', p')"
proof -
  obtain s fl where s: "page_inv (s :: machine) fl fresh_proc" "length fl = 3" "\<And>va. pte_of (mem s) demo_root va = 0"
    by (rule demo_room) blast
  then show ?thesis
    using handler_succeeds [OF reader_no_file s(1) heap_fault(4,1), of True False] heap_fault fresh_proc_facts that
    by (auto simp: MAX_RESIDENT_PAGES_def)
qed

theorem demand_page_load_contents_witness:
  "\<exists>s s' p'. demand_page_load_new no_file (s :: machine) fresh_proc 0x4008 True False = Ret (0, s', p') \<and>
    upage s' demo_root 0x4000 = Some (replicate 4096 0)"
proof (rule demo_fault)
  fix s :: machine and fl s' p'
  assume s: "page_inv s fl fresh_proc" "pte_of (mem s) demo_root 0x4000 = 0"
    "demand_page_load_new no_file s fresh_proc 0x4008 True False = Ret (0, s', p')"
  have "page_loaded no_file fresh_proc 0x4000 True (-1) s' p'"
    using demand_page_load_contents [OF reader_no_file s(1) _ s(3)] s(2) heap_fault fresh_proc_facts(1) by simp
  then show ?thesis using s(3) heap_fault(5) fresh_proc_facts(1) by (auto simp: page_loaded_def page_contents_def)
qed


text \<open>One dirty resident page.\<close>

lemma one_page_facts:
  "p_pagetable one_page_proc = demo_root" "p_num_resident one_page_proc = 1" "swapped one_page_proc = []"
  "resident one_page_proc = [\<lparr>rp_va = 0x1000, rp_seq = 1, rp_is_dirty = 1, rp_swap_slot = -1\<rparr>]"
  "rset_inv one_page_proc" "fifo_inv one_page_proc" "swap_inv one_page_proc" "\<not> swap_full one_page_proc"
  by (simp_all add: one_page_proc_def demo_proc_def resident_def swapped_def rset_inv_def swap_inv_def fifo_inv_def swap_full_def
      exI [of _ 0])

lemma one_page_inv:
  obtains s fl where "page_inv (s :: machine) fl one_page_proc" "user_pte (pte_of (mem s) demo_root 0x1000)"
    "pte_of (mem s) demo_root 0x1000 AND PTE_W \<noteq> 0"
proof (rule demo_mapped)
  fix s fl assume s: "as_inv (s :: kmem) fl demo_root" "pte_of (mem s) demo_root 0x1000 = PA2PTE 0x80106000 OR 0x16 OR PTE_V"
  have u: "user_pte (pte_of (mem s) demo_root 0x1000)"
    unfolding s(2) by (simp add: user_pte_def PA2PTE_def PTE_V_def PTE_U_def)
  have w: "pte_of (mem s) demo_root 0x1000 AND PTE_W \<noteq> 0"
    unfolding s(2) by (simp add: PA2PTE_def PTE_V_def PTE_W_def)
  have "page_addr 0x1000" using demo_aligned(1) by (simp add: page_addr_def MAXVA_def)
  with u have "page_inv (to_machine s) fl one_page_proc"
    using as_inv_to_machine [OF s(1)] one_page_facts by (simp add: page_inv_def lists_inv_def MAX_RESIDENT_PAGES_def)
  then show ?thesis using that u w by simp
qed

theorem swap_round_trip_witness:
  "\<exists>(s :: machine) d r s1 p1. upage s demo_root 0x1000 = Some d \<and>
    demand_page_load_new no_file s one_page_proc 0x4008 False False = Ret (r, s1, p1) \<and>
    (if pte_of (mem s1) (p_pagetable p1) 0x1000 AND PTE_V \<noteq> 0 then upage s1 (p_pagetable p1) 0x1000 = Some d
     else \<exists>r' s2 p2. demand_page_load_new no_file s1 p1 0x1000 False False = Ret (r', s2, p2) \<and>
       (r' = 0 \<longrightarrow> upage s2 (p_pagetable p2) 0x1000 = Some d))"
proof (rule one_page_inv)
  fix s :: machine and fl assume s: "page_inv s fl one_page_proc" "user_pte (pte_of (mem s) demo_root 0x1000)"
  obtain d where d: "upage s (p_pagetable one_page_proc) 0x1000 = Some d"
    using s(2) by (simp add: upage_def one_page_facts)
  have b: "page_addr 0x1000" "0x1000 \<noteq> PGROUNDDOWN 0x4008" using demo_aligned(1) heap_fault(3) by (simp_all add: page_addr_def MAXVA_def)
  have nc: "\<not> clean_victim one_page_proc 0x1000" by (auto simp: clean_victim_def oldest_def one_page_facts)
  show ?thesis
    using swap_round_trip [OF reader_no_file s(1) b d nc, of False False False False]
      d [unfolded one_page_facts] by blast
qed

theorem replace_page_outcome_witness:
  "\<exists>(s :: machine) x s' p'. replace_page s one_page_proc = Ret (x, s', p') \<and> x \<noteq> 0 \<and> resident p' = [] \<and>
    vpage s' p' 0x1000 = vpage s one_page_proc 0x1000"
proof (rule one_page_inv)
  fix s :: machine and fl assume s: "page_inv s fl one_page_proc"
  show ?thesis
    using replace_page_outcome [OF s one_page_facts(6,4)] one_page_facts(8) by auto
qed

end
