(* ===== verification/Bakery.thy ===== *)
theory Bakery
  imports Prelude
begin

text \<open>
  The bakery simulation of \<^verbatim>\<open>src/C/bakery.c\<close>.  All threads share one mutex, so what a thread
  does between two waits on a condition is one step: the program counter of a thread names
  the wait it is blocked in, and a step is \<open>None\<close> while the loop around that wait goes on.
  An array with a tail index is the list of the entries below the tail; the per-customer
  arrays are functions of the index.
\<close>

section \<open>State\<close>

definition MAX_CUSTOMERS :: nat where "MAX_CUSTOMERS = 25"
definition MAX_CHEFS :: nat where "MAX_CHEFS = 4"
definition MAX_SOFA :: nat where "MAX_SOFA = 4"
definition MAX_OVENS :: nat where "MAX_OVENS = 4"

datatype cust_pc =
    AwaitArrival | Entering int | Sitting int | Standing | AwaitCake | AwaitDone | Gone | Refused

datatype chef_pc =
    Starting | Looking int | Accepting int nat int | BakingFor int nat int | Exited

datatype timer_pc = Asleep | Stopped

record bakery =
  customers :: "(int \<times> int) list"
  current_time :: int
  customers_inside :: nat
  customers_finished :: nat
  sofa_count :: nat
  ovens_used :: nat
  cashier_free :: bool
  chefs_idle :: nat
  standing :: "nat list"
  standing_head :: nat
  on_sofa :: "nat list"
  waiting_payment :: "nat list"
  payment_head :: nat
  entered :: "nat \<Rightarrow> bool"
  seated :: "nat \<Rightarrow> bool"
  requested :: "nat \<Rightarrow> bool"
  request_time :: "nat \<Rightarrow> int"
  baking :: "nat \<Rightarrow> bool"
  ready_to_pay :: "nat \<Rightarrow> bool"
  paid :: "nat \<Rightarrow> bool"
  payment_time :: "nat \<Rightarrow> int"
  done_flag :: "nat \<Rightarrow> bool"
  simulation_done :: bool
  cust :: "nat \<Rightarrow> cust_pc"
  chef :: "nat \<Rightarrow> chef_pc"
  timer :: timer_pc
  printed :: "(int \<times> string \<times> int \<times> string \<times> int) list"

definition num_customers :: "bakery \<Rightarrow> nat" where
  "num_customers b = length (customers b)"

definition safe_print :: "bakery \<Rightarrow> string \<Rightarrow> int \<Rightarrow> string \<Rightarrow> int \<Rightarrow> bakery" where
  "safe_print b actor n action target =
     b\<lparr>printed := printed b @ [(current_time b, actor, n, action, target)]\<rparr>"

definition cust_says :: "bakery \<Rightarrow> nat \<Rightarrow> string \<Rightarrow> bakery" where
  "cust_says b i action = safe_print b ''Customer'' (fst (customers b ! i)) action (-1)"

section \<open>Customers\<close>

definition cust_arrive :: "bakery \<Rightarrow> nat \<Rightarrow> bakery" where
  "cust_arrive b i =
     (if customers_inside b \<ge> MAX_CUSTOMERS then b\<lparr>cust := (cust b)(i := Refused)\<rparr>
      else let b1 = b\<lparr>customers_inside := customers_inside b + 1, entered := (entered b)(i := True)\<rparr>
           in (cust_says b1 i ''enters'')\<lparr>cust := (cust b)(i := Entering (current_time b + 1))\<rparr>)"

definition cust_try_sit :: "bakery \<Rightarrow> nat \<Rightarrow> bakery" where
  "cust_try_sit b i =
     (if sofa_count b < MAX_SOFA then
        let b1 = b\<lparr>sofa_count := sofa_count b + 1, on_sofa := on_sofa b @ [i], seated := (seated b)(i := True)\<rparr>
        in (cust_says b1 i ''sits'')\<lparr>cust := (cust b)(i := Sitting (current_time b + 1))\<rparr>
      else b\<lparr>standing := standing b @ [i], cust := (cust b)(i := Standing)\<rparr>)"

definition cust_request :: "bakery \<Rightarrow> nat \<Rightarrow> bakery" where
  "cust_request b i =
     (cust_says (b\<lparr>requested := (requested b)(i := True), request_time := (request_time b)(i := current_time b)\<rparr>) i ''requests cake'')
       \<lparr>cust := (cust b)(i := AwaitCake)\<rparr>"

definition cust_pay :: "bakery \<Rightarrow> nat \<Rightarrow> bakery" where
  "cust_pay b i =
     (cust_says b i ''pays'')
       \<lparr>waiting_payment := waiting_payment b @ [i], paid := (paid b)(i := True),
        payment_time := (payment_time b)(i := current_time b), cust := (cust b)(i := AwaitDone)\<rparr>"

definition cust_leave :: "bakery \<Rightarrow> nat \<Rightarrow> bakery" where
  "cust_leave b i =
     (let b1 = (cust_says b i ''leaves'')
            \<lparr>customers_inside := customers_inside b - 1, customers_finished := customers_finished b + 1,
             sofa_count := sofa_count b - 1, cust := (cust b)(i := Gone)\<rparr>;
          b2 = (if standing_head b1 < length (standing b1) then
                  let sit_idx = standing b1 ! standing_head b1
                  in b1\<lparr>standing_head := standing_head b1 + 1, sofa_count := sofa_count b1 + 1,
                        on_sofa := on_sofa b1 @ [sit_idx], seated := (seated b1)(sit_idx := True)\<rparr>
                else b1)
      in if customers_finished b2 \<ge> num_customers b2 then b2\<lparr>simulation_done := True\<rparr> else b2)"

definition cust_sit :: "bakery \<Rightarrow> nat \<Rightarrow> bakery" where
  "cust_sit b i = (cust_says b i ''sits'')\<lparr>cust := (cust b)(i := Sitting (current_time b + 1))\<rparr>"

definition customer_step :: "bakery \<Rightarrow> nat \<Rightarrow> bakery option" where
  "customer_step b i = (case cust b i of
       AwaitArrival \<Rightarrow> if current_time b < snd (customers b ! i) then None else Some (cust_arrive b i)
     | Entering t \<Rightarrow> if current_time b < t then None else Some (cust_try_sit b i)
     | Standing \<Rightarrow> if \<not> seated b i then None
         else Some (cust_sit b i)
     | Sitting t \<Rightarrow> if current_time b < t then None else Some (cust_request b i)
     | AwaitCake \<Rightarrow> if \<not> ready_to_pay b i then None else Some (cust_pay b i)
     | AwaitDone \<Rightarrow> if \<not> done_flag b i then None else Some (cust_leave b i)
     | Gone \<Rightarrow> None
     | Refused \<Rightarrow> None)"

section \<open>Chefs, timer and main\<close>

definition wants_cake :: "bakery \<Rightarrow> nat \<Rightarrow> bool" where
  "wants_cake b i \<longleftrightarrow> requested b i \<and> \<not> baking b i \<and> \<not> ready_to_pay b i \<and> request_time b i < current_time b"

text \<open>The search of the sofa queue for the first request; the entry found leaves the queue.\<close>

fun find_request :: "bakery \<Rightarrow> nat list \<Rightarrow> (nat \<times> nat list) option" where
  "find_request b [] = None"
| "find_request b (i # q) =
     (if wants_cake b i then Some (i, q)
      else case find_request b q of None \<Rightarrow> None | Some (j, q') \<Rightarrow> Some (j, i # q'))"

definition chef_says :: "bakery \<Rightarrow> nat \<Rightarrow> string \<Rightarrow> nat \<Rightarrow> bakery" where
  "chef_says b k action i = safe_print b ''Chef'' (int k + 1) action (fst (customers b ! i))"

definition can_accept :: "bakery \<Rightarrow> bool" where
  "can_accept b \<longleftrightarrow> payment_head b < length (waiting_payment b) \<and> cashier_free b \<and> chefs_idle b > 0 \<and>
     payment_time b (waiting_payment b ! payment_head b) < current_time b"

definition chef_accept :: "bakery \<Rightarrow> nat \<Rightarrow> int \<Rightarrow> bakery" where
  "chef_accept b k last_t =
     (let i = waiting_payment b ! payment_head b
      in (chef_says b k ''accepts payment for'' i)
           \<lparr>payment_head := payment_head b + 1, cashier_free := False, chefs_idle := chefs_idle b - 1,
            chef := (chef b)(k := Accepting last_t i (current_time b + 2))\<rparr>)"

definition chef_bake :: "bakery \<Rightarrow> nat \<Rightarrow> int \<Rightarrow> bakery" where
  "chef_bake b k last_t =
     (case find_request b (on_sofa b) of
        None \<Rightarrow> b\<lparr>chef := (chef b)(k := Looking (current_time b))\<rparr>
      | Some (i, q) \<Rightarrow>
          let b1 = b\<lparr>on_sofa := q\<rparr> in
          if ovens_used b1 < MAX_OVENS \<and> chefs_idle b1 > 0 then
            (chef_says b1 k ''bakes for'' i)
              \<lparr>ovens_used := ovens_used b1 + 1, chefs_idle := chefs_idle b1 - 1, baking := (baking b1)(i := True),
               chef := (chef b1)(k := BakingFor last_t i (current_time b1 + 2))\<rparr>
          else b1\<lparr>chef := (chef b1)(k := Looking (current_time b1))\<rparr>)"

definition chef_step :: "bakery \<Rightarrow> nat \<Rightarrow> bakery option" where
  "chef_step b k = (case chef b k of
       Starting \<Rightarrow> Some (b\<lparr>chef := (chef b)(k := Looking (current_time b - 1))\<rparr>)
     | Looking last_t \<Rightarrow>
         if current_time b \<le> last_t \<and> \<not> simulation_done b then None
         else if simulation_done b \<and> customers_finished b \<ge> num_customers b
         then Some (b\<lparr>chef := (chef b)(k := Exited)\<rparr>)
         else if can_accept b then Some (chef_accept b k last_t)
         else Some (chef_bake b k last_t)
     | Accepting last_t i t \<Rightarrow>
         if current_time b < t then None
         else Some (b\<lparr>done_flag := (done_flag b)(i := True), cashier_free := True, chefs_idle := chefs_idle b + 1,
                      chef := (chef b)(k := Looking last_t)\<rparr>)
     | BakingFor last_t i t \<Rightarrow>
         if current_time b < t then None
         else Some (b\<lparr>ready_to_pay := (ready_to_pay b)(i := True), ovens_used := ovens_used b - 1,
                      chefs_idle := chefs_idle b + 1, chef := (chef b)(k := Looking last_t)\<rparr>)
     | Exited \<Rightarrow> None)"

definition timer_step :: "bakery \<Rightarrow> bakery option" where
  "timer_step b = (case timer b of
       Asleep \<Rightarrow> Some (b\<lparr>current_time := current_time b + 1,
                       timer := (if customers_finished b < num_customers b then Asleep else Stopped)\<rparr>)
     | Stopped \<Rightarrow> None)"

definition main_step :: "bakery \<Rightarrow> bakery option" where
  "main_step b =
     (if \<forall>i < num_customers b. cust b i = Gone \<or> cust b i = Refused then Some (b\<lparr>simulation_done := True\<rparr>) else None)"

definition bakery_init :: "(int \<times> int) list \<Rightarrow> bakery" where
  "bakery_init cs =
     \<lparr>customers = cs, current_time = (case cs of [] \<Rightarrow> 0 | c # _ \<Rightarrow> snd c), customers_inside = 0,
      customers_finished = 0, sofa_count = 0, ovens_used = 0, cashier_free = True, chefs_idle = MAX_CHEFS,
      standing = [], standing_head = 0, on_sofa = [], waiting_payment = [], payment_head = 0,
      entered = (\<lambda>_. False), seated = (\<lambda>_. False), requested = (\<lambda>_. False), request_time = (\<lambda>_. 0),
      baking = (\<lambda>_. False), ready_to_pay = (\<lambda>_. False), paid = (\<lambda>_. False), payment_time = (\<lambda>_. 0),
      done_flag = (\<lambda>_. False), simulation_done = False, cust = (\<lambda>_. AwaitArrival), chef = (\<lambda>_. Starting),
      timer = (if cs = [] then Stopped else Asleep), printed = []\<rparr>"

inductive bakery_step :: "bakery \<Rightarrow> bakery \<Rightarrow> bool" where
  Customer: "i < num_customers b \<Longrightarrow> customer_step b i = Some b' \<Longrightarrow> bakery_step b b'"
| Chef: "k < MAX_CHEFS \<Longrightarrow> chef_step b k = Some b' \<Longrightarrow> bakery_step b b'"
| Timer: "timer_step b = Some b' \<Longrightarrow> bakery_step b b'"
| Main: "main_step b = Some b' \<Longrightarrow> bakery_step b b'"

inductive_cases bakery_stepE: "bakery_step b b'"

inductive bakery_reachable :: "(int \<times> int) list \<Rightarrow> bakery \<Rightarrow> bool" for cs where
  Init: "bakery_reachable cs (bakery_init cs)"
| Step: "bakery_reachable cs b \<Longrightarrow> bakery_step b b' \<Longrightarrow> bakery_reachable cs b'"

end
