(* ===== verification/Transition_System.thy ===== *)
theory Transition_System
  imports Prelude
begin

text \<open>
  Interfaces that several components provide.  A transition system with an invariant: the bakery, a
  pipe with its readers and writers, and the process table are such systems, and every state they reach
  satisfies the invariant.  A buffer in user memory: what a system call may rely on when it returns
  a structure to its caller.
\<close>

locale invariant_system =
  fixes start :: "'s \<Rightarrow> bool" and step :: "'s \<Rightarrow> 's \<Rightarrow> bool" and inv :: "'s \<Rightarrow> bool"
  assumes start_inv: "start s \<Longrightarrow> inv s" and step_inv: "step s s' \<Longrightarrow> inv s \<Longrightarrow> inv s'"
begin

lemma steps_inv: "rtranclp step s s' \<Longrightarrow> inv s \<Longrightarrow> inv s'"
  by (induction rule: rtranclp_induct) (auto intro: step_inv)

lemma reachable_inv: "rtranclp step s0 s \<Longrightarrow> start s0 \<Longrightarrow> inv s"
  using steps_inv start_inv by blast

end

locale user_buffer =
  fixes put :: "'p \<Rightarrow> 's \<Rightarrow> uint64 \<Rightarrow> uint8 list \<Rightarrow> (int \<times> 's \<times> 'p) res"
    and get :: "'p \<Rightarrow> 's \<Rightarrow> uint64 \<Rightarrow> nat \<Rightarrow> (int \<times> uint8 list \<times> 's \<times> 'p) res"
    and valid :: "'p \<Rightarrow> 's \<Rightarrow> bool" and writable :: "'p \<Rightarrow> 's \<Rightarrow> uint64 \<Rightarrow> nat \<Rightarrow> bool"
  assumes put_get: "valid p s \<Longrightarrow> writable p s va (length bs) \<Longrightarrow>
      \<exists>s'. put p s va bs = Ret (0, s', p) \<and> valid p s' \<and> get p s' va (length bs) = Ret (0, bs, s', p)"
    and put_writable: "valid p s \<Longrightarrow> writable p s va (length bs) \<Longrightarrow> put p s va bs = Ret (r, s', p') \<Longrightarrow> writable p s' vb n = writable p s vb n"
begin

text \<open>A structure that is stored where another one was replaces it.\<close>

lemma put_put_get:
  assumes "valid p s" "writable p s va (length bs)" "length cs = length bs"
  shows "\<exists>s1 s2. put p s va bs = Ret (0, s1, p) \<and> put p s1 va cs = Ret (0, s2, p) \<and> get p s2 va (length cs) = Ret (0, cs, s2, p)"
proof -
  obtain s1 where s1: "put p s va bs = Ret (0, s1, p)" "valid p s1" using put_get [OF assms(1,2)] by blast
  have "writable p s1 va (length cs)" using put_writable [OF assms(1,2) s1(1)] assms(2,3) by simp
  then show ?thesis using put_get [OF s1(2)] s1(1) by blast
qed

end

end
