(* ===== verification/Bakery_Props.thy ===== *)
theory Bakery_Props
  imports Bakery Transition_System
begin

text \<open>
  Invariants of the bakery: the counters count what they are meant to count, capacity is
  respected, no chef drops a request, and the steps of a customer take the time they should.
\<close>

section \<open>Counting\<close>

lemma card_gain:
  assumes "i < n" "\<not> P i" "Q i" "\<And>j. j \<noteq> i \<Longrightarrow> Q j = P j"
  shows "card {j. j < n \<and> Q j} = Suc (card {j. j < (n :: nat) \<and> P j})"
proof -
  have "{j. j < n \<and> Q j} = insert i {j. j < n \<and> P j}" using assms by (auto, metis+)
  then show ?thesis using assms(2) by simp
qed

lemma card_lose:
  assumes "i < n" "P i" "\<not> Q i" "\<And>j. j \<noteq> i \<Longrightarrow> Q j = P j"
  shows "card {j. j < (n :: nat) \<and> P j} = Suc (card {j. j < n \<and> Q j})"
  using card_gain [of i n Q P] assms by simp

lemma card_below: "card {j. j < (n :: nat) \<and> P j} \<le> n"
  using card_mono [of "{..<n}" "{j. j < n \<and> P j}"] by auto

lemma card_miss:
  assumes "i < n" "\<not> P i"
  shows "card {j. j < (n :: nat) \<and> P j} < n"
  using card_gain [of i n P "\<lambda>j. P j \<or> j = i"] card_below [of n "\<lambda>j. P j \<or> j = i"] assms by simp

section \<open>Chefs, ovens and the till\<close>

definition bakes :: "bakery \<Rightarrow> nat \<Rightarrow> bool" where
  "bakes b k \<longleftrightarrow> (\<exists>l i t. chef b k = BakingFor l i t)"

definition accepts :: "bakery \<Rightarrow> nat \<Rightarrow> bool" where
  "accepts b k \<longleftrightarrow> (\<exists>l i t. chef b k = Accepting l i t)"

definition chef_inv :: "bakery \<Rightarrow> bool" where
  "chef_inv b \<longleftrightarrow> ovens_used b = card {k. k < MAX_CHEFS \<and> bakes b k} \<and>
     chefs_idle b + card {k. k < MAX_CHEFS \<and> (bakes b k \<or> accepts b k)} = MAX_CHEFS \<and>
     card {k. k < MAX_CHEFS \<and> accepts b k} = (if cashier_free b then 0 else 1)"

lemma chef_free:
  assumes "chef_inv b" "k < MAX_CHEFS" "\<not> bakes b k" "\<not> accepts b k"
  shows "0 < chefs_idle b" "ovens_used b < MAX_OVENS"
  using assms card_miss [of k MAX_CHEFS "\<lambda>k. bakes b k \<or> accepts b k"] card_miss [of k MAX_CHEFS "bakes b"]
  by (auto simp: chef_inv_def MAX_OVENS_def MAX_CHEFS_def)

definition same_chefs :: "bakery \<Rightarrow> bakery \<Rightarrow> bool" where
  "same_chefs b b' \<longleftrightarrow> chef b' = chef b \<and> ovens_used b' = ovens_used b \<and> chefs_idle b' = chefs_idle b \<and>
     cashier_free b' = cashier_free b"

lemma chef_inv_same: "same_chefs b b' \<Longrightarrow> chef_inv b \<Longrightarrow> chef_inv b'"
  by (simp add: same_chefs_def chef_inv_def bakes_def accepts_def)

lemma customer_same_chefs:
  assumes "customer_step b i = Some b'"
  shows "same_chefs b b'"
  using assms
  by (auto simp: customer_step_def cust_arrive_def cust_try_sit_def cust_sit_def cust_request_def cust_pay_def cust_leave_def
      cust_says_def safe_print_def same_chefs_def Let_def split: cust_pc.splits if_splits)

text \<open>A looking chef that changes to another state not at work keeps the counts.\<close>

lemma chef_inv_idle:
  assumes "chef_inv b" "\<not> bakes b k" "\<not> accepts b k"
    and "chef b' = (chef b)(k := pc)" "\<And>l i t. pc \<noteq> BakingFor l i t" "\<And>l i t. pc \<noteq> Accepting l i t"
    and "ovens_used b' = ovens_used b" "chefs_idle b' = chefs_idle b" "cashier_free b' = cashier_free b"
  shows "chef_inv b'"
proof -
  have "bakes b' = bakes b" "accepts b' = accepts b"
    using assms(2-6) by (auto simp: bakes_def accepts_def fun_eq_iff)
  then show ?thesis using assms by (simp add: chef_inv_def)
qed

lemma chef_inv_accept:
  assumes "chef_inv b" "k < MAX_CHEFS" "\<not> bakes b k" "\<not> accepts b k" "can_accept b"
  shows "chef_inv (chef_accept b k l)"
proof -
  let ?b = "chef_accept b k l"
  have "bakes ?b = bakes b" "accepts ?b k" "\<And>j. j \<noteq> k \<Longrightarrow> accepts ?b j = accepts b j"
    using assms(3) by (auto simp: chef_accept_def chef_says_def safe_print_def bakes_def accepts_def Let_def fun_eq_iff)
  then show ?thesis
    using assms card_gain [of k MAX_CHEFS "accepts b" "accepts ?b"]
      card_gain [of k MAX_CHEFS "\<lambda>k. bakes b k \<or> accepts b k" "\<lambda>k. bakes ?b k \<or> accepts ?b k"]
    by (auto simp: chef_inv_def can_accept_def) (auto simp: chef_accept_def chef_says_def safe_print_def Let_def)
qed

lemma chef_inv_start_bake:
  assumes "chef_inv b" "k < MAX_CHEFS" "\<not> bakes b k" "\<not> accepts b k"
    and "chef b' = (chef b)(k := BakingFor l i t)" "ovens_used b' = ovens_used b + 1" "chefs_idle b' = chefs_idle b - 1"
      "cashier_free b' = cashier_free b"
  shows "chef_inv b'"
proof -
  have "accepts b' = accepts b" "bakes b' k" "\<And>j. j \<noteq> k \<Longrightarrow> bakes b' j = bakes b j"
    using assms(4,5) by (auto simp: bakes_def accepts_def fun_eq_iff)
  then show ?thesis
    using assms chef_free [OF assms(1-4)] card_gain [of k MAX_CHEFS "bakes b" "bakes b'"]
      card_gain [of k MAX_CHEFS "\<lambda>k. bakes b k \<or> accepts b k" "\<lambda>k. bakes b' k \<or> accepts b' k"]
    by (auto simp: chef_inv_def)
qed

lemma chef_inv_finish_bake:
  assumes "chef_inv b" "k < MAX_CHEFS" "bakes b k"
    and "chef b' = (chef b)(k := Looking l)" "ovens_used b' = ovens_used b - 1" "chefs_idle b' = chefs_idle b + 1"
      "cashier_free b' = cashier_free b"
  shows "chef_inv b'"
proof -
  have "accepts b' = accepts b" "\<not> bakes b' k" "\<not> accepts b k" "\<And>j. j \<noteq> k \<Longrightarrow> bakes b' j = bakes b j"
    using assms(3,4) by (auto simp: bakes_def accepts_def fun_eq_iff)
  then show ?thesis
    using assms card_lose [of k MAX_CHEFS "bakes b" "bakes b'"]
      card_lose [of k MAX_CHEFS "\<lambda>k. bakes b k \<or> accepts b k" "\<lambda>k. bakes b' k \<or> accepts b' k"]
    by (auto simp: chef_inv_def)
qed

lemma chef_inv_finish_accept:
  assumes "chef_inv b" "k < MAX_CHEFS" "accepts b k"
    and "chef b' = (chef b)(k := Looking l)" "ovens_used b' = ovens_used b" "chefs_idle b' = chefs_idle b + 1"
      "cashier_free b'"
  shows "chef_inv b'"
proof -
  have "bakes b' = bakes b" "\<not> bakes b k" "\<not> accepts b' k" "\<And>j. j \<noteq> k \<Longrightarrow> accepts b' j = accepts b j"
    using assms(3,4) by (auto simp: bakes_def accepts_def fun_eq_iff)
  then show ?thesis
    using assms card_lose [of k MAX_CHEFS "accepts b" "accepts b'"]
      card_lose [of k MAX_CHEFS "\<lambda>k. bakes b k \<or> accepts b k" "\<lambda>k. bakes b' k \<or> accepts b' k"]
    by (auto simp: chef_inv_def split: if_splits)
qed

lemma chef_inv_bake:
  assumes "chef_inv b" "k < MAX_CHEFS" "\<not> bakes b k" "\<not> accepts b k"
  shows "chef_inv (chef_bake b k l)"
proof (cases "find_request b (on_sofa b)")
  case None
  then show ?thesis by (intro chef_inv_idle [OF assms(1,3,4)]) (auto simp: chef_bake_def)
next
  case (Some r)
  then show ?thesis using chef_free [OF assms]
    by (intro chef_inv_start_bake [OF assms, where l = l and i = "fst r" and t = "current_time b + 2"]) (auto simp: chef_bake_def chef_says_def safe_print_def Let_def split: prod.splits)
qed

lemma chef_step_chef_inv:
  assumes "chef_inv b" "k < MAX_CHEFS" "chef_step b k = Some b'"
  shows "chef_inv b'"
proof (cases "chef b k")
  case Starting
  then have n: "\<not> bakes b k" "\<not> accepts b k" by (auto simp: bakes_def accepts_def)
  show ?thesis using assms(3) Starting by (intro chef_inv_idle [OF assms(1) n]) (auto simp: chef_step_def)
next
  case (Looking l)
  then have n: "\<not> bakes b k" "\<not> accepts b k" by (auto simp: bakes_def accepts_def)
  consider "b' = b\<lparr>chef := (chef b)(k := Exited)\<rparr>" | "can_accept b" "b' = chef_accept b k l" | "b' = chef_bake b k l"
    using assms(3) Looking by (auto simp: chef_step_def split: if_splits)
  then show ?thesis
  proof cases
    case 1
    then show ?thesis by (intro chef_inv_idle [OF assms(1) n]) auto
  qed (use chef_inv_accept [OF assms(1,2) n] chef_inv_bake [OF assms(1,2) n] in auto)
next
  case (Accepting l i t)
  then show ?thesis using assms(3)
    by (intro chef_inv_finish_accept [OF assms(1,2)]) (auto simp: chef_step_def accepts_def split: if_splits)
next
  case (BakingFor l i t)
  then show ?thesis using assms(3)
    by (intro chef_inv_finish_bake [OF assms(1,2)]) (auto simp: chef_step_def bakes_def split: if_splits)
qed (use assms(3) in \<open>simp add: chef_step_def\<close>)

section \<open>Seats\<close>

fun seat_pc :: "cust_pc \<Rightarrow> bool \<Rightarrow> bool" where
  "seat_pc (Sitting t) s = True"
| "seat_pc AwaitCake s = True"
| "seat_pc AwaitDone s = True"
| "seat_pc Standing s = s"
| "seat_pc _ s = False"

definition holds_seat :: "bakery \<Rightarrow> nat \<Rightarrow> bool" where
  "holds_seat b i \<longleftrightarrow> seat_pc (cust b i) (seated b i)"

definition waits_for_seat :: "bakery \<Rightarrow> nat \<Rightarrow> bool" where
  "waits_for_seat b i \<longleftrightarrow> cust b i = Standing \<and> \<not> seated b i"

definition before_sofa :: "bakery \<Rightarrow> nat \<Rightarrow> bool" where
  "before_sofa b i \<longleftrightarrow> cust b i = AwaitArrival \<or> (\<exists>t. cust b i = Entering t)"

definition queue :: "bakery \<Rightarrow> nat list" where
  "queue b = drop (standing_head b) (standing b)"

definition seat_inv :: "bakery \<Rightarrow> bool" where
  "seat_inv b \<longleftrightarrow>
     sofa_count b = card {i. i < num_customers b \<and> holds_seat b i} \<and> sofa_count b \<le> MAX_SOFA \<and>
     standing_head b \<le> length (standing b) \<and> distinct (standing b) \<and>
     (\<forall>i \<in> set (standing b). i < num_customers b \<and> \<not> before_sofa b i) \<and>
     set (queue b) = {i. i < num_customers b \<and> waits_for_seat b i} \<and>
     (queue b \<noteq> [] \<longrightarrow> sofa_count b = MAX_SOFA) \<and>
     (\<forall>i. before_sofa b i \<longrightarrow> \<not> seated b i)"

definition same_seats :: "bakery \<Rightarrow> bakery \<Rightarrow> bool" where
  "same_seats b b' \<longleftrightarrow> customers b' = customers b \<and> sofa_count b' = sofa_count b \<and> standing b' = standing b \<and>
     standing_head b' = standing_head b \<and> seated b' = seated b"

lemma seat_inv_same:
  assumes "same_seats b b'" "holds_seat b' = holds_seat b" "waits_for_seat b' = waits_for_seat b"
    and "\<And>i. before_sofa b' i \<Longrightarrow> before_sofa b i" "seat_inv b"
  shows "seat_inv b'"
  using assms unfolding same_seats_def seat_inv_def num_customers_def queue_def by metis

lemma seat_inv_same_cust: "same_seats b b' \<Longrightarrow> cust b' = cust b \<Longrightarrow> seat_inv b \<Longrightarrow> seat_inv b'"
  by (rule seat_inv_same) (auto simp: same_seats_def holds_seat_def waits_for_seat_def before_sofa_def fun_eq_iff)

lemmas bakery_step_defs = customer_step_def cust_arrive_def cust_sit_def cust_request_def cust_pay_def cust_says_def safe_print_def
  chef_step_def chef_accept_def chef_bake_def chef_says_def timer_step_def main_step_def Let_def

text \<open>What the chefs leave alone.\<close>

lemma chef_step_frame:
  assumes "chef_step b k = Some b'"
  shows "same_seats b b'" "cust b' = cust b" "requested b' = requested b" "request_time b' = request_time b"
    "paid b' = paid b" "payment_time b' = payment_time b" "waiting_payment b' = waiting_payment b"
    "current_time b' = current_time b" "customers_inside b' = customers_inside b"
    "customers_finished b' = customers_finished b" "customers b' = customers b" "timer b' = timer b"
  using assms by (auto simp: bakery_step_defs same_seats_def
      split: chef_pc.splits if_splits option.splits prod.splits)

lemma seat_inv_sit:
  assumes inv: "seat_inv b" and i: "i < num_customers b" "cust b i = Entering t"
  shows "seat_inv (cust_try_sit b i)"
proof -
  let ?b = "cust_try_sit b i"
  have pre: "before_sofa b i" "\<not> seated b i" "i \<notin> set (standing b)" "\<not> holds_seat b i" "\<not> waits_for_seat b i"
    using inv i by (auto simp: seat_inv_def before_sofa_def holds_seat_def waits_for_seat_def)
  have n: "num_customers ?b = num_customers b"
    by (simp add: cust_try_sit_def cust_says_def safe_print_def num_customers_def Let_def)
  have bs: "before_sofa ?b j \<longleftrightarrow> before_sofa b j \<and> j \<noteq> i" for j
    by (auto simp: cust_try_sit_def cust_says_def safe_print_def before_sofa_def Let_def)
  show ?thesis
  proof (cases "sofa_count b < MAX_SOFA")
    case True
    have hs: "holds_seat ?b = (holds_seat b)(i := True)" and ws: "waits_for_seat ?b = waits_for_seat b"
      using True pre i by (auto simp: cust_try_sit_def cust_says_def safe_print_def holds_seat_def waits_for_seat_def Let_def fun_eq_iff)
    have q: "standing ?b = standing b" "standing_head ?b = standing_head b" "queue ?b = queue b"
      "sofa_count ?b = Suc (sofa_count b)" "seated ?b = (seated b)(i := True)"
      using True by (simp_all add: cust_try_sit_def cust_says_def safe_print_def queue_def Let_def)
    have "card {j. j < num_customers b \<and> holds_seat ?b j} = Suc (sofa_count b)"
      using card_gain [of i "num_customers b" "holds_seat b" "holds_seat ?b"] i(1) pre(4) hs inv by (simp add: seat_inv_def)
    then show ?thesis using inv True unfolding seat_inv_def n bs ws q by auto
  next
    case False
    have hs: "holds_seat ?b = holds_seat b" and ws: "waits_for_seat ?b = (waits_for_seat b)(i := True)"
      using False pre i by (auto simp: cust_try_sit_def holds_seat_def waits_for_seat_def fun_eq_iff)
    have q: "standing ?b = standing b @ [i]" "sofa_count ?b = sofa_count b" "seated ?b = seated b" "standing_head ?b = standing_head b"
      using False by (simp_all add: cust_try_sit_def)
    have "queue ?b = queue b @ [i]" using inv by (simp add: queue_def q seat_inv_def)
    then show ?thesis using inv False i(1) pre unfolding seat_inv_def n bs hs ws q by auto
  qed
qed

text \<open>Leaving hands the seat to the first standing customer.\<close>

lemma seat_inv_leave:
  assumes inv: "seat_inv b" and i: "i < num_customers b" "cust b i = AwaitDone"
  shows "seat_inv (cust_leave b i)"
proof -
  let ?b = "cust_leave b i"
  have pre: "holds_seat b i" "\<not> waits_for_seat b i" "\<not> before_sofa b i"
    using i by (auto simp: holds_seat_def waits_for_seat_def before_sofa_def)
  have n: "num_customers ?b = num_customers b" and st: "standing ?b = standing b"
    by (simp_all add: cust_leave_def cust_says_def safe_print_def num_customers_def Let_def)
  have bs: "before_sofa ?b j \<longleftrightarrow> before_sofa b j" for j
    using pre(3) by (auto simp: cust_leave_def cust_says_def safe_print_def before_sofa_def Let_def)
  have c: "Suc (card {j. j < num_customers b \<and> (holds_seat b j \<and> j \<noteq> i)}) = sofa_count b"
    using card_lose [of i "num_customers b" "holds_seat b" "\<lambda>j. holds_seat b j \<and> j \<noteq> i"] i(1) pre(1) inv
    by (simp add: seat_inv_def)
  show ?thesis
  proof (cases "queue b")
    case Nil
    then have h: "\<not> standing_head b < length (standing b)" by (simp add: queue_def)
    have hs: "holds_seat ?b j = (holds_seat b j \<and> j \<noteq> i)" and ws: "waits_for_seat ?b = waits_for_seat b" for j
      using h pre i by (auto simp: cust_leave_def cust_says_def safe_print_def holds_seat_def waits_for_seat_def Let_def fun_eq_iff)
    have q: "standing_head ?b = standing_head b" "queue ?b = queue b" "sofa_count ?b = sofa_count b - 1" "seated ?b = seated b"
      using h by (simp_all add: cust_leave_def cust_says_def safe_print_def queue_def Let_def)
    show ?thesis using inv c Nil unfolding seat_inv_def n bs hs ws q st by auto
  next
    case (Cons j js)
    then have h: "standing_head b < length (standing b)" "standing b ! standing_head b = j"
      by (auto simp: queue_def) (metis drop_eq_Nil not_le list.discI, metis hd_drop_conv_nth list.sel(1) drop_eq_Nil not_le list.discI)
    have j: "j < num_customers b" "waits_for_seat b j" "j \<noteq> i" using inv Cons pre(2) by (auto simp: seat_inv_def)
    have hs: "holds_seat ?b k = (holds_seat b k \<and> k \<noteq> i \<or> k = j)" for k
      using h pre i j by (auto simp: cust_leave_def cust_says_def safe_print_def holds_seat_def waits_for_seat_def Let_def)
    have ws: "waits_for_seat ?b k = (waits_for_seat b k \<and> k \<noteq> j)" for k
      using h pre i j by (auto simp: cust_leave_def cust_says_def safe_print_def waits_for_seat_def Let_def)
    have q: "standing_head ?b = Suc (standing_head b)" "sofa_count ?b = Suc (sofa_count b - 1)" "seated ?b = (seated b)(j := True)"
      using h by (simp_all add: cust_leave_def cust_says_def safe_print_def Let_def)
    have qu: "queue ?b = js" using Cons by (simp add: queue_def q st drop_Suc) (metis list.sel(3) tl_drop)
    have nh: "\<not> (holds_seat b j \<and> j \<noteq> i)" using j(2) by (auto simp: waits_for_seat_def holds_seat_def)
    have cc: "card {k. k < num_customers b \<and> (holds_seat b k \<and> k \<noteq> i \<or> k = j)} = sofa_count b"
      using card_gain [of j "num_customers b" "\<lambda>k. holds_seat b k \<and> k \<noteq> i" "\<lambda>k. holds_seat b k \<and> k \<noteq> i \<or> k = j"] j(1) nh c
      by simp
    have "distinct (j # js)" using inv Cons by (metis queue_def seat_inv_def distinct_drop)
    then have dj: "j \<notin> set js" by simp
    have jb: "\<not> before_sofa b j" using j(2) by (auto simp: waits_for_seat_def before_sofa_def)
    show ?thesis
      using inv c cc Cons h(1) dj jb unfolding seat_inv_def n bs hs ws q st qu by auto
  qed
qed

lemma seat_inv_customer:
  assumes inv: "seat_inv b" and i: "i < num_customers b" and st: "customer_step b i = Some b'"
  shows "seat_inv b'"
proof (cases "cust b i")
  case (Entering t)
  then show ?thesis using seat_inv_sit [OF inv i] st by (auto simp: customer_step_def split: if_splits)
next
  case AwaitDone
  then show ?thesis using seat_inv_leave [OF inv i] st by (auto simp: customer_step_def split: if_splits)
next
  case AwaitArrival
  show ?thesis
    by (rule seat_inv_same [OF _ _ _ _ inv])
      (use st AwaitArrival in \<open>auto simp: bakery_step_defs same_seats_def holds_seat_def waits_for_seat_def before_sofa_def
          fun_eq_iff split: if_splits\<close>)
next
  case (Sitting t)
  show ?thesis
    by (rule seat_inv_same [OF _ _ _ _ inv])
      (use st Sitting in \<open>auto simp: bakery_step_defs same_seats_def holds_seat_def waits_for_seat_def before_sofa_def
          fun_eq_iff split: if_splits\<close>)
next
  case Standing
  show ?thesis
    by (rule seat_inv_same [OF _ _ _ _ inv])
      (use st Standing in \<open>auto simp: bakery_step_defs same_seats_def holds_seat_def waits_for_seat_def before_sofa_def
          fun_eq_iff split: if_splits\<close>)
next
  case AwaitCake
  show ?thesis
    by (rule seat_inv_same [OF _ _ _ _ inv])
      (use st AwaitCake in \<open>auto simp: bakery_step_defs same_seats_def holds_seat_def waits_for_seat_def before_sofa_def
          fun_eq_iff split: if_splits\<close>)
qed (use st in \<open>auto simp: customer_step_def\<close>)

section \<open>The way of a customer\<close>

definition asked :: "cust_pc \<Rightarrow> bool" where
  "asked pc \<longleftrightarrow> pc = AwaitCake \<or> pc = AwaitDone \<or> pc = Gone"

definition settled :: "cust_pc \<Rightarrow> bool" where
  "settled pc \<longleftrightarrow> pc = AwaitDone \<or> pc = Gone"

text \<open>The flags of a customer follow the program counter, and the clock.\<close>

definition flow_inv :: "bakery \<Rightarrow> nat \<Rightarrow> bool" where
  "flow_inv b i \<longleftrightarrow> (requested b i \<longleftrightarrow> asked (cust b i)) \<and> (paid b i \<longleftrightarrow> settled (cust b i)) \<and>
     (baking b i \<longrightarrow> requested b i) \<and> (ready_to_pay b i \<longrightarrow> baking b i) \<and> (paid b i \<longrightarrow> ready_to_pay b i) \<and>
     (done_flag b i \<longrightarrow> paid b i) \<and> (cust b i = Gone \<longrightarrow> done_flag b i) \<and>
     (requested b i \<longrightarrow> request_time b i \<le> current_time b) \<and>
     (ready_to_pay b i \<longrightarrow> request_time b i + 3 \<le> current_time b) \<and>
     (paid b i \<longrightarrow> request_time b i + 3 \<le> payment_time b i \<and> payment_time b i \<le> current_time b) \<and>
     (done_flag b i \<longrightarrow> payment_time b i + 3 \<le> current_time b)"

text \<open>What a chef at work is working on.\<close>

definition work_inv :: "bakery \<Rightarrow> nat \<Rightarrow> bool" where
  "work_inv b k \<longleftrightarrow>
     (\<forall>l i t. chef b k = BakingFor l i t \<longrightarrow> baking b i \<and> \<not> ready_to_pay b i \<and> request_time b i + 3 \<le> t) \<and>
     (\<forall>l i t. chef b k = Accepting l i t \<longrightarrow> paid b i \<and> \<not> done_flag b i \<and> payment_time b i + 3 \<le> t)"

lemma cust_arrive_sel [simp]:
  "requested (cust_arrive b i) = requested b" "request_time (cust_arrive b i) = request_time b"
  "baking (cust_arrive b i) = baking b" "ready_to_pay (cust_arrive b i) = ready_to_pay b"
  "paid (cust_arrive b i) = paid b" "payment_time (cust_arrive b i) = payment_time b"
  "done_flag (cust_arrive b i) = done_flag b" "current_time (cust_arrive b i) = current_time b"
  "chef (cust_arrive b i) = chef b" "customers (cust_arrive b i) = customers b"
  "timer (cust_arrive b i) = timer b"
  "cust (cust_arrive b i) = (cust b)(i := if customers_inside b \<ge> MAX_CUSTOMERS then Refused else Entering (current_time b + 1))"
  by (simp_all add: cust_arrive_def cust_says_def safe_print_def Let_def)

lemma cust_try_sit_sel [simp]:
  "requested (cust_try_sit b i) = requested b" "request_time (cust_try_sit b i) = request_time b"
  "baking (cust_try_sit b i) = baking b" "ready_to_pay (cust_try_sit b i) = ready_to_pay b"
  "paid (cust_try_sit b i) = paid b" "payment_time (cust_try_sit b i) = payment_time b"
  "done_flag (cust_try_sit b i) = done_flag b" "current_time (cust_try_sit b i) = current_time b"
  "chef (cust_try_sit b i) = chef b" "customers (cust_try_sit b i) = customers b"
  "timer (cust_try_sit b i) = timer b"
  "cust (cust_try_sit b i) = (cust b)(i := if sofa_count b < MAX_SOFA then Sitting (current_time b + 1) else Standing)"
  by (simp_all add: cust_try_sit_def cust_says_def safe_print_def Let_def)

lemma cust_sit_sel [simp]:
  "requested (cust_sit b i) = requested b" "request_time (cust_sit b i) = request_time b"
  "baking (cust_sit b i) = baking b" "ready_to_pay (cust_sit b i) = ready_to_pay b"
  "paid (cust_sit b i) = paid b" "payment_time (cust_sit b i) = payment_time b"
  "done_flag (cust_sit b i) = done_flag b" "current_time (cust_sit b i) = current_time b"
  "chef (cust_sit b i) = chef b" "customers (cust_sit b i) = customers b" "timer (cust_sit b i) = timer b"
  "cust (cust_sit b i) = (cust b)(i := Sitting (current_time b + 1))"
  by (simp_all add: cust_sit_def cust_says_def safe_print_def Let_def)

lemma cust_request_sel [simp]:
  "requested (cust_request b i) = (requested b)(i := True)"
  "request_time (cust_request b i) = (request_time b)(i := current_time b)"
  "baking (cust_request b i) = baking b" "ready_to_pay (cust_request b i) = ready_to_pay b"
  "paid (cust_request b i) = paid b" "payment_time (cust_request b i) = payment_time b"
  "done_flag (cust_request b i) = done_flag b" "current_time (cust_request b i) = current_time b"
  "chef (cust_request b i) = chef b" "customers (cust_request b i) = customers b"
  "timer (cust_request b i) = timer b" "cust (cust_request b i) = (cust b)(i := AwaitCake)"
  by (simp_all add: cust_request_def cust_says_def safe_print_def Let_def)

lemma cust_pay_sel [simp]:
  "requested (cust_pay b i) = requested b" "request_time (cust_pay b i) = request_time b"
  "baking (cust_pay b i) = baking b" "ready_to_pay (cust_pay b i) = ready_to_pay b"
  "paid (cust_pay b i) = (paid b)(i := True)"
  "payment_time (cust_pay b i) = (payment_time b)(i := current_time b)" "done_flag (cust_pay b i) = done_flag b"
  "current_time (cust_pay b i) = current_time b" "chef (cust_pay b i) = chef b"
  "customers (cust_pay b i) = customers b" "timer (cust_pay b i) = timer b"
  "cust (cust_pay b i) = (cust b)(i := AwaitDone)"
  by (simp_all add: cust_pay_def cust_says_def safe_print_def Let_def)

lemma cust_leave_sel [simp]:
  "requested (cust_leave b i) = requested b" "request_time (cust_leave b i) = request_time b"
  "baking (cust_leave b i) = baking b" "ready_to_pay (cust_leave b i) = ready_to_pay b"
  "paid (cust_leave b i) = paid b" "payment_time (cust_leave b i) = payment_time b"
  "done_flag (cust_leave b i) = done_flag b" "current_time (cust_leave b i) = current_time b"
  "chef (cust_leave b i) = chef b" "customers (cust_leave b i) = customers b" "timer (cust_leave b i) = timer b"
  "cust (cust_leave b i) = (cust b)(i := Gone)"
  by (simp_all add: cust_leave_def cust_says_def safe_print_def Let_def)

lemma flow_customer:
  assumes "\<And>j. flow_inv b j" "customer_step b i = Some b'"
  shows "flow_inv b' j"
proof (cases "j = i")
  case True
  have f: "flow_inv b i" by (rule assms(1))
  show ?thesis
    using f assms(2) unfolding True
    by (cases "cust b i") (auto simp: customer_step_def flow_inv_def asked_def settled_def split: if_splits)
next
  case False
  have "requested b' j = requested b j" "request_time b' j = request_time b j" "baking b' j = baking b j"
    "ready_to_pay b' j = ready_to_pay b j" "paid b' j = paid b j" "payment_time b' j = payment_time b j"
    "done_flag b' j = done_flag b j" "current_time b' = current_time b" "cust b' j = cust b j"
    using assms(2) False by (auto simp: customer_step_def split: cust_pc.splits if_splits)
  then show ?thesis using assms(1) [of j] by (auto simp: flow_inv_def)
qed

lemma work_customer:
  assumes "\<And>j. flow_inv b j" "work_inv b k" "customer_step b i = Some b'"
  shows "work_inv b' k"
proof -
  have f: "flow_inv b i" by (rule assms(1))
  have e: "chef b' = chef b" "baking b' = baking b" "ready_to_pay b' = ready_to_pay b" "done_flag b' = done_flag b"
    using assms(3) by (auto simp: customer_step_def split: cust_pc.splits if_splits)
  have r: "request_time b' j = request_time b j" if "baking b j" for j
    using assms(3) that f by (auto simp: customer_step_def flow_inv_def asked_def split: cust_pc.splits if_splits)
  have p: "paid b' j" "payment_time b' j = payment_time b j" if "paid b j" for j
    using assms(3) that f by (auto simp: customer_step_def flow_inv_def settled_def split: cust_pc.splits if_splits)
  show ?thesis using assms(2) r p unfolding work_inv_def e by auto
qed

text \<open>No two chefs bake for one customer, and the payment queue.\<close>

definition team_inv :: "bakery \<Rightarrow> bool" where
  "team_inv b \<longleftrightarrow>
     (\<forall>k k' l l' i t t'. chef b k = BakingFor l i t \<longrightarrow> chef b k' = BakingFor l' i t' \<longrightarrow> k = k') \<and>
     (\<forall>k k' l l' i t t'. chef b k = Accepting l i t \<longrightarrow> chef b k' = Accepting l' i t' \<longrightarrow> k = k') \<and>
     distinct (waiting_payment b) \<and> set (waiting_payment b) = {i. paid b i} \<and>
     payment_head b \<le> length (waiting_payment b) \<and>
     (\<forall>i \<in> set (drop (payment_head b) (waiting_payment b)). \<not> done_flag b i) \<and>
     (\<forall>k l i t. chef b k = Accepting l i t \<longrightarrow> i \<in> set (take (payment_head b) (waiting_payment b)))"

lemma team_customer:
  assumes "\<And>j. flow_inv b j" "team_inv b" "customer_step b i = Some b'"
  shows "team_inv b'"
proof (cases "cust b i = AwaitCake")
  case True
  have b': "b' = cust_pay b i" using assms(3) True by (auto simp: customer_step_def split: if_splits)
  have n: "\<not> paid b i" "\<not> done_flag b i" using assms(1) [of i] True by (auto simp: flow_inv_def settled_def)
  have q: "waiting_payment b' = waiting_payment b @ [i]" "payment_head b' = payment_head b"
    by (simp_all add: b' cust_pay_def)  (simp add: cust_says_def safe_print_def)
  show ?thesis using assms(2) n unfolding team_inv_def q by (simp add: b') auto
next
  case False
  have e: "waiting_payment b' = waiting_payment b" "payment_head b' = payment_head b"
    using assms(3) False
    by (auto simp: customer_step_def cust_arrive_def cust_try_sit_def cust_sit_def cust_request_def cust_leave_def
        cust_says_def safe_print_def Let_def split: cust_pc.splits if_splits)
  have f: "chef b' = chef b" "paid b' = paid b" "done_flag b' = done_flag b"
    using assms(3) False by (auto simp: customer_step_def split: cust_pc.splits if_splits)
  show ?thesis using assms(2) unfolding team_inv_def e f .
qed

lemma find_request_spec:
  "find_request b q = Some (i, q') \<Longrightarrow> wants_cake b i \<and> (\<exists>xs ys. q = xs @ i # ys \<and> q' = xs @ ys)"
proof (induction q arbitrary: q')
  case (Cons j q)
  show ?case
  proof (cases "wants_cake b j")
    case True
    then show ?thesis using Cons.prems by (auto intro: exI [of _ "[]"])
  next
    case False
    then obtain q'' where "find_request b q = Some (i, q'')" "q' = j # q''"
      using Cons.prems by (auto split: option.splits)
    then show ?thesis using Cons.IH by (metis append_Cons)
  qed
qed simp

text \<open>The steps of a chef, as one record update each.\<close>

lemma chef_step_cases:
  assumes "chef_inv b" "k < MAX_CHEFS" "chef_step b k = Some b'"
  obtains (idle) pc where "b' = b\<lparr>chef := (chef b)(k := pc)\<rparr>" "pc = Exited \<or> (\<exists>l. pc = Looking l)"
      "\<And>l i t. chef b k \<noteq> BakingFor l i t" "\<And>l i t. chef b k \<noteq> Accepting l i t"
  | (accept) l where "can_accept b" "b' = chef_accept b k l" "chef b k = Looking l"
  | (bake) l i q p where "chef b k = Looking l" "find_request b (on_sofa b) = Some (i, q)"
      "b' = b\<lparr>on_sofa := q, printed := p, ovens_used := ovens_used b + 1, chefs_idle := chefs_idle b - 1,
              baking := (baking b)(i := True), chef := (chef b)(k := BakingFor l i (current_time b + 2))\<rparr>"
  | (paid_up) l i t where "chef b k = Accepting l i t" "t \<le> current_time b"
      "b' = b\<lparr>done_flag := (done_flag b)(i := True), cashier_free := True, chefs_idle := chefs_idle b + 1,
              chef := (chef b)(k := Looking l)\<rparr>"
  | (baked) l i t where "chef b k = BakingFor l i t" "t \<le> current_time b"
      "b' = b\<lparr>ready_to_pay := (ready_to_pay b)(i := True), ovens_used := ovens_used b - 1,
              chefs_idle := chefs_idle b + 1, chef := (chef b)(k := Looking l)\<rparr>"
proof (cases "chef b k")
  case (Looking l)
  have n: "\<not> bakes b k" "\<not> accepts b k" using Looking by (auto simp: bakes_def accepts_def)
  consider "b' = b\<lparr>chef := (chef b)(k := Exited)\<rparr>" | "can_accept b" "b' = chef_accept b k l" | "b' = chef_bake b k l"
    using assms(3) Looking by (auto simp: chef_step_def split: if_splits)
  then show ?thesis
  proof cases
    case 3
    show ?thesis
    proof (cases "find_request b (on_sofa b)")
      case None
      then show ?thesis using idle [of "Looking (current_time b)"] 3 Looking by (simp add: chef_bake_def)
    next
      case (Some r)
      obtain i q where r: "r = (i, q)" by (cases r)
      show ?thesis
        by (rule bake [OF Looking, of i q "printed b @ [(current_time b, ''Chef'', int k + 1, ''bakes for'', fst (customers b ! i))]"])
          (use 3 Some r chef_free [OF assms(1,2) n] in \<open>simp_all add: chef_bake_def chef_says_def safe_print_def Let_def\<close>)
    qed
  next
    case 1
    show ?thesis by (rule idle [OF 1]) (simp_all add: Looking)
  next
    case 2
    show ?thesis by (rule accept [OF 2 Looking])
  qed
next
  case Starting
  then show ?thesis by (intro idle [of "Looking (current_time b - 1)"]) (use assms(3) in \<open>auto simp: chef_step_def\<close>)
next
  case (Accepting l i t)
  then show ?thesis by (intro paid_up [OF Accepting]) (use assms(3) in \<open>auto simp: chef_step_def split: if_splits\<close>)
next
  case (BakingFor l i t)
  then show ?thesis by (intro baked [OF BakingFor]) (use assms(3) in \<open>auto simp: chef_step_def split: if_splits\<close>)
qed (use assms(3) in \<open>simp add: chef_step_def\<close>)

lemma flow_chef:
  assumes "chef_inv b" "\<And>j. flow_inv b j" "\<And>k. work_inv b k" "k < MAX_CHEFS" "chef_step b k = Some b'"
  shows "flow_inv b' j"
proof (cases rule: chef_step_cases [OF assms(1,4,5)])
  case (1 pc)
  then show ?thesis using assms(2) [of j] by (auto simp: flow_inv_def)
next
  case (2 l)
  then show ?thesis using assms(2) [of j]
    by (auto simp: flow_inv_def chef_accept_def chef_says_def safe_print_def Let_def)
next
  case (3 l i q p)
  then show ?thesis using assms(2) [of j] find_request_spec [OF 3(2)] by (auto simp: flow_inv_def wants_cake_def)
next
  case (4 l i t)
  then show ?thesis using assms(2) [of j] assms(3) [of k] by (auto simp: flow_inv_def work_inv_def)
next
  case (5 l i t)
  then show ?thesis using assms(2) [of j] assms(3) [of k] by (auto simp: flow_inv_def work_inv_def)
qed

lemma work_chef:
  assumes "chef_inv b" "\<And>j. flow_inv b j" "\<And>k. work_inv b k" "team_inv b" "k < MAX_CHEFS" "chef_step b k = Some b'"
  shows "work_inv b' k'"
proof (cases rule: chef_step_cases [OF assms(1,5,6)])
  case (1 pc)
  then show ?thesis using assms(3) [of k'] by (auto simp: work_inv_def)
next
  case (2 l)
  let ?i = "waiting_payment b ! payment_head b"
  have h: "payment_head b < length (waiting_payment b)" "payment_time b ?i < current_time b" using 2(1) by (auto simp: can_accept_def)
  have "?i \<in> set (drop (payment_head b) (waiting_payment b))" using h(1) by (simp add: Cons_nth_drop_Suc [symmetric])
  moreover have "?i \<in> set (waiting_payment b)" using h(1) by simp
  ultimately have "\<not> done_flag b ?i" "paid b ?i" using assms(4) by (auto simp: team_inv_def)
  then show ?thesis using 2(2) h(2) assms(3) [of k']
    by (cases "k' = k") (auto simp: work_inv_def chef_accept_def chef_says_def safe_print_def Let_def)
next
  case (3 l i q p)
  then show ?thesis using find_request_spec [OF 3(2)] assms(3) [of k']
    by (cases "k' = k") (auto simp: work_inv_def wants_cake_def)
next
  case (4 l i t)
  have "i' \<noteq> i" if "chef b k' = Accepting l' i' t'" "k' \<noteq> k" for l' i' t'
    using assms(4) 4(1) that by (auto simp: team_inv_def)
  then show ?thesis using 4 assms(3) [of k'] by (cases "k' = k") (auto simp: work_inv_def)
next
  case (5 l i t)
  have "i' \<noteq> i" if "chef b k' = BakingFor l' i' t'" "k' \<noteq> k" for l' i' t'
    using assms(4) 5(1) that by (auto simp: team_inv_def)
  then show ?thesis using 5 assms(3) [of k'] by (cases "k' = k") (auto simp: work_inv_def)
qed

lemma team_chef:
  assumes "chef_inv b" "\<And>j. flow_inv b j" "\<And>k. work_inv b k" "team_inv b" "k < MAX_CHEFS" "chef_step b k = Some b'"
  shows "team_inv b'"
proof (cases rule: chef_step_cases [OF assms(1,5,6)])
  case (1 pc)
  then show ?thesis using assms(4) by (auto simp: team_inv_def)
next
  case (2 l)
  let ?i = "waiting_payment b ! payment_head b"
  have h: "payment_head b < length (waiting_payment b)" using 2(1) by (auto simp: can_accept_def)
  have "?i \<notin> set (take (payment_head b) (waiting_payment b))"
    using assms(4) h by (auto simp: team_inv_def in_set_conv_nth nth_eq_iff_index_eq)
  then have "chef b k' \<noteq> Accepting l' ?i t'" for k' l' t' using assms(4) unfolding team_inv_def by blast
  moreover have "set (drop (Suc (payment_head b)) (waiting_payment b)) \<subseteq> set (drop (payment_head b) (waiting_payment b))"
    by (simp add: set_drop_subset_set_drop)
  moreover have "take (Suc (payment_head b)) (waiting_payment b) = take (payment_head b) (waiting_payment b) @ [?i]"
    using h by (simp add: take_Suc_conv_app_nth)
  ultimately show ?thesis using assms(4) h
    by (simp add: 2(2) team_inv_def chef_accept_def chef_says_def safe_print_def Let_def) (auto split: if_splits)
next
  case (3 l i q p)
  have "\<not> baking b i" using find_request_spec [OF 3(2)] by (simp add: wants_cake_def)
  then have "chef b k' \<noteq> BakingFor l' i t'" for k' l' t' using assms(3) [of k'] by (auto simp: work_inv_def)
  then show ?thesis using assms(4) by (simp add: 3(3) team_inv_def) (auto split: if_splits)
next
  case (4 l i t)
  have "i \<in> set (take (payment_head b) (waiting_payment b))" using assms(4) 4(1) unfolding team_inv_def by blast
  moreover have "set (take (payment_head b) (waiting_payment b)) \<inter> set (drop (payment_head b) (waiting_payment b)) = {}"
    using assms(4) by (intro set_take_disj_set_drop_if_distinct) (auto simp: team_inv_def)
  ultimately have "i \<notin> set (drop (payment_head b) (waiting_payment b))" by blast
  then show ?thesis using assms(4) by (simp add: 4(3) team_inv_def) (auto split: if_splits)
next
  case (5 l i t)
  show ?thesis using assms(4) by (simp add: 5(3) team_inv_def)
qed

section \<open>The queue of the sofa\<close>

text \<open>
  Everyone with a seat who has not been picked up by a chef is in the queue, and everyone
  picked up is being baked for until the cake is ready.
\<close>

definition sofa_inv :: "bakery \<Rightarrow> bool" where
  "sofa_inv b \<longleftrightarrow> distinct (on_sofa b) \<and>
     set (on_sofa b) = {i. i < num_customers b \<and> holds_seat b i \<and> \<not> baking b i} \<and>
     (\<forall>i. baking b i \<and> \<not> ready_to_pay b i \<longrightarrow> (\<exists>k < MAX_CHEFS. \<exists>l t. chef b k = BakingFor l i t))"

lemma sofa_chef:
  assumes "chef_inv b" "sofa_inv b" "team_inv b" "k < MAX_CHEFS" "chef_step b k = Some b'"
  shows "sofa_inv b'"
proof (cases rule: chef_step_cases [OF assms(1,4,5)])
  case (1 pc)
  have "chef b' k' = chef b k'" if "chef b k' = BakingFor l i t" for k' l i t using 1 that by auto
  then show ?thesis using assms(2) 1(1) by (simp add: sofa_inv_def num_customers_def holds_seat_def) metis
next
  case (2 l)
  have "chef b' k' = chef b k'" if "chef b k' = BakingFor l i t" for k' l i t
    using 2 that by (auto simp: chef_accept_def chef_says_def safe_print_def Let_def)
  moreover have "on_sofa b' = on_sofa b" "num_customers b' = num_customers b" "holds_seat b' = holds_seat b" "baking b' = baking b"
    "ready_to_pay b' = ready_to_pay b"
    by (simp_all add: 2(2) chef_accept_def chef_says_def safe_print_def Let_def num_customers_def holds_seat_def fun_eq_iff)
  ultimately show ?thesis using assms(2) unfolding sofa_inv_def by metis
next
  case (3 l i q p)
  obtain xs ys where q: "on_sofa b = xs @ i # ys" "q = xs @ ys" using find_request_spec [OF 3(2)] by blast
  have keep: "chef b' k' = chef b k'" if "chef b k' = BakingFor l i t" for k' l i t using 3 that by auto
  have new: "chef b' k = BakingFor l i (current_time b + 2)" by (simp add: 3(3))
  have e: "num_customers b' = num_customers b" "holds_seat b' = holds_seat b" "baking b' = (baking b)(i := True)"
    "ready_to_pay b' = ready_to_pay b" "on_sofa b' = xs @ ys"
    by (simp_all add: 3(3) q(2) num_customers_def holds_seat_def fun_eq_iff)
  have "\<exists>k < MAX_CHEFS. \<exists>l t. chef b' k = BakingFor l j t" if "baking b' j" "\<not> ready_to_pay b' j" for j
  proof (cases "j = i")
    case True
    then show ?thesis using new assms(4) by blast
  next
    case False
    then have "baking b j" "\<not> ready_to_pay b j" using that e by simp_all
    then obtain k' l' t' where "k' < MAX_CHEFS" "chef b k' = BakingFor l' j t'" using assms(2) unfolding sofa_inv_def by blast
    then show ?thesis using keep by metis
  qed
  moreover have "distinct (xs @ i # ys)" "set (xs @ i # ys) = {j. j < num_customers b \<and> holds_seat b j \<and> \<not> baking b j}"
    using assms(2) q(1) by (simp_all add: sofa_inv_def)
  then have "set (xs @ ys) = {j. j < num_customers b \<and> holds_seat b j \<and> \<not> ((baking b)(i := True)) j}" by auto
  ultimately show ?thesis using \<open>distinct (xs @ i # ys)\<close> unfolding sofa_inv_def e by simp
next
  case (4 l i t)
  have keep: "chef b' k' = chef b k'" if "chef b k' = BakingFor l' i' t'" for k' l' i' t'
  proof -
    have "k' \<noteq> k" using 4(1) that by auto
    then show ?thesis by (simp add: 4(3))
  qed
  have e: "num_customers b' = num_customers b" "holds_seat b' = holds_seat b" "baking b' = baking b"
    "ready_to_pay b' = ready_to_pay b" "on_sofa b' = on_sofa b"
    by (simp_all add: 4(3) num_customers_def holds_seat_def fun_eq_iff)
  show ?thesis using assms(2) keep unfolding sofa_inv_def e by metis
next
  case (5 l i t)
  have keep: "chef b' k' = chef b k'" if "chef b k' = BakingFor l' i' t'" "i' \<noteq> i" for k' l' i' t'
  proof -
    have "k' \<noteq> k" using 5(1) that by auto
    then show ?thesis by (simp add: 5(3))
  qed
  have e: "num_customers b' = num_customers b" "holds_seat b' = holds_seat b" "baking b' = baking b"
    "on_sofa b' = on_sofa b" and r: "ready_to_pay b' = (ready_to_pay b)(i := True)"
    by (simp_all add: 5(3) num_customers_def holds_seat_def fun_eq_iff)
  have "\<exists>k < MAX_CHEFS. \<exists>l t. chef b' k = BakingFor l j t" if "baking b j" "\<not> ready_to_pay b' j" for j
  proof -
    have "j \<noteq> i" "\<not> ready_to_pay b j" using that(2) by (auto simp: r split: if_splits)
    then show ?thesis using assms(2) keep that(1) unfolding sofa_inv_def by metis
  qed
  then show ?thesis using assms(2) unfolding sofa_inv_def e by blast
qed

lemma sofa_same:
  assumes "sofa_inv b" "num_customers b' = num_customers b" "holds_seat b' = holds_seat b" "baking b' = baking b"
    and "ready_to_pay b' = ready_to_pay b" "chef b' = chef b" "on_sofa b' = on_sofa b"
  shows "sofa_inv b'"
  using assms unfolding sofa_inv_def by simp

lemma sofa_customer:
  assumes inv: "sofa_inv b" "seat_inv b" "\<And>j. flow_inv b j" and i: "i < num_customers b" and st: "customer_step b i = Some b'"
  shows "sofa_inv b'"
proof -
  have fi: "flow_inv b i" by (rule inv(3))
  have c: "num_customers b' = num_customers b" "baking b' = baking b" "ready_to_pay b' = ready_to_pay b" "chef b' = chef b"
    using st by (auto simp: customer_step_def num_customers_def split: cust_pc.splits if_splits)
  have add: "sofa_inv b'" if "on_sofa b' = on_sofa b @ [j]" "j < num_customers b" "\<not> holds_seat b j" "\<not> baking b j"
      "\<And>m. holds_seat b' m \<and> \<not> baking b m \<longleftrightarrow> holds_seat b m \<and> \<not> baking b m \<or> m = j" for j
    using inv(1) that unfolding sofa_inv_def c by auto
  consider (sit) t where "cust b i = Entering t" "sofa_count b < MAX_SOFA" | (leave) "cust b i = AwaitDone"
    | (other) "\<not> (\<exists>t. cust b i = Entering t \<and> sofa_count b < MAX_SOFA)" "cust b i \<noteq> AwaitDone" by blast
  then show ?thesis
  proof cases
    case (sit t)
    have b': "b' = cust_try_sit b i" using st sit(1) by (auto simp: customer_step_def split: if_splits)
    show ?thesis
      by (rule add [of i]) (use sit i fi in \<open>auto simp: b' cust_try_sit_def cust_says_def safe_print_def Let_def holds_seat_def
          flow_inv_def asked_def\<close>)
  next
    case leave
    have b': "b' = cust_leave b i" using st leave by (auto simp: customer_step_def split: if_splits)
    have bk: "baking b i" using fi leave by (auto simp: flow_inv_def settled_def)
    show ?thesis
    proof (cases "queue b")
      case Nil
      then have h: "\<not> standing_head b < length (standing b)" by (simp add: queue_def)
      have e: "on_sofa b' = on_sofa b" "seated b' = seated b" "cust b' = (cust b)(i := Gone)"
        using h by (simp_all add: b' cust_leave_def cust_says_def safe_print_def Let_def)
      have "holds_seat b' m \<and> \<not> baking b m \<longleftrightarrow> holds_seat b m \<and> \<not> baking b m" for m
        using bk by (auto simp: holds_seat_def e)
      then show ?thesis using inv(1) unfolding sofa_inv_def c e by simp
    next
      case (Cons j js)
      then have h: "standing_head b < length (standing b)" "standing b ! standing_head b = j"
        by (auto simp: queue_def) (metis drop_eq_Nil not_le list.discI, metis hd_drop_conv_nth list.sel(1) drop_eq_Nil not_le list.discI)
      have j: "j < num_customers b" "waits_for_seat b j" using inv(2) Cons by (auto simp: seat_inv_def)
      have fj: "flow_inv b j" by (rule inv(3))
      have e: "on_sofa b' = on_sofa b @ [j]" "seated b' = (seated b)(j := True)" "cust b' = (cust b)(i := Gone)"
        using h by (simp_all add: b' cust_leave_def cust_says_def safe_print_def Let_def)
      show ?thesis
        by (rule add [OF e(1) j(1)]) (use j(2) fj bk leave in \<open>auto simp: holds_seat_def waits_for_seat_def e flow_inv_def asked_def\<close>)
    qed
  next
    case other
    have "\<not> seated b i" if "cust b i = Entering t" for t using inv(2) that by (auto simp: seat_inv_def before_sofa_def)
    then show ?thesis
      by (intro sofa_same [OF inv(1) c(1) _ c(2-4)])
        (use st other in \<open>auto simp: bakery_step_defs cust_try_sit_def holds_seat_def fun_eq_iff split: cust_pc.splits if_splits\<close>)
  qed
qed

section \<open>The invariant\<close>

definition inside :: "bakery \<Rightarrow> nat \<Rightarrow> bool" where
  "inside b i \<longleftrightarrow> cust b i \<noteq> AwaitArrival \<and> cust b i \<noteq> Gone \<and> cust b i \<noteq> Refused"

definition count_inv :: "bakery \<Rightarrow> bool" where
  "count_inv b \<longleftrightarrow> customers_inside b = card {i. i < num_customers b \<and> inside b i} \<and>
     customers_finished b = card {i. i < num_customers b \<and> cust b i = Gone} \<and>
     (customers_finished b < num_customers b \<longrightarrow> timer b = Asleep) \<and>
     (\<forall>i. num_customers b \<le> i \<longrightarrow> cust b i = AwaitArrival)"

definition bakery_inv :: "bakery \<Rightarrow> bool" where
  "bakery_inv b \<longleftrightarrow> chef_inv b \<and> seat_inv b \<and> sofa_inv b \<and> team_inv b \<and> count_inv b \<and>
     (\<forall>i. flow_inv b i) \<and> (\<forall>k. work_inv b k)"

lemma count_same:
  assumes "count_inv b" "customers b' = customers b" "cust b' = cust b" "customers_inside b' = customers_inside b"
    and "customers_finished b' = customers_finished b" "timer b' = timer b"
  shows "count_inv b'"
  using assms by (simp add: count_inv_def num_customers_def inside_def)

lemma count_customer:
  assumes inv: "count_inv b" and i: "i < num_customers b" and st: "customer_step b i = Some b'"
  shows "count_inv b'"
proof -
  let ?n = "num_customers b"
  have n: "num_customers b' = ?n" "timer b' = timer b"
    using st by (auto simp: customer_step_def num_customers_def split: cust_pc.splits if_splits)
  have other: "inside b' j = inside b j" "(cust b' j = Gone) = (cust b j = Gone)" if "j \<noteq> i" for j
    using st that by (auto simp: customer_step_def inside_def split: cust_pc.splits if_splits)
  have out: "\<forall>j. ?n \<le> j \<longrightarrow> cust b' j = AwaitArrival"
    using inv i st by (auto simp: customer_step_def count_inv_def split: cust_pc.splits if_splits)
  have keep: "count_inv b'" if "inside b' i = inside b i" "cust b i \<noteq> Gone" "cust b' i \<noteq> Gone"
      "customers_inside b' = customers_inside b" "customers_finished b' = customers_finished b"
  proof -
    have "inside b' = inside b" "(\<lambda>j. cust b' j = Gone) = (\<lambda>j. cust b j = Gone)"
      using other that(1-3) by (auto simp: fun_eq_iff, metis+)
    then show ?thesis using inv that(4,5) out unfolding count_inv_def n by (simp add: fun_eq_iff)
  qed
  show ?thesis
  proof (cases "cust b i")
    case AwaitArrival
    show ?thesis
    proof (cases "customers_inside b \<ge> MAX_CUSTOMERS")
      case True
      then show ?thesis using st AwaitArrival
        by (intro keep) (auto simp: customer_step_def cust_arrive_def inside_def split: if_splits)
    next
      case False
      have b': "b' = cust_arrive b i" using st AwaitArrival by (auto simp: customer_step_def split: if_splits)
      have "card {j. j < ?n \<and> inside b' j} = Suc (card {j. j < ?n \<and> inside b j})"
        by (rule card_gain [OF i]) (use AwaitArrival False other(1) in \<open>auto simp: inside_def b'\<close>)
      moreover have "(\<lambda>j. cust b' j = Gone) = (\<lambda>j. cust b j = Gone)" using AwaitArrival False by (auto simp: b' fun_eq_iff)
      moreover have "customers_inside b' = Suc (customers_inside b)" "customers_finished b' = customers_finished b"
        using False by (simp_all add: b' cust_arrive_def cust_says_def safe_print_def Let_def)
      ultimately show ?thesis using inv out unfolding count_inv_def n by (simp add: fun_eq_iff)
    qed
  next
    case AwaitDone
    have b': "b' = cust_leave b i" using st AwaitDone by (auto simp: customer_step_def split: if_splits)
    have "card {j. j < ?n \<and> inside b j} = Suc (card {j. j < ?n \<and> inside b' j})"
      by (rule card_lose [OF i]) (use AwaitDone other(1) in \<open>auto simp: inside_def b'\<close>)
    moreover have "card {j. j < ?n \<and> cust b' j = Gone} = Suc (card {j. j < ?n \<and> cust b j = Gone})"
      by (rule card_gain [OF i]) (use AwaitDone in \<open>auto simp: b'\<close>)
    moreover have "customers_inside b' = customers_inside b - 1" "customers_finished b' = Suc (customers_finished b)"
      by (simp_all add: b' cust_leave_def cust_says_def safe_print_def Let_def)
    ultimately show ?thesis using inv out unfolding count_inv_def n by simp
  next
    case (Entering t)
    then show ?thesis using st by (intro keep) (auto simp: customer_step_def cust_try_sit_def cust_says_def safe_print_def Let_def inside_def split: if_splits)
  next
    case (Sitting t)
    then show ?thesis using st by (intro keep) (auto simp: bakery_step_defs inside_def split: if_splits)
  next
    case Standing
    then show ?thesis using st by (intro keep) (auto simp: bakery_step_defs inside_def split: if_splits)
  next
    case AwaitCake
    then show ?thesis using st by (intro keep) (auto simp: bakery_step_defs inside_def split: if_splits)
  qed (use st in \<open>auto simp: customer_step_def\<close>)
qed

lemma bakery_inv_timer:
  assumes inv: "bakery_inv b" and b': "b' = b\<lparr>current_time := current_time b + d, simulation_done := sd, timer := tm\<rparr>" "d \<ge> 0"
    and tm: "customers_finished b < num_customers b \<longrightarrow> tm = Asleep"
  shows "bakery_inv b'"
proof -
  have "flow_inv b' i" if "flow_inv b i" for i using that b'(2) by (auto simp: flow_inv_def b'(1))
  moreover have "work_inv b' k" if "work_inv b k" for k using that by (simp add: work_inv_def b'(1))
  moreover have "chef_inv b'" using inv by (simp add: bakery_inv_def chef_inv_def bakes_def accepts_def b'(1))
  moreover have "seat_inv b'"
    by (rule seat_inv_same_cust [of b]) (use inv in \<open>auto simp: bakery_inv_def b'(1) same_seats_def\<close>)
  moreover have "sofa_inv b'"
    by (rule sofa_same [of b]) (use inv in \<open>auto simp: bakery_inv_def b'(1) num_customers_def holds_seat_def fun_eq_iff\<close>)
  moreover have "team_inv b'" using inv by (simp add: bakery_inv_def team_inv_def b'(1))
  moreover have "count_inv b'" using inv tm by (simp add: bakery_inv_def count_inv_def num_customers_def inside_def b'(1))
  ultimately show ?thesis using inv by (simp add: bakery_inv_def)
qed

lemma bakery_inv_init: "bakery_inv (bakery_init cs)"
proof -
  let ?b = "bakery_init cs"
  have "chef_inv ?b" by (simp add: chef_inv_def bakes_def accepts_def bakery_init_def)
  moreover have "seat_inv ?b" by (simp add: seat_inv_def holds_seat_def waits_for_seat_def queue_def bakery_init_def)
  moreover have "sofa_inv ?b" by (simp add: sofa_inv_def holds_seat_def bakery_init_def)
  moreover have "team_inv ?b" by (simp add: team_inv_def bakery_init_def)
  moreover have "count_inv ?b" by (simp add: count_inv_def inside_def num_customers_def bakery_init_def)
  moreover have "flow_inv ?b i" "work_inv ?b k" for i k
    by (simp_all add: flow_inv_def work_inv_def asked_def settled_def bakery_init_def)
  ultimately show ?thesis by (simp add: bakery_inv_def)
qed

lemma bakery_inv_step:
  assumes inv: "bakery_inv b" and st: "bakery_step b b'"
  shows "bakery_inv b'"
proof -
  have I: "chef_inv b" "seat_inv b" "sofa_inv b" "team_inv b" "count_inv b" "\<And>i. flow_inv b i" "\<And>k. work_inv b k"
    using inv by (auto simp: bakery_inv_def)
  show ?thesis
    using st
  proof cases
    case (Customer i)
    note 1 = Customer
    show ?thesis unfolding bakery_inv_def
      using chef_inv_same [OF customer_same_chefs [OF 1(2)] I(1)] seat_inv_customer [OF I(2) 1] sofa_customer [OF I(3,2,6) 1]
        team_customer [OF I(6,4) 1(2)] count_customer [OF I(5) 1] flow_customer [OF I(6) 1(2)] work_customer [OF I(6,7) 1(2)]
      by blast
  next
    case (Chef k)
    note 2 = Chef
    note F = chef_step_frame [OF 2(2)]
    show ?thesis unfolding bakery_inv_def
      using chef_step_chef_inv [OF I(1) 2] seat_inv_same_cust [OF F(1,2) I(2)] sofa_chef [OF I(1,3,4) 2]
        team_chef [OF I(1,6,7,4) 2] count_same [OF I(5) F(11,2,9,10,12)] flow_chef [OF I(1,6,7) 2] work_chef [OF I(1,6,7,4) 2]
      by blast
  next
    case Timer
    then have "b' = b\<lparr>current_time := current_time b + 1, simulation_done := simulation_done b,
        timer := (if customers_finished b < num_customers b then Asleep else Stopped)\<rparr>"
      by (auto simp: timer_step_def split: timer_pc.splits)
    then show ?thesis by (rule bakery_inv_timer [OF inv]) auto
  next
    case Main
    then have "b' = b\<lparr>current_time := current_time b + 0, simulation_done := True, timer := timer b\<rparr>"
      by (auto simp: main_step_def split: if_splits)
    then show ?thesis by (rule bakery_inv_timer [OF inv]) (use I(5) in \<open>auto simp: count_inv_def\<close>)
  qed
qed

lemma bakery_step_customers: "bakery_step b b' \<Longrightarrow> customers b' = customers b"
  by (erule bakery_stepE)
    (auto simp: customer_step_def chef_step_frame timer_step_def main_step_def split: cust_pc.splits timer_pc.splits if_splits)

interpretation bs: invariant_system "\<lambda>b. b = bakery_init cs" bakery_step "\<lambda>b. bakery_inv b \<and> customers b = cs" for cs
proof
  show "bakery_inv b \<and> customers b = cs" if "b = bakery_init cs" for b
    using that bakery_inv_init by (simp add: bakery_init_def)
  show "bakery_inv b' \<and> customers b' = cs" if "bakery_step b b'" "bakery_inv b \<and> customers b = cs" for b b'
    using that bakery_inv_step bakery_step_customers by blast
qed

lemma bakery_reachable_steps: "bakery_reachable cs b \<Longrightarrow> rtranclp bakery_step (bakery_init cs) b"
  by (induction rule: bakery_reachable.induct) (auto intro: rtranclp.rtrancl_into_rtrancl)

lemma bakery_invariant: "bakery_reachable cs b \<Longrightarrow> bakery_inv b \<and> customers b = cs"
  by (rule bs.reachable_inv [OF bakery_reachable_steps refl])

section \<open>A run\<close>

text \<open>
  A schedule names the thread of each step: the customers, the chefs or the timer.  The runs of
  one customer up to the request for the cake, and up to the payment three ticks later.
\<close>

datatype thread = C nat | K nat | T

fun thread_step :: "bakery \<Rightarrow> thread \<Rightarrow> bakery option" where
  "thread_step b (C i) = (if i < num_customers b then customer_step b i else None)"
| "thread_step b (K k) = (if k < MAX_CHEFS then chef_step b k else None)"
| "thread_step b T = timer_step b"

fun sched :: "bakery \<Rightarrow> thread list \<Rightarrow> bakery option" where
  "sched b [] = Some b"
| "sched b (t # ts) = (case thread_step b t of None \<Rightarrow> None | Some b' \<Rightarrow> sched b' ts)"

lemma thread_step_step: "thread_step b t = Some b' \<Longrightarrow> bakery_step b b'"
  by (cases t) (auto split: if_splits intro: bakery_step.intros)

lemma sched_reachable: "sched b ts = Some b' \<Longrightarrow> bakery_reachable cs b \<Longrightarrow> bakery_reachable cs b'"
  by (induction b ts rule: sched.induct)
    (auto split: option.splits dest!: thread_step_step intro: bakery_reachable.Step)

lemma sched_the: "sched (bakery_init cs) ts \<noteq> None \<Longrightarrow> bakery_reachable cs (the (sched (bakery_init cs) ts))"
  by (auto intro: sched_reachable bakery_reachable.Init)

lemmas run_defs = bakery_init_def customer_step_def timer_step_def chef_step_def cust_arrive_def cust_try_sit_def
  cust_request_def cust_pay_def cust_says_def chef_says_def safe_print_def num_customers_def can_accept_def chef_bake_def
  wants_cake_def MAX_CUSTOMERS_def MAX_SOFA_def MAX_CHEFS_def MAX_OVENS_def

definition run_request :: bakery where
  "run_request = the (sched (bakery_init [(1, 5)]) [C 0, T, C 0, T, C 0])"

definition run_paid :: bakery where
  "run_paid = the (sched (bakery_init [(1, 5)]) [C 0, T, C 0, T, C 0, T, K 1, K 1, T, T, K 1, C 0])"

lemma run_request_reachable: "bakery_reachable [(1, 5)] run_request"
  unfolding run_request_def by (rule sched_the) (simp add: run_defs)

lemma run_paid_reachable: "bakery_reachable [(1, 5)] run_paid"
  unfolding run_paid_def by (rule sched_the) (simp add: run_defs)

lemma run_request_state: "cust run_request 0 = AwaitCake" "\<not> ready_to_pay run_request 0"
  "sofa_count run_request = 1" "customers_finished run_request = 0"
  by (simp_all add: run_request_def run_defs)

lemma run_paid_state: "paid run_paid 0" "request_time run_paid 0 = 7"
  by (simp_all add: run_paid_def run_defs)

section \<open>Properties\<close>

text \<open>
  C13: in every reachable state of the bakery the counters are right and the capacities hold:
  \<^verbatim>\<open>sofa_count\<close> is the number of customers who have a seat and is at most 4; nobody stands while a
  seat is free; \<^verbatim>\<open>ovens_used\<close> is the number of chefs who bake, at most 4; at most one chef is at the
  till, exactly when \<^verbatim>\<open>cashier_free\<close> is 0; and a chef is counted idle exactly when not at work.
\<close>

theorem bakery_capacity:
  assumes "bakery_reachable cs b"
  shows "sofa_count b = card {i. i < length cs \<and> holds_seat b i} \<and> sofa_count b \<le> 4 \<and>
    (sofa_count b < 4 \<longrightarrow> (\<forall>i < length cs. cust b i = Standing \<longrightarrow> seated b i)) \<and>
    ovens_used b = card {k. k < 4 \<and> bakes b k} \<and> ovens_used b \<le> 4 \<and>
    card {k. k < 4 \<and> accepts b k} = (if cashier_free b then 0 else 1) \<and>
    chefs_idle b = card {k. k < 4 \<and> \<not> bakes b k \<and> \<not> accepts b k}"
proof -
  have I: "chef_inv b" "seat_inv b" "num_customers b = length cs"
    using bakery_invariant [OF assms] by (auto simp: bakery_inv_def num_customers_def)
  have eq: "{k. k < MAX_CHEFS \<and> \<not> bakes b k \<and> \<not> accepts b k} = {k. k < MAX_CHEFS} - {k. k < MAX_CHEFS \<and> (bakes b k \<or> accepts b k)}"
    by auto
  have "card {k. k < MAX_CHEFS \<and> \<not> bakes b k \<and> \<not> accepts b k} = card {k. k < MAX_CHEFS} - card {k. k < MAX_CHEFS \<and> (bakes b k \<or> accepts b k)}"
    unfolding eq by (rule card_Diff_subset) auto
  then have idle: "chefs_idle b = card {k. k < 4 \<and> \<not> bakes b k \<and> \<not> accepts b k}"
    using I(1) by (auto simp: chef_inv_def MAX_CHEFS_def)
  have st: "\<forall>i < length cs. cust b i = Standing \<longrightarrow> seated b i" if "sofa_count b < 4"
  proof -
    have "queue b = []" using I(2) that by (auto simp: seat_inv_def MAX_SOFA_def)
    then show ?thesis using I(2,3) by (auto simp: seat_inv_def waits_for_seat_def)
  qed
  show ?thesis
    using I idle st card_below [of 4 "bakes b"] by (auto simp: chef_inv_def seat_inv_def MAX_CHEFS_def MAX_SOFA_def)
qed

theorem bakery_capacity_witness:
  "bakery_reachable [(1, 5)] run_request \<and> sofa_count run_request = 1 \<and>
   sofa_count run_request = card {i. i < length [(1::int, 5::int)] \<and> holds_seat run_request i}"
  using bakery_capacity [OF run_request_reachable] run_request_reachable run_request_state(3) by blast

text \<open>
  C14: no request for a cake is lost.  A customer who asked for a cake that is not ready is in
  the queue of the sofa or is being baked for by a chef, and a chef who finds a request has
  an oven and is counted idle, so it does start to bake when it takes the request off the
  queue.
\<close>

theorem bakery_no_request_lost:
  assumes "bakery_reachable cs b" "i < length cs" "cust b i = AwaitCake" "\<not> ready_to_pay b i"
  shows "(i \<in> set (on_sofa b) \<or> (\<exists>k < 4. \<exists>l t. chef b k = BakingFor l i t)) \<and>
    (\<forall>k < 4. \<forall>l. chef b k = Looking l \<longrightarrow> ovens_used b < 4 \<and> 0 < chefs_idle b)"
proof -
  have I: "chef_inv b" "sofa_inv b" "num_customers b = length cs"
    using bakery_invariant [OF assms(1)] by (auto simp: bakery_inv_def num_customers_def)
  have "holds_seat b i" using assms(3) by (simp add: holds_seat_def)
  then have "i \<in> set (on_sofa b) \<or> (\<exists>k < 4. \<exists>l t. chef b k = BakingFor l i t)"
    using I(2,3) assms(2,4) by (auto simp: sofa_inv_def MAX_CHEFS_def)
  moreover have "ovens_used b < 4 \<and> 0 < chefs_idle b" if "k < 4" "chef b k = Looking l" for k l
    using chef_free [OF I(1), of k] that by (auto simp: bakes_def accepts_def MAX_CHEFS_def MAX_OVENS_def)
  ultimately show ?thesis by blast
qed

theorem bakery_no_request_lost_witness:
  "bakery_reachable [(1, 5)] run_request \<and> cust run_request 0 = AwaitCake \<and>
   (0 \<in> set (on_sofa run_request) \<or> (\<exists>k < 4. \<exists>l t. chef run_request k = BakingFor l 0 t))"
  using bakery_no_request_lost [OF run_request_reachable, of 0] run_request_reachable by (simp add: run_request_state)



text \<open>
  C16: with at most 25 customers the arrays of the program are never overrun: the queues hold
  every customer at most once.  No customer is turned away, and the timer runs until all have
  left.
\<close>

theorem bakery_bounds:
  assumes "bakery_reachable cs b" "length cs \<le> 25"
  shows "length (standing b) \<le> 25 \<and> length (on_sofa b) \<le> 25 \<and> length (waiting_payment b) \<le> 25 \<and>
    (\<forall>i < length cs. cust b i = AwaitArrival \<longrightarrow> customers_inside b < 25) \<and>
    (customers_finished b < length cs \<longrightarrow> timer b = Asleep)"
proof -
  have I: "seat_inv b" "sofa_inv b" "team_inv b" "count_inv b" "num_customers b = length cs" "\<And>i. flow_inv b i"
    using bakery_invariant [OF assms(1)] by (auto simp: bakery_inv_def num_customers_def)
  have len: "length xs \<le> length cs" if "distinct xs" "\<forall>i \<in> set xs. i < length cs" for xs
  proof -
    have "card (set xs) \<le> card {..<length cs}" using that(2) by (intro card_mono) auto
    then show ?thesis using that(1) by (simp add: distinct_card)
  qed
  have "length (standing b) \<le> length cs" using I(1,5) by (intro len) (auto simp: seat_inv_def)
  moreover have "length (on_sofa b) \<le> length cs" using I(2,5) by (intro len) (auto simp: sofa_inv_def)
  moreover have "customers_inside b < length cs" if "i < length cs" "cust b i = AwaitArrival" for i
    using card_miss [of i "length cs" "inside b"] that I(4,5) by (simp add: count_inv_def inside_def)
  moreover have "i < length cs" if "paid b i" for i
    using I(6) [of i] I(4,5) that by (auto simp: flow_inv_def count_inv_def settled_def not_less [symmetric])
  then have "length (waiting_payment b) \<le> length cs" using I(3) by (intro len) (auto simp: team_inv_def)
  ultimately show ?thesis using assms(2) I(4,5) unfolding count_inv_def by fastforce
qed

theorem bakery_bounds_witness:
  "bakery_reachable [(1, 5)] run_request \<and> length (on_sofa run_request) \<le> 25 \<and> timer run_request = Asleep"
  using bakery_bounds [OF run_request_reachable] run_request_reachable by (simp add: run_request_state)

end
