(* ===== verification/Ring.thy ===== *)
theory Ring
  imports Prelude
begin

text \<open>
  Circular buffers indexed by free-running 32-bit counters, as \<^verbatim>\<open>pipe.c\<close> and \<^verbatim>\<open>console.c\<close> use
  them: slot \<open>i % SIZE\<close> of the array holds the byte with index \<open>i\<close>.  The counters wrap at
  \<open>2^32\<close>; as the size divides \<open>2^32\<close> the slots stay in step.
\<close>

definition ring :: "uint8 list \<Rightarrow> uint32 \<Rightarrow> uint32 \<Rightarrow> uint8 list" where
  "ring buf r w = map (\<lambda>k. buf ! (unat (r + of_nat k) mod length buf)) [0..<unat (w - r)]"

definition ring_size :: "uint8 list \<Rightarrow> bool" where
  "ring_size buf \<longleftrightarrow> 0 < length buf \<and> length buf < 2 ^ 32 \<and> length buf dvd 2 ^ 32"

lemma length_ring [simp]: "length (ring buf r w) = unat (w - r)"
  by (simp add: ring_def)

lemma ring_empty_iff [simp]: "ring buf r w = [] \<longleftrightarrow> r = w"
  by (metis eq_iff_diff_eq_0 length_0_conv length_ring unat_eq_zero)

lemma ring_same [simp]: "ring buf r r = []"
  by simp

lemma ring_slot:
  assumes "ring_size buf"
  shows "unat (r + of_nat k :: uint32) mod length buf = (unat r + k) mod length buf"
proof -
  have "unat (r + of_nat k :: uint32) = (unat r + k) mod 2 ^ 32"
    by (simp add: unat_word_ariths unat_of_nat mod_simps)
  then show ?thesis using assms by (simp add: ring_size_def mod_mod_cancel)
qed

lemma unat_Suc32: "unat x < 2 ^ 32 - 1 \<Longrightarrow> unat (x + 1 :: uint32) = unat x + 1"
  by (simp add: unat_word_ariths)

lemma unat_Suc_diff: "unat (w - r :: uint32) < 2 ^ 32 - 1 \<Longrightarrow> unat (w + 1 - r) = unat (w - r) + 1"
  using unat_Suc32 [of "w - r"] by (simp add: algebra_simps)

lemma mod_add_inj:
  fixes a i j n :: nat
  assumes "(a + i) mod n = (a + j) mod n" "i < n" "j < n"
  shows "i = j"
  using assms
proof (induction i j rule: linorder_wlog)
  case (le i j)
  then have "n dvd a + j - (a + i)" by (metis mod_eq_dvd_iff_nat nat_add_left_cancel_le)
  then show ?case using le by (auto dest: dvd_imp_le)
qed auto

lemma ring_slot_inj:
  assumes "ring_size buf" "i < length buf" "j < length buf"
    and "unat (r + of_nat i :: uint32) mod length buf = unat (r + of_nat j :: uint32) mod length buf"
  shows "i = j"
  using assms mod_add_inj [of "unat r" i "length buf" j] by (simp add: ring_slot)

lemma ring_write_beyond:
  assumes "ring_size buf" "unat (w - r) \<le> unat (e - r)" "unat (e - r) < length buf"
  shows "ring (buf[unat e mod length buf := c]) r w = ring buf r w"
proof -
  have e: "e = r + of_nat (unat (e - r))" by simp
  have "unat (r + of_nat k) mod length buf \<noteq> unat e mod length buf" if "k < unat (w - r)" for k
    using ring_slot_inj [OF assms(1), of k "unat (e - r)" r] assms(2,3) that by (subst e) auto
  then show ?thesis by (force simp: ring_def intro!: nth_list_update_neq)
qed

lemma ring_extend:
  assumes "unat (w - r) < 2 ^ 32 - 1"
  shows "ring buf r (w + 1) = ring buf r w @ [buf ! (unat w mod length buf)]"
  by (simp add: ring_def unat_Suc_diff [OF assms])

lemma ring_push:
  assumes "ring_size buf" "unat (w - r) < length buf"
  shows "ring (buf[unat w mod length buf := c]) r (w + 1) = ring buf r w @ [c]"
proof -
  have "unat (w - r) < 2 ^ 32 - 1" using assms by (auto simp: ring_size_def)
  then show ?thesis
    using assms ring_write_beyond [OF assms(1) order_refl assms(2)] by (simp add: ring_extend ring_size_def)
qed

lemma ring_pop:
  assumes "r \<noteq> w"
  shows "ring buf r w = buf ! (unat r mod length buf) # ring buf (r + 1) w"
proof -
  have d: "w - r \<noteq> 0" using assms by simp
  then have "unat (w - (r + 1)) = unat (w - r) - 1"
    by (metis diff_diff_eq unat_minus_one)
  moreover have "0 < unat (w - r)" using d unat_gt_0 by blast
  ultimately have "unat (w - r) = Suc (unat (w - (r + 1)))" by linarith
  then have "[0..<unat (w - r)] = 0 # map Suc [0..<unat (w - (r + 1))]"
    by (simp add: upt_conv_Cons map_Suc_upt del: upt_Suc)
  then show ?thesis by (simp add: ring_def add.assoc)
qed

lemma ring_unpush:
  assumes "r \<noteq> w"
  shows "ring buf r w = ring buf r (w - 1) @ [buf ! (unat (w - 1) mod length buf)]"
proof -
  have "w - 1 - r = (w - r) - 1" by simp
  moreover have "w - r \<noteq> 0" using assms by simp
  ultimately have "unat (w - 1 - r) = unat (w - r) - 1" using unat_minus_one by metis
  moreover have "unat (w - r) < 2 ^ 32" using unsigned_less [of "w - r"] by simp
  moreover have "0 < unat (w - r)" using \<open>w - r \<noteq> 0\<close> unat_gt_0 by blast
  ultimately have "unat (w - 1 - r) < 2 ^ 32 - 1" by linarith
  from ring_extend [OF this] show ?thesis by simp
qed

text \<open>A buffer with a middle mark: a committed part and a part that is still edited.\<close>

lemma unat_diff_sum:
  fixes r w e :: uint32
  assumes "unat (w - r) + unat (e - w) < 2 ^ 32"
  shows "unat (e - r) = unat (w - r) + unat (e - w)"
proof -
  have "e - r = (w - r) + (e - w)" by simp
  then show ?thesis using assms by (simp only: unat_word_ariths) simp
qed

lemma ring_split:
  assumes "unat (w - r) + unat (e - w) < 2 ^ 32"
  shows "ring buf r e = ring buf r w @ ring buf w e"
proof (rule nth_equalityI)
  show "length (ring buf r e) = length (ring buf r w @ ring buf w e)"
    using unat_diff_sum [OF assms] by simp
next
  fix i assume i: "i < length (ring buf r e)"
  have "r + of_nat i = w + of_nat (i - unat (w - r))" if "unat (w - r) \<le> i"
    using that by (simp add: of_nat_diff)
  then show "ring buf r e ! i = (ring buf r w @ ring buf w e) ! i"
    using i unat_diff_sum [OF assms] by (auto simp: ring_def nth_append add.commute)
qed

end
