(* ===== verification/Pipe.thy ===== *)
theory Pipe
  imports Ring Fifo_Spec Transition_System
begin

text \<open>
  Pipes, \<^verbatim>\<open>kernel/pipe.c\<close>.  A call to \<open>pipewrite\<close> or \<open>piperead\<close> holds the lock of the pipe except
  while it sleeps, so what it does from one wake-up to the next is one function that says how
  the call goes on (it returned, or sleeps with \<open>i\<close> bytes done) and whether the other side was
  woken.  \<^verbatim>\<open>copyin\<close> of byte \<open>i\<close> of the call is \<open>src i\<close>, absent when the address is bad; \<^verbatim>\<open>copyout\<close>
  of byte \<open>i\<close> succeeds when \<open>sink i\<close>; \<open>killed i\<close> is what \<^verbatim>\<open>killed(pr)\<close> answers when \<open>i\<close> bytes are done.
\<close>

section \<open>Definitions\<close>

definition PIPESIZE :: nat where "PIPESIZE = 512"

record pipe =
  pi_data :: "uint8 list"
  pi_nread :: uint32
  pi_nwrite :: uint32
  pi_readopen :: bool
  pi_writeopen :: bool

datatype outcome = Returned int | Sleeping int

text \<open>The pipe part of \<^verbatim>\<open>pipealloc\<close>; the page it lives in holds arbitrary \<open>data\<close>.\<close>

definition pipe_init :: "uint8 list \<Rightarrow> pipe" where
  "pipe_init data = \<lparr>pi_data = data, pi_nread = 0, pi_nwrite = 0, pi_readopen = True, pi_writeopen = True\<rparr>"

text \<open>The pipe after \<^verbatim>\<open>pipeclose\<close>, and whether its page was freed.\<close>

definition pipeclose :: "pipe \<Rightarrow> bool \<Rightarrow> pipe \<times> bool" where
  "pipeclose p writable =
     (let p' = (if writable then p\<lparr>pi_writeopen := False\<rparr> else p\<lparr>pi_readopen := False\<rparr>)
      in (p', \<not> pi_readopen p' \<and> \<not> pi_writeopen p'))"

definition pipe_full :: "pipe \<Rightarrow> bool" where
  "pipe_full p \<longleftrightarrow> pi_nwrite p = pi_nread p + of_nat PIPESIZE"

definition pipe_store :: "pipe \<Rightarrow> uint8 \<Rightarrow> pipe" where
  "pipe_store p ch = p\<lparr>pi_data := (pi_data p)[unat (pi_nwrite p) mod PIPESIZE := ch], pi_nwrite := pi_nwrite p + 1\<rparr>"

function pipewrite :: "(int \<Rightarrow> bool) \<Rightarrow> (int \<Rightarrow> uint8 option) \<Rightarrow> pipe \<Rightarrow> int \<Rightarrow> int \<Rightarrow> outcome \<times> pipe \<times> bool" where
  "pipewrite killed src p i n =
     (if i < n then
        if \<not> pi_readopen p \<or> killed i then (Returned (-1), p, False)
        else if pipe_full p then (Sleeping i, p, True)
        else case src i of None \<Rightarrow> (Returned i, p, True)
                         | Some ch \<Rightarrow> pipewrite killed src (pipe_store p ch) (i + 1) n
      else (Returned i, p, True))"
  by pat_completeness auto
termination
  by (relation "measure (\<lambda>(killed, src, p, i, n). nat (n - i))") auto

declare pipewrite.simps [simp del]

definition pipe_fetch :: "pipe \<Rightarrow> uint8 \<times> pipe" where
  "pipe_fetch p = (pi_data p ! (unat (pi_nread p) mod PIPESIZE), p\<lparr>pi_nread := pi_nread p + 1\<rparr>)"

text \<open>The copy loop of \<^verbatim>\<open>piperead\<close> also lists the bytes it hands to \<^verbatim>\<open>copyout\<close>.\<close>

function piperead_copy :: "(int \<Rightarrow> bool) \<Rightarrow> pipe \<Rightarrow> int \<Rightarrow> int \<Rightarrow> int \<times> pipe \<times> uint8 list" where
  "piperead_copy sink p i n =
     (if i < n then
        if pi_nread p = pi_nwrite p then (i, p, [])
        else let (ch, p1) = pipe_fetch p in
          if \<not> sink i then (i, p1, [ch])
          else let (j, p2, out) = piperead_copy sink p1 (i + 1) n in (j, p2, ch # out)
      else (i, p, []))"
  by pat_completeness auto
termination
  by (relation "measure (\<lambda>(sink, p, i, n). nat (n - i))") auto

declare piperead_copy.simps [simp del]

definition piperead :: "bool \<Rightarrow> (int \<Rightarrow> bool) \<Rightarrow> pipe \<Rightarrow> int \<Rightarrow> outcome \<times> pipe \<times> bool \<times> uint8 list" where
  "piperead killed sink p n =
     (if pi_nread p = pi_nwrite p \<and> pi_writeopen p then
        if killed then (Returned (-1), p, False, []) else (Sleeping 0, p, False, [])
      else let (i, p', out) = piperead_copy sink p 0 n in (Returned i, p', True, out))"

section \<open>The bytes in the pipe\<close>

definition pipe_contents :: "pipe \<Rightarrow> uint8 list" where
  "pipe_contents p = ring (pi_data p) (pi_nread p) (pi_nwrite p)"

definition pipe_inv :: "pipe \<Rightarrow> bool" where
  "pipe_inv p \<longleftrightarrow> length (pi_data p) = PIPESIZE \<and> length (pipe_contents p) \<le> PIPESIZE"

lemma pipe_ring: "pipe_inv p \<Longrightarrow> ring_size (pi_data p)"
  by (simp add: pipe_inv_def ring_size_def PIPESIZE_def)

lemma pipe_full_iff: "pipe_inv p \<Longrightarrow> pipe_full p \<longleftrightarrow> length (pipe_contents p) = PIPESIZE"
proof -
  have "pi_nwrite p = pi_nread p + 512 \<longleftrightarrow> pi_nwrite p - pi_nread p = 512" by (auto simp: algebra_simps)
  also have "\<dots> \<longleftrightarrow> unat (pi_nwrite p - pi_nread p) = 512" by (simp add: word_unat_eq_iff)
  finally show ?thesis by (simp add: pipe_full_def pipe_contents_def PIPESIZE_def)
qed

lemma pipe_store_contents:
  assumes "pipe_inv p" "\<not> pipe_full p"
  shows "pipe_contents (pipe_store p ch) = pipe_contents p @ [ch]" "pipe_inv (pipe_store p ch)"
proof -
  have l: "unat (pi_nwrite p - pi_nread p) < PIPESIZE" "length (pi_data p) = PIPESIZE"
    using assms pipe_full_iff [OF assms(1)] by (auto simp: pipe_inv_def pipe_contents_def)
  show c: "pipe_contents (pipe_store p ch) = pipe_contents p @ [ch]"
    using ring_push [OF pipe_ring [OF assms(1)]] l by (simp add: pipe_contents_def pipe_store_def)
  show "pipe_inv (pipe_store p ch)"
    using l unfolding pipe_inv_def c by (simp add: pipe_store_def pipe_contents_def)
qed

lemma pipe_fetch_contents:
  assumes "pipe_inv p" "pipe_contents p = c # cs"
  shows "pipe_fetch p = (c, p\<lparr>pi_nread := pi_nread p + 1\<rparr>)" "pipe_contents (p\<lparr>pi_nread := pi_nread p + 1\<rparr>) = cs"
    "pipe_inv (p\<lparr>pi_nread := pi_nread p + 1\<rparr>)"
proof -
  have "pi_nread p \<noteq> pi_nwrite p" using assms(2) by (metis list.distinct(1) pipe_contents_def ring_empty_iff)
  from ring_pop [OF this, of "pi_data p"] assms
  have *: "c = pi_data p ! (unat (pi_nread p) mod PIPESIZE)" "cs = ring (pi_data p) (pi_nread p + 1) (pi_nwrite p)"
    by (auto simp: pipe_contents_def pipe_inv_def)
  then show "pipe_fetch p = (c, p\<lparr>pi_nread := pi_nread p + 1\<rparr>)" by (simp add: pipe_fetch_def)
  show c: "pipe_contents (p\<lparr>pi_nread := pi_nread p + 1\<rparr>) = cs" using * by (simp add: pipe_contents_def)
  show "pipe_inv (p\<lparr>pi_nread := pi_nread p + 1\<rparr>)"
    using assms unfolding pipe_inv_def c by auto
qed

lemma pipe_empty_iff: "pi_nread p = pi_nwrite p \<longleftrightarrow> pipe_contents p = []"
  by (simp add: pipe_contents_def)

section \<open>The pipe is a FIFO buffer\<close>

definition pipe_put :: "pipe \<Rightarrow> uint8 \<Rightarrow> pipe option" where
  "pipe_put p ch = (if pipe_full p then None else Some (pipe_store p ch))"

definition pipe_get :: "pipe \<Rightarrow> (uint8 \<times> pipe) option" where
  "pipe_get p = (if pi_nread p = pi_nwrite p then None else Some (pipe_fetch p))"

interpretation pq: fifo_buffer pipe_contents pipe_put pipe_get pipe_inv
  "\<lambda>p. PIPESIZE - length (pipe_contents p)" "\<lambda>_ _. True" "\<lambda>_ _. True"
proof unfold_locales
  fix s x assume "pipe_inv s" "0 < PIPESIZE - length (pipe_contents s)"
  then show "\<exists>s'. pipe_put s x = Some s' \<and> pipe_inv s' \<and> pipe_contents s' = pipe_contents s @ [x] \<and>
      PIPESIZE - length (pipe_contents s') = PIPESIZE - length (pipe_contents s) - 1"
    using pipe_full_iff [of s] pipe_store_contents [of s x] by (auto simp: pipe_put_def)
next
  fix s x xs assume "pipe_inv s" "pipe_contents s = x # xs"
  then show "\<exists>s'. pipe_get s = Some (x, s') \<and> pipe_inv s' \<and> pipe_contents s' = xs"
    using pipe_fetch_contents [of s x xs] by (auto simp: pipe_get_def pipe_empty_iff)
next
  fix s assume "pipe_inv s" "pipe_contents s = []"
  then show "pipe_get s = None" by (simp add: pipe_get_def pipe_empty_iff)
qed simp

section \<open>One run of a call\<close>

lemma pipewrite_spec:
  assumes "pipe_inv p" "pipewrite killed src p i n = (out, p', wk)"
  obtains k where "pipe_contents p' = pipe_contents p @ map (\<lambda>j. the (src (i + int j))) [0..<k]" "pipe_inv p'"
    "pi_readopen p' = pi_readopen p" "pi_writeopen p' = pi_writeopen p" "pi_nread p' = pi_nread p" "\<forall>j < k. src (i + int j) \<noteq> None"
    "i \<le> n \<Longrightarrow> i + int k \<le> n"
    "out = Returned (-1) \<and> \<not> wk \<and> (\<not> pi_readopen p \<or> killed (i + int k)) \<or> out = Sleeping (i + int k) \<and> wk \<and> i + int k < n \<and> pipe_full p' \<and> pi_readopen p' \<or>
     out = Returned (i + int k) \<and> wk \<and> (i + int k \<ge> n \<or> src (i + int k) = None)"
  using assms
proof (induction killed src p i n arbitrary: thesis rule: pipewrite.induct)
  case (1 killed src p i n)
  show ?case
  proof (cases "i < n \<and> \<not> (\<not> pi_readopen p \<or> killed i) \<and> \<not> pipe_full p \<and> src i \<noteq> None")
    case False
    then show ?thesis
      using "1.prems" by (intro "1.prems"(1) [of 0]) (auto simp: pipewrite.simps [of _ _ p] split: if_splits option.splits)
  next
    case True
    then obtain ch where ch: "src i = Some ch" by auto
    have r: "pipewrite killed src (pipe_store p ch) (i + 1) n = (out, p', wk)"
      using "1.prems"(3) True ch by (simp add: pipewrite.simps [of _ _ p])
    note st = pipe_store_contents [OF "1.prems"(2), of ch]
    obtain k where k: "pipe_contents p' = pipe_contents (pipe_store p ch) @ map (\<lambda>j. the (src (i + 1 + int j))) [0..<k]" "pipe_inv p'"
      "pi_readopen p' = pi_readopen (pipe_store p ch)" "pi_writeopen p' = pi_writeopen (pipe_store p ch)"
      "pi_nread p' = pi_nread (pipe_store p ch)" "\<forall>j < k. src (i + 1 + int j) \<noteq> None"
      "i + 1 \<le> n \<Longrightarrow> i + 1 + int k \<le> n"
      "out = Returned (-1) \<and> \<not> wk \<and> (\<not> pi_readopen (pipe_store p ch) \<or> killed (i + 1 + int k)) \<or> out = Sleeping (i + 1 + int k) \<and> wk \<and> i + 1 + int k < n \<and> pipe_full p' \<and> pi_readopen p' \<or>
       out = Returned (i + 1 + int k) \<and> wk \<and> (i + 1 + int k \<ge> n \<or> src (i + 1 + int k) = None)"
      by (rule "1.IH" [OF _ _ _ ch _ st(2) r]) (use True in auto)
    have e: "map (\<lambda>j. the (src (i + int j))) [0..<Suc k] = ch # map (\<lambda>j. the (src (i + 1 + int j))) [0..<k]"
      by (simp add: upt_conv_Cons map_Suc_upt [symmetric] ch add_ac del: upt_Suc)
    have s: "\<forall>j < Suc k. src (i + int j) \<noteq> None"
      using k(6) ch by (auto simp: less_Suc_eq_0_disj add_ac)
    show ?thesis
      by (rule "1.prems"(1) [of "Suc k"]) (use k e s True st(1) in \<open>simp_all add: pipe_store_def add_ac\<close>)
  qed
qed

lemma piperead_copy_spec:
  assumes "pipe_inv p" "piperead_copy sink p i n = (j, p', out)"
  shows "pipe_contents p = out @ pipe_contents p' \<and> pipe_inv p' \<and> pi_nwrite p' = pi_nwrite p \<and>
    pi_readopen p' = pi_readopen p \<and> pi_writeopen p' = pi_writeopen p \<and> i \<le> j \<and> (i \<le> n \<longrightarrow> j \<le> n) \<and>
    (int (length out) = j - i \<and> (j \<ge> n \<or> pipe_contents p' = []) \<or> int (length out) = j - i + 1 \<and> j < n \<and> \<not> sink j)"
  using assms
proof (induction sink p i n arbitrary: j p' out rule: piperead_copy.induct)
  case (1 sink p i n)
  show ?case
  proof (cases "i < n \<and> pi_nread p \<noteq> pi_nwrite p")
    case False
    then show ?thesis using "1.prems" by (auto simp: piperead_copy.simps [of _ p] pipe_empty_iff split: if_splits)
  next
    case True
    then obtain c cs where c: "pipe_contents p = c # cs" by (metis list.exhaust pipe_empty_iff)
    note f = pipe_fetch_contents [OF "1.prems"(1) c]
    show ?thesis
    proof (cases "sink i")
      case False
      then show ?thesis using "1.prems" True f c by (auto simp: piperead_copy.simps [of _ p])
    next
      case s: True
      obtain j' p2 out' where r: "piperead_copy sink (p\<lparr>pi_nread := pi_nread p + 1\<rparr>) (i + 1) n = (j', p2, out')"
        by (metis prod_cases3)
      have e: "j = j'" "p' = p2" "out = c # out'"
        using "1.prems"(2) True s f(1) r by (simp_all add: piperead_copy.simps [of _ p])
      show ?thesis
        using "1.IH" [OF _ _ f(1) [symmetric] refl _ f(3) r] True s c f(2) unfolding e by force
    qed
  qed
qed

section \<open>Readers and writers together\<close>

text \<open>
  Any number of \<open>pipewrite\<close> and \<open>piperead\<close> calls on one pipe, scheduled in any order: \<open>src w\<close> and
  \<open>wn w\<close> are the buffer and the size of write call \<open>w\<close>, \<open>sink r\<close> and \<open>rn r\<close> those of read call \<open>r\<close>.
  A woken call runs again from its wait; \<open>Woken\<close> is a wake-up from elsewhere (\<^verbatim>\<open>kkill\<close>).  The
  histories \<open>sent\<close> and \<open>rcvd\<close> list the bytes that were stored, in the order of the stores, and
  the bytes that were handed to \<^verbatim>\<open>copyout\<close>.
\<close>

datatype pcall = Run int | Asleep int | Finished int

record pipe_sys =
  sys_pipe :: pipe
  writers :: "nat \<Rightarrow> pcall"
  readers :: "nat \<Rightarrow> pcall"
  sent :: "uint8 list"
  rcvd :: "uint8 list"

fun pcall_of :: "outcome \<Rightarrow> pcall" where
  "pcall_of (Returned v) = Finished v"
| "pcall_of (Sleeping i) = Asleep i"

fun wake :: "pcall \<Rightarrow> pcall" where
  "wake (Asleep i) = Run i"
| "wake c = c"

definition wake_all :: "bool \<Rightarrow> (nat \<Rightarrow> pcall) \<Rightarrow> nat \<Rightarrow> pcall" where
  "wake_all b f = (if b then wake \<circ> f else f)"

definition stored :: "(int \<Rightarrow> uint8 option) \<Rightarrow> int \<Rightarrow> pipe \<Rightarrow> pipe \<Rightarrow> uint8 list" where
  "stored f i p p' = map (\<lambda>j. the (f (i + int j))) [0..<unat (pi_nwrite p' - pi_nwrite p)]"

inductive pipe_step ::
  "(nat \<Rightarrow> int \<Rightarrow> uint8 option) \<Rightarrow> (nat \<Rightarrow> int) \<Rightarrow> (nat \<Rightarrow> int \<Rightarrow> bool) \<Rightarrow> (nat \<Rightarrow> int) \<Rightarrow> pipe_sys \<Rightarrow> pipe_sys \<Rightarrow> bool"
  for src wn sink rn where
  Write: "writers s w = Run i \<Longrightarrow> pipewrite killed (src w) (sys_pipe s) i (wn w) = (out, p', wk) \<Longrightarrow>
     pipe_step src wn sink rn s
       (s\<lparr>sys_pipe := p', writers := (writers s)(w := pcall_of out), readers := wake_all wk (readers s),
          sent := sent s @ stored (src w) i (sys_pipe s) p'\<rparr>)"
| Read: "readers s r = Run i \<Longrightarrow> piperead killed' (sink r) (sys_pipe s) (rn r) = (out, p', wk, bs) \<Longrightarrow>
     pipe_step src wn sink rn s
       (s\<lparr>sys_pipe := p', readers := (readers s)(r := pcall_of out), writers := wake_all wk (writers s), rcvd := rcvd s @ bs\<rparr>)"
| CloseW: "pipe_step src wn sink rn s
     (s\<lparr>sys_pipe := fst (pipeclose (sys_pipe s) True), readers := wake_all True (readers s)\<rparr>)"
| CloseR: "pipe_step src wn sink rn s
     (s\<lparr>sys_pipe := fst (pipeclose (sys_pipe s) False), writers := wake_all True (writers s)\<rparr>)"
| Woken: "pipe_step src wn sink rn s
     (s\<lparr>writers := (\<lambda>w. if w \<in> W then wake (writers s w) else writers s w),
        readers := (\<lambda>r. if r \<in> R then wake (readers s r) else readers s r)\<rparr>)"

inductive pipe_reachable for src wn sink rn data where
  Start: "pipe_reachable src wn sink rn data
     \<lparr>sys_pipe = pipe_init data, writers = (\<lambda>_. Run 0), readers = (\<lambda>_. Run 0), sent = [], rcvd = []\<rparr>"
| Next: "pipe_reachable src wn sink rn data s \<Longrightarrow> pipe_step src wn sink rn s s' \<Longrightarrow> pipe_reachable src wn sink rn data s'"

lemma wake_all_Asleep [simp]: "wake_all b f x = Asleep i \<longleftrightarrow> \<not> b \<and> f x = Asleep i"
  by (cases "f x") (auto simp: wake_all_def)

lemma wake_all_Finished [simp]: "wake_all b f x = Finished v \<longleftrightarrow> f x = Finished v"
  by (cases "f x") (auto simp: wake_all_def)

lemma wake_Asleep [simp]: "wake c \<noteq> Asleep i" "wake c = Finished v \<longleftrightarrow> c = Finished v"
  by (cases c; simp)+

lemma pcall_of_iff [simp]: "pcall_of out = Asleep i \<longleftrightarrow> out = Sleeping i" "pcall_of out = Finished v \<longleftrightarrow> out = Returned v"
  by (cases out; simp)+

definition sys_inv :: "pipe_sys \<Rightarrow> bool" where
  "sys_inv s \<longleftrightarrow> pipe_inv (sys_pipe s) \<and> sent s = rcvd s @ pipe_contents (sys_pipe s) \<and>
     (\<forall>w i. writers s w = Asleep i \<longrightarrow> pipe_full (sys_pipe s) \<and> pi_readopen (sys_pipe s)) \<and>
     (\<forall>r i. readers s r = Asleep i \<longrightarrow> pi_writeopen (sys_pipe s) \<and>
        (pipe_contents (sys_pipe s) = [] \<or> (\<exists>w. writers s w = Finished (-1))))"

lemma pipe_init_inv: "length data = PIPESIZE \<Longrightarrow> pipe_inv (pipe_init data) \<and> pipe_contents (pipe_init data) = []"
  by (simp add: pipe_inv_def pipe_contents_def pipe_init_def)

lemma stored_eq:
  assumes "pipe_inv p" "pipe_inv p'" "pi_nread p' = pi_nread p" "pipe_contents p' = pipe_contents p @ map (\<lambda>j. the (f (i + int j))) [0..<k]"
  shows "stored f i p p' = map (\<lambda>j. the (f (i + int j))) [0..<k]"
proof -
  have "unat (pi_nwrite p' - pi_nread p) = unat (pi_nwrite p - pi_nread p) + k"
    using arg_cong [OF assms(4), of length] assms(3) by (simp add: pipe_contents_def)
  moreover have "unat (pi_nwrite p' - pi_nread p) \<le> 512"
    using assms(2,3) by (simp add: pipe_inv_def pipe_contents_def PIPESIZE_def)
  ultimately have "unat (pi_nwrite p' - pi_nwrite p) = k"
    using unat_sub [of "pi_nwrite p - pi_nread p" "pi_nwrite p' - pi_nread p"] by (simp add: word_le_nat_alt)
  then show ?thesis by (simp add: stored_def)
qed

lemma pipe_inv_open [simp]:
  "pipe_inv (p\<lparr>pi_writeopen := b\<rparr>) = pipe_inv p" "pipe_inv (p\<lparr>pi_readopen := b\<rparr>) = pipe_inv p"
  "pipe_contents (p\<lparr>pi_writeopen := b\<rparr>) = pipe_contents p" "pipe_contents (p\<lparr>pi_readopen := b\<rparr>) = pipe_contents p"
  "pipe_full (p\<lparr>pi_writeopen := b\<rparr>) = pipe_full p" "pipe_full (p\<lparr>pi_readopen := b\<rparr>) = pipe_full p"
  by (simp_all add: pipe_inv_def pipe_contents_def pipe_full_def)

lemma sys_inv_write:
  assumes "sys_inv s" "writers s w = Run i" "pipewrite killed (src w) (sys_pipe s) i (wn w) = (out, p', wk)"
  shows "sys_inv (s\<lparr>sys_pipe := p', writers := (writers s)(w := pcall_of out), readers := wake_all wk (readers s),
          sent := sent s @ stored (src w) i (sys_pipe s) p'\<rparr>)"
proof -
  have I: "pipe_inv (sys_pipe s)" "sent s = rcvd s @ pipe_contents (sys_pipe s)" using assms(1) by (auto simp: sys_inv_def)
  obtain k where k: "pipe_contents p' = pipe_contents (sys_pipe s) @ map (\<lambda>j. the (src w (i + int j))) [0..<k]" "pipe_inv p'"
    "pi_readopen p' = pi_readopen (sys_pipe s)" "pi_writeopen p' = pi_writeopen (sys_pipe s)" "pi_nread p' = pi_nread (sys_pipe s)"
    "out = Returned (-1) \<and> \<not> wk \<or> out = Sleeping (i + int k) \<and> wk \<and> pipe_full p' \<and> pi_readopen p' \<or> out = Returned (i + int k) \<and> wk"
    by (rule pipewrite_spec [OF I(1) assms(3)]) blast
  have full: "pipe_full p'" if "pipe_full (sys_pipe s)"
    using that k(1,2) pipe_full_iff [OF I(1)] pipe_full_iff [OF k(2)] by (auto simp: pipe_inv_def)
  show ?thesis
    using assms(1) k(2-6) full stored_eq [OF I(1) k(2) k(5) k(1)] k(1)
    unfolding sys_inv_def by (auto split: if_splits)
qed

lemma sys_inv_read:
  assumes "sys_inv s" "readers s r = Run i" "piperead killed' (sink r) (sys_pipe s) (rn r) = (out, p', wk, bs)"
  shows "sys_inv (s\<lparr>sys_pipe := p', readers := (readers s)(r := pcall_of out), writers := wake_all wk (writers s), rcvd := rcvd s @ bs\<rparr>)"
proof (cases "pi_nread (sys_pipe s) = pi_nwrite (sys_pipe s) \<and> pi_writeopen (sys_pipe s)")
  case True
  then show ?thesis
    using assms by (auto simp: sys_inv_def piperead_def pipe_empty_iff wake_all_def split: if_splits)
next
  case False
  then obtain j where c: "piperead_copy (sink r) (sys_pipe s) 0 (rn r) = (j, p', bs)" "out = Returned j" "wk"
    using assms(3) by (auto simp: piperead_def split: prod.splits)
  then show ?thesis
    using assms(1) piperead_copy_spec [OF _ c(1)] unfolding sys_inv_def by (auto split: if_splits)
qed

definition pipe_start :: "uint8 list \<Rightarrow> pipe_sys" where
  "pipe_start data = \<lparr>sys_pipe = pipe_init data, writers = (\<lambda>_. Run 0), readers = (\<lambda>_. Run 0), sent = [], rcvd = []\<rparr>"

interpretation ps: invariant_system "\<lambda>s. \<exists>data. length data = PIPESIZE \<and> s = pipe_start data" "pipe_step src wn sink rn" sys_inv
  for src wn sink rn
proof
  show "sys_inv s" if "\<exists>data. length data = PIPESIZE \<and> s = pipe_start data" for s
    using that pipe_init_inv by (auto simp: sys_inv_def pipe_start_def)
  show "sys_inv s'" if "pipe_step src wn sink rn s s'" "sys_inv s" for s s'
    using that(1)
  proof cases
    case (Write w i killed out p' wk)
    then show ?thesis using sys_inv_write [OF that(2)] by blast
  next
    case (Read r i killed' out p' wk bs)
    then show ?thesis using sys_inv_read [OF that(2)] by blast
  qed (use that(2) in \<open>auto simp: sys_inv_def pipeclose_def split: if_splits\<close>)
qed

lemma pipe_reachable_steps: "pipe_reachable src wn sink rn data s \<Longrightarrow> rtranclp (pipe_step src wn sink rn) (pipe_start data) s"
  by (induction rule: pipe_reachable.induct) (auto simp: pipe_start_def intro: rtranclp.rtrancl_into_rtrancl)

lemma pipe_sys_inv:
  assumes "pipe_reachable src wn sink rn data s" "length data = PIPESIZE"
  shows "sys_inv s"
  by (rule ps.reachable_inv [OF pipe_reachable_steps [OF assms(1)]]) (use assms(2) in blast)

section \<open>Calls that need not wait\<close>

lemma pipewrite_puts:
  assumes "pq.puts p xs = Some p'" "pi_readopen p" "\<And>j. j < length xs \<Longrightarrow> src (i + int j) = Some (xs ! j)" "n = i + int (length xs)"
  shows "pipewrite (\<lambda>_. False) src p i n = (Returned n, p', True)"
  using assms
proof (induction xs arbitrary: p i)
  case Nil
  then show ?case by (simp add: pipewrite.simps)
next
  case (Cons x xs)
  have nf: "\<not> pipe_full p" and r: "pq.puts (pipe_store p x) xs = Some p'"
    using Cons.prems(1) by (auto simp: pipe_put_def [of p x] split: if_splits)
  have "src i = Some x" using Cons.prems(3) [of 0] by simp
  moreover have "src (i + 1 + int j) = Some (xs ! j)" if "j < length xs" for j
    using Cons.prems(3) [of "Suc j"] that by (simp add: add_ac)
  ultimately show ?case
    using Cons.IH [OF r, of "i + 1"] Cons.prems(2,4) nf by (simp add: pipewrite.simps [of _ _ p] pipe_store_def)
qed

lemma piperead_gets:
  assumes "pq.gets p k = Some (xs, p')"
  shows "piperead_copy (\<lambda>_. True) p i (i + int k) = (i + int k, p', xs)"
  using assms
proof (induction k arbitrary: p i xs)
  case 0
  then show ?case by (simp add: piperead_copy.simps)
next
  case (Suc k)
  obtain x p1 ys where g: "pipe_get p = Some (x, p1)" "pq.gets p1 k = Some (ys, p')" "xs = x # ys"
    using Suc.prems by (auto split: option.splits)
  then show ?case
    using Suc.IH [OF g(2), of "i + 1"]
    by (simp add: piperead_copy.simps [of _ p] pipe_get_def add_ac split: if_splits)
qed

section \<open>Properties\<close>


definition pipe_example :: pipe_sys where
  "pipe_example = \<lparr>sys_pipe = pipe_init (replicate 512 0), writers = (\<lambda>_. Run 0), readers = (\<lambda>_. Run 0)(3 := Asleep 0), sent = [], rcvd = []\<rparr>"

lemma pipe_example_reachable: "pipe_reachable (\<lambda>_ _. Some 7) (\<lambda>_. 5) (\<lambda>_ _. True) (\<lambda>_. 5) (replicate 512 0) pipe_example"
proof -
  let ?s = "\<lparr>sys_pipe = pipe_init (replicate 512 0), writers = (\<lambda>_. Run 0), readers = (\<lambda>_. Run 0), sent = [], rcvd = []\<rparr>"
  have "piperead False (\<lambda>_. True) (sys_pipe ?s) 5 = (Sleeping 0, sys_pipe ?s, False, [])"
    by (simp add: piperead_def pipe_init_def)
  from pipe_reachable.Next [OF pipe_reachable.Start pipe_step.Read [of ?s 3 0 False _ "\<lambda>_. 5", OF _ this]]
  show ?thesis by (simp add: pipe_example_def wake_all_def)
qed


text \<open>
  C20: a write that fits an empty pipe with an open read end completes without sleeping, and a
  read of that size returns exactly its bytes and leaves the pipe empty.
\<close>

theorem pipe_round_trip:
  assumes "pipe_inv p" "pipe_contents p = []" "pi_readopen p" "bs \<noteq> []" "length bs \<le> 512"
  shows "\<exists>p' p''. pipewrite (\<lambda>_. False) (\<lambda>i. Some (bs ! nat i)) p 0 (int (length bs)) = (Returned (int (length bs)), p', True) \<and>
    piperead False (\<lambda>_. True) p' (int (length bs)) = (Returned (int (length bs)), p'', True, bs) \<and> pipe_contents p'' = []"
proof -
  obtain p' p'' where r: "pq.puts p bs = Some p'" "pq.gets p' (length bs) = Some (bs, p'')" "pipe_contents p'' = []"
    by (rule pq.fifo_order [OF assms(1,2), of bs]) (use assms in \<open>simp_all add: PIPESIZE_def sorted_wrt_iff_nth_less\<close>)
  have "pi_nread p' \<noteq> pi_nwrite p'" using r(2) assms(4) by (cases bs) (auto simp: pipe_get_def split: if_splits)
  then show ?thesis
    using r(3) pipewrite_puts [OF r(1) assms(3), of "\<lambda>i. Some (bs ! nat i)" 0] piperead_gets [OF r(2), of 0]
    by (auto simp: piperead_def)
qed

theorem pipe_round_trip_witness:
  "\<exists>p' p''. pipewrite (\<lambda>_. False) (\<lambda>i. Some ([104, 105] ! nat i)) (pipe_init (replicate 512 0)) 0 2 = (Returned 2, p', True) \<and>
    piperead False (\<lambda>_. True) p' 2 = (Returned 2, p'', True, [104, 105]) \<and> pipe_contents p'' = []"
  using pipe_round_trip [of "pipe_init (replicate 512 0)" "[104, 105]"] pipe_init_inv [of "replicate 512 0"]
  by (simp add: PIPESIZE_def pipe_init_def)

end
