(* ===== verification/Console.thy ===== *)
theory Console
  imports Ring Pipe
begin

text \<open>
  The console of \<^verbatim>\<open>kernel/console.c\<close>: input characters from the UART are echoed, edited and
  stored in a circular buffer with a read, a write and an edit index; \<open>consoleread\<close> hands out
  whole lines.  The characters sent to the UART are the list \<open>uart_out\<close>; control-P, which prints
  the process list, is the event \<open>ProcDump\<close>.  The copies from and to user space are arguments,
  as for pipes.
\<close>

section \<open>Definitions\<close>

definition INPUT_BUF_SIZE :: nat where "INPUT_BUF_SIZE = 128"
definition BACKSPACE :: int where "BACKSPACE = 256"

abbreviation ctrl_D :: uint8 where "ctrl_D \<equiv> 4"
abbreviation newline :: uint8 where "newline \<equiv> 10"

datatype uart_event = Tx uint8 | ProcDump

record console =
  c_buf :: "uint8 list"
  c_r :: uint32
  c_w :: uint32
  c_e :: uint32
  uart_out :: "uart_event list"

definition consputc :: "console \<Rightarrow> int \<Rightarrow> console" where
  "consputc s c =
     s\<lparr>uart_out := uart_out s @ (if c = BACKSPACE then [Tx 8, Tx 32, Tx 8] else [Tx (of_int c)])\<rparr>"

lemma unat_dec_diff: "e \<noteq> w \<Longrightarrow> unat (e - 1 - w :: uint32) < unat (e - w)"
proof -
  assume "e \<noteq> w"
  then have "e - w \<noteq> 0" by simp
  then have "unat (e - w - 1) = unat (e - w) - 1" "0 < unat (e - w)" using unat_minus_one unat_gt_0 by blast+
  then show ?thesis by (simp add: diff_right_commute)
qed

function kill_line :: "console \<Rightarrow> console" where
  "kill_line s =
     (if c_e s \<noteq> c_w s \<and> c_buf s ! (unat (c_e s - 1) mod INPUT_BUF_SIZE) \<noteq> newline
      then kill_line (consputc (s\<lparr>c_e := c_e s - 1\<rparr>) BACKSPACE)
      else s)"
  by pat_completeness auto
termination
  by (relation "measure (\<lambda>s. unat (c_e s - c_w s))") (simp_all add: consputc_def unat_dec_diff)

declare kill_line.simps [simp del]

definition consoleintr :: "console \<Rightarrow> int \<Rightarrow> console" where
  "consoleintr s c =
     (if c = 16 then s\<lparr>uart_out := uart_out s @ [ProcDump]\<rparr>
      else if c = 21 then kill_line s
      else if c = 8 \<or> c = 127 then
        if c_e s \<noteq> c_w s then consputc (s\<lparr>c_e := c_e s - 1\<rparr>) BACKSPACE else s
      else if c \<noteq> 0 \<and> c_e s - c_r s < of_nat INPUT_BUF_SIZE then
        let c' = (if c = 13 then 10 else c);
            s1 = consputc s c';
            s2 = s1\<lparr>c_buf := (c_buf s1)[unat (c_e s1) mod INPUT_BUF_SIZE := of_int c'], c_e := c_e s1 + 1\<rparr>
        in if c' = 10 \<or> c' = 4 \<or> c_e s2 - c_r s2 = of_nat INPUT_BUF_SIZE then s2\<lparr>c_w := c_e s2\<rparr> else s2
      else s)"

function consoleread :: "bool \<Rightarrow> (int \<Rightarrow> bool) \<Rightarrow> int \<Rightarrow> console \<Rightarrow> int \<Rightarrow> outcome \<times> console \<times> uint8 list" where
  "consoleread killed sink target s n =
     (if n > 0 then
        if c_r s = c_w s then (if killed then Returned (-1) else Sleeping n, s, [])
        else let c = c_buf s ! (unat (c_r s) mod INPUT_BUF_SIZE); s1 = s\<lparr>c_r := c_r s + 1\<rparr> in
          if c = ctrl_D then (Returned (target - n), if n < target then s1\<lparr>c_r := c_r s1 - 1\<rparr> else s1, [])
          else if \<not> sink (target - n) then (Returned (target - n), s1, [c])
          else if c = newline then (Returned (target - (n - 1)), s1, [c])
          else let (out, s2, cs) = consoleread killed sink target s1 (n - 1) in (out, s2, c # cs)
      else (Returned (target - n), s, []))"
  by pat_completeness auto
termination
  by (relation "measure (\<lambda>(k, f, t, s, n). nat n)") auto

declare consoleread.simps [simp del]

text \<open>\<open>copyin i m\<close> is the chunk of \<open>m\<close> bytes at offset \<open>i\<close> of the caller's buffer.\<close>

function consolewrite :: "(int \<Rightarrow> int \<Rightarrow> uint8 list option) \<Rightarrow> console \<Rightarrow> int \<Rightarrow> int \<Rightarrow> int \<times> console" where
  "consolewrite copyin s i n =
     (if i < n then
        let nn = (if 32 > n - i then n - i else 32) in
        case copyin i nn of None \<Rightarrow> (i, s)
        | Some bs \<Rightarrow> consolewrite copyin (s\<lparr>uart_out := uart_out s @ map Tx bs\<rparr>) (i + nn) n
      else (i, s))"
  by pat_completeness auto
termination
  by (relation "measure (\<lambda>(c, s, i, n). nat (n - i))") auto

declare consolewrite.simps [simp del]

section \<open>What the buffer holds\<close>

text \<open>The characters ready to be read and the line that is being edited.\<close>

definition ready :: "console \<Rightarrow> uint8 list" where
  "ready s = ring (c_buf s) (c_r s) (c_w s)"

definition edited :: "console \<Rightarrow> uint8 list" where
  "edited s = ring (c_buf s) (c_w s) (c_e s)"

definition console_inv :: "console \<Rightarrow> bool" where
  "console_inv s \<longleftrightarrow> length (c_buf s) = INPUT_BUF_SIZE \<and> length (ready s) + length (edited s) \<le> INPUT_BUF_SIZE \<and>
     newline \<notin> set (edited s)"

text \<open>The line discipline on two lists.\<close>

definition type_char :: "uint8 list \<times> uint8 list \<Rightarrow> int \<Rightarrow> uint8 list \<times> uint8 list" where
  "type_char st c = (case st of (rd, ed) \<Rightarrow>
     if c = 16 then (rd, ed)
     else if c = 21 then (rd, [])
     else if c = 8 \<or> c = 127 then (rd, butlast ed)
     else if c = 0 \<or> length rd + length ed \<ge> 128 then (rd, ed)
     else let c' = (if c = 13 then 10 else c); ed' = ed @ [of_int c'] in
       if c' = 10 \<or> c' = 4 \<or> length rd + length ed' = 128 then (rd @ ed', []) else (rd, ed'))"

lemma console_len:
  assumes "console_inv s"
  shows "length (ready s) = unat (c_w s - c_r s)" "length (edited s) = unat (c_e s - c_w s)"
    "unat (c_e s - c_r s) = length (ready s) + length (edited s)" "ring_size (c_buf s)"
    "ring (c_buf s) (c_r s) (c_e s) = ready s @ edited s"
proof -
  show l: "length (ready s) = unat (c_w s - c_r s)" "length (edited s) = unat (c_e s - c_w s)"
    by (simp_all add: ready_def edited_def)
  have "unat (c_w s - c_r s) + unat (c_e s - c_w s) \<le> 128"
    using assms unfolding console_inv_def l INPUT_BUF_SIZE_def by (elim conjE)
  then have b: "unat (c_w s - c_r s) + unat (c_e s - c_w s) < 2 ^ 32"
    by (rule le_less_trans) simp
  show "unat (c_e s - c_r s) = length (ready s) + length (edited s)" unfolding l by (rule unat_diff_sum [OF b])
  show "ring (c_buf s) (c_r s) (c_e s) = ready s @ edited s"
    unfolding ready_def edited_def by (rule ring_split [OF b])
  show "ring_size (c_buf s)" using assms by (simp add: console_inv_def ring_size_def INPUT_BUF_SIZE_def)
qed

lemma uart_out_irrelevant [simp]:
  "ready (s\<lparr>uart_out := u\<rparr>) = ready s" "edited (s\<lparr>uart_out := u\<rparr>) = edited s"
  "console_inv (s\<lparr>uart_out := u\<rparr>) = console_inv s"
  by (simp_all add: ready_def edited_def console_inv_def)

lemma consputc_irrelevant [simp]:
  "ready (consputc s c) = ready s" "edited (consputc s c) = edited s" "console_inv (consputc s c) = console_inv s"
  "c_buf (consputc s c) = c_buf s" "c_r (consputc s c) = c_r s" "c_w (consputc s c) = c_w s" "c_e (consputc s c) = c_e s"
  by (simp_all add: consputc_def)

lemma erase_spec:
  assumes "console_inv s" "c_e s \<noteq> c_w s"
  shows "ready (s\<lparr>c_e := c_e s - 1\<rparr>) = ready s" "edited (s\<lparr>c_e := c_e s - 1\<rparr>) = butlast (edited s)"
    "console_inv (s\<lparr>c_e := c_e s - 1\<rparr>)" "last (edited s) = c_buf s ! (unat (c_e s - 1) mod INPUT_BUF_SIZE)" "edited s \<noteq> []"
proof -
  have len: "length (c_buf s) = INPUT_BUF_SIZE" using assms(1) by (simp add: console_inv_def)
  have e: "edited s = edited (s\<lparr>c_e := c_e s - 1\<rparr>) @ [c_buf s ! (unat (c_e s - 1) mod INPUT_BUF_SIZE)]"
    using ring_unpush [of "c_w s" "c_e s" "c_buf s"] assms(2) len by (simp add: edited_def)
  then show "edited (s\<lparr>c_e := c_e s - 1\<rparr>) = butlast (edited s)" "last (edited s) = c_buf s ! (unat (c_e s - 1) mod INPUT_BUF_SIZE)"
    "edited s \<noteq> []" by (metis butlast_snoc, metis last_snoc, simp)
  show r: "ready (s\<lparr>c_e := c_e s - 1\<rparr>) = ready s" by (simp add: ready_def)
  have "length (edited s) = Suc (length (edited (s\<lparr>c_e := c_e s - 1\<rparr>)))" "set (edited (s\<lparr>c_e := c_e s - 1\<rparr>)) \<subseteq> set (edited s)"
    by (subst e, simp, subst e, auto)
  then show "console_inv (s\<lparr>c_e := c_e s - 1\<rparr>)"
    using assms(1) unfolding console_inv_def r by auto
qed

text \<open>Control-U erases the whole edited line, as a line never contains a newline.\<close>

lemma kill_line_spec:
  assumes "console_inv s"
  shows "ready (kill_line s) = ready s \<and> edited (kill_line s) = [] \<and> console_inv (kill_line s)"
  using assms
proof (induction s rule: kill_line.induct)
  case (1 s)
  show ?case
  proof (cases "c_e s = c_w s")
    case True
    then show ?thesis using 1(2) by (simp add: kill_line.simps [of s] edited_def)
  next
    case False
    note er = erase_spec [OF 1(2) False]
    have "c_buf s ! (unat (c_e s - 1) mod INPUT_BUF_SIZE) \<noteq> newline"
      using er(4,5) 1(2) last_in_set [OF er(5)] by (auto simp: console_inv_def)
    then show ?thesis
      using 1(1) er False by (simp add: kill_line.simps [of s])
  qed
qed

lemma store_char_spec:
  fixes x :: uint8
  assumes "console_inv s" "length (ready s) + length (edited s) < INPUT_BUF_SIZE"
  defines "s' \<equiv> s\<lparr>c_buf := (c_buf s)[unat (c_e s) mod INPUT_BUF_SIZE := x], c_e := c_e s + 1\<rparr>"
  shows "ready s' = ready s" "edited s' = edited s @ [x]" "length (c_buf s') = INPUT_BUF_SIZE"
    "ready (s'\<lparr>c_w := c_e s'\<rparr>) = ready s @ edited s @ [x]" "edited (s'\<lparr>c_w := c_e s'\<rparr>) = []"
    "unat (c_e s' - c_r s') = length (ready s) + length (edited s) + 1"
proof -
  note l = console_len [OF assms(1)]
  have len: "length (c_buf s) = INPUT_BUF_SIZE" using assms(1) by (simp add: console_inv_def)
  then show "length (c_buf s') = INPUT_BUF_SIZE" by (simp add: s'_def)
  have r: "unat (c_e s - c_r s) < length (c_buf s)" using assms(2) l(3) len by simp
  have w: "unat (c_e s - c_w s) < length (c_buf s)" using assms(2) l(2) len by simp
  show "ready s' = ready s"
    using ring_write_beyond [OF l(4) _ r, of "c_w s"] l(1,3) len by (simp add: ready_def s'_def)
  show "edited s' = edited s @ [x]"
    using ring_push [OF l(4) w] len by (simp add: edited_def s'_def)
  show "ready (s'\<lparr>c_w := c_e s'\<rparr>) = ready s @ edited s @ [x]"
    using ring_push [OF l(4) r, of x] l(5) len by (simp add: ready_def s'_def)
  show "edited (s'\<lparr>c_w := c_e s'\<rparr>) = []" by (simp add: edited_def)
  show "unat (c_e s' - c_r s') = length (ready s) + length (edited s) + 1"
    using unat_Suc_diff [of "c_e s" "c_r s"] l(3) assms(2) by (simp add: s'_def INPUT_BUF_SIZE_def)
qed

lemma console_room: "console_inv s \<Longrightarrow> c_e s - c_r s < of_nat INPUT_BUF_SIZE \<longleftrightarrow> length (ready s) + length (edited s) < 128"
  by (simp add: console_len(3) [symmetric] word_less_nat_alt INPUT_BUF_SIZE_def)

lemma consoleintr_spec:
  assumes "console_inv s" "0 \<le> c" "c < 256"
  shows "console_inv (consoleintr s c) \<and> (ready (consoleintr s c), edited (consoleintr s c)) = type_char (ready s, edited s) c"
proof -
  consider "c = 16" | "c = 21" | "c = 8 \<or> c = 127" | "c = 0 \<or> \<not> length (ready s) + length (edited s) < 128"
      "c \<notin> {16, 21, 8, 127}" | "c \<notin> {16, 21, 8, 127, 0}" "length (ready s) + length (edited s) < 128" by auto
  then show ?thesis
  proof cases
    case 1
    then show ?thesis using assms(1) by (simp add: consoleintr_def type_char_def)
  next
    case 2
    then show ?thesis using kill_line_spec [OF assms(1)] by (simp add: consoleintr_def type_char_def)
  next
    case 3
    moreover have "edited s = []" if "c_e s = c_w s" using that by (simp add: edited_def)
    ultimately show ?thesis
      using erase_spec [OF assms(1)] assms(1) by (cases "c_e s = c_w s") (auto simp: consoleintr_def type_char_def)
  next
    case 4
    then show ?thesis using console_room [OF assms(1)] assms(1) by (auto simp: consoleintr_def type_char_def)
  next
    case 5
    define c' where "c' = (if c = 13 then 10 else c)"
    define s1 where "s1 = consputc s c'"
    define s2 where "s2 = s1\<lparr>c_buf := (c_buf s1)[unat (c_e s1) mod INPUT_BUF_SIZE := of_int c'], c_e := c_e s1 + 1\<rparr>"
    have i1: "console_inv s1" "length (ready s1) + length (edited s1) < INPUT_BUF_SIZE"
      using assms(1) 5 by (simp_all add: s1_def INPUT_BUF_SIZE_def)
    note st = store_char_spec [OF i1, of "of_int c'", folded s2_def]
    have full: "c_e s2 - c_r s2 = of_nat INPUT_BUF_SIZE \<longleftrightarrow> length (ready s) + length (edited s @ [of_int c' :: uint8]) = 128"
      using st(6) by (simp add: word_unat_eq_iff INPUT_BUF_SIZE_def s1_def)
    have nl: "of_int c' = newline \<longleftrightarrow> c' = 10"
    proof -
      have "of_int c' = newline \<longleftrightarrow> uint (of_int c' :: uint8) = 10" by (simp add: word_uint_eq_iff)
      also have "uint (of_int c' :: uint8) = c'" using assms(2,3) by (simp add: c'_def uint_word_of_int_eq take_bit_int_eq_self)
      finally show ?thesis .
    qed
    have e: "consoleintr s c = (if c' = 10 \<or> c' = 4 \<or> c_e s2 - c_r s2 = of_nat INPUT_BUF_SIZE then s2\<lparr>c_w := c_e s2\<rparr> else s2)"
      using 5 console_room [OF assms(1)] by (simp add: consoleintr_def Let_def c'_def s1_def s2_def)
    have "console_inv (consoleintr s c)"
      using st full nl i1 assms(1) unfolding e console_inv_def by (auto simp: INPUT_BUF_SIZE_def s1_def)
    moreover have "(ready (consoleintr s c), edited (consoleintr s c)) = type_char (ready s, edited s) c"
      using 5 st full unfolding e by (auto simp: type_char_def c'_def s1_def Let_def)
    ultimately show ?thesis by blast
  qed
qed

section \<open>Reading lines\<close>

lemma ready_pop:
  assumes "console_inv s" "c_r s \<noteq> c_w s"
  shows "ready s = c_buf s ! (unat (c_r s) mod INPUT_BUF_SIZE) # ready (s\<lparr>c_r := c_r s + 1\<rparr>)"
    "edited (s\<lparr>c_r := c_r s + 1\<rparr>) = edited s" "console_inv (s\<lparr>c_r := c_r s + 1\<rparr>)"
proof -
  have len: "length (c_buf s) = INPUT_BUF_SIZE" using assms(1) by (simp add: console_inv_def)
  show p: "ready s = c_buf s ! (unat (c_r s) mod INPUT_BUF_SIZE) # ready (s\<lparr>c_r := c_r s + 1\<rparr>)"
    using ring_pop [OF assms(2), of "c_buf s"] len by (simp add: ready_def)
  show e: "edited (s\<lparr>c_r := c_r s + 1\<rparr>) = edited s" by (simp add: edited_def)
  have "length (ready s) = Suc (length (ready (s\<lparr>c_r := c_r s + 1\<rparr>)))" by (subst p) simp
  then show "console_inv (s\<lparr>c_r := c_r s + 1\<rparr>)" using assms(1) unfolding console_inv_def e by auto
qed

text \<open>
  What a read of at most \<open>n\<close> characters takes from the ready ones: up to and including a newline,
  up to but not including control-D, which ends the read and is consumed only by a read that
  has nothing else; and how the call goes on when the characters run out.
\<close>

fun take_line :: "bool \<Rightarrow> nat \<Rightarrow> nat \<Rightarrow> uint8 list \<Rightarrow> uint8 list \<times> uint8 list \<times> outcome" where
  "take_line killed k 0 cs = ([], cs, Returned (int k))"
| "take_line killed k (Suc n) [] = ([], [], if killed then Returned (-1) else Sleeping (int (Suc n)))"
| "take_line killed k (Suc n) (c # cs) =
     (if c = ctrl_D then ([], if 0 < k then c # cs else cs, Returned (int k))
      else if c = newline then ([c], cs, Returned (int k + 1))
      else let (line, rest, out) = take_line killed (k + 1) n cs in (c # line, rest, out))"

lemma consoleread_spec:
  assumes "console_inv s" "target = int k + int n" "take_line killed k n (ready s) = (line, rest, out)"
  shows "\<exists>s'. consoleread killed (\<lambda>_. True) target s (int n) = (out, s', line) \<and> console_inv s' \<and> ready s' = rest \<and>
    edited s' = edited s \<and> uart_out s' = uart_out s"
  using assms
proof (induction killed k n "ready s" arbitrary: s line rest out rule: take_line.induct)
  case (1 killed k)
  then show ?case by (simp add: consoleread.simps)
next
  case (2 killed k n)
  then have "c_r s = c_w s" by (metis ready_def ring_empty_iff)
  then show ?case using 2 by (auto simp: consoleread.simps)
next
  case (3 killed k n c cs)
  have ne: "c_r s \<noteq> c_w s" using 3(2) by (metis list.distinct(1) ready_def ring_empty_iff)
  note p = ready_pop [OF 3(3) ne]
  have c: "c_buf s ! (unat (c_r s) mod INPUT_BUF_SIZE) = c" "cs = ready (s\<lparr>c_r := c_r s + 1\<rparr>)"
    using p(1) 3(2) by simp_all
  show ?case
  proof (cases "c = ctrl_D \<or> c = newline")
    case True
    then show ?thesis
      using 3(2-5) ne p c by (auto simp: consoleread.simps [of _ _ _ s])
  next
    case False
    obtain line' rest' out' where r: "take_line killed (k + 1) n cs = (line', rest', out')" by (metis prod_cases3)
    have t: "target = int (k + 1) + int n" using 3(4) by simp
    from 3(1) [OF _ _ c(2) p(3) t, of line' rest' out'] r False c(2)
    obtain s' where s': "consoleread killed (\<lambda>_. True) target (s\<lparr>c_r := c_r s + 1\<rparr>) (int n) = (out', s', line')"
      "console_inv s'" "ready s' = rest'" "edited s' = edited (s\<lparr>c_r := c_r s + 1\<rparr>)" "uart_out s' = uart_out s" by auto
    have "line = c # line' \<and> rest = rest' \<and> out = out'" using 3(5) 3(2) [symmetric] r False by simp
    then show ?thesis
      using s' ne c False p(2) by (auto simp: consoleread.simps [of _ _ _ s])
  qed
qed

lemma take_line_whole:
  "newline \<notin> set cs \<Longrightarrow> ctrl_D \<notin> set cs \<Longrightarrow> length cs < n \<Longrightarrow>
    take_line killed k n (cs @ newline # rest) = (cs @ [newline], rest, Returned (int k + int (length cs) + 1))"
proof (induction cs arbitrary: k n)
  case Nil
  then show ?case by (cases n) auto
next
  case (Cons c cs)
  then obtain m where "n = Suc m" by (cases n) auto
  then show ?case using Cons.IH [of m "k + 1"] Cons.prems by auto
qed

lemma fold_consoleintr_spec:
  assumes "console_inv s" "\<forall>c \<in> set cs. 0 \<le> c \<and> c < 256"
  shows "console_inv (foldl consoleintr s cs) \<and>
    (ready (foldl consoleintr s cs), edited (foldl consoleintr s cs)) = foldl type_char (ready s, edited s) cs"
  using assms
proof (induction cs arbitrary: s)
  case (Cons c cs)
  then have "console_inv (consoleintr s c)" "(ready (consoleintr s c), edited (consoleintr s c)) = type_char (ready s, edited s) c"
    using consoleintr_spec [of s c] by auto
  then show ?case using Cons.IH [of "consoleintr s c"] Cons.prems(2) by simp
qed simp

lemma type_plain:
  assumes "\<forall>c \<in> set cs. 32 \<le> c \<and> c < 127" "length rd + length ed + length cs < 128"
  shows "foldl type_char (rd, ed) cs = (rd, ed @ map of_int cs)"
  using assms by (induction cs arbitrary: ed) (auto simp: type_char_def)

section \<open>Writing\<close>

lemma consolewrite_spec:
  assumes "\<And>i m. 0 \<le> i \<Longrightarrow> 0 < m \<Longrightarrow> i + m \<le> int (length bs) \<Longrightarrow> copyin i m = Some (take (nat m) (drop (nat i) bs))"
    and "0 \<le> i" "i \<le> int (length bs)"
  shows "consolewrite copyin s i (int (length bs)) = (int (length bs), s\<lparr>uart_out := uart_out s @ map Tx (drop (nat i) bs)\<rparr>)"
  using assms(2,3)
proof (induction "nat (int (length bs) - i)" arbitrary: s i rule: less_induct)
  case less
  show ?case
  proof (cases "i < int (length bs)")
    case False
    then show ?thesis using less by (simp add: consolewrite.simps)
  next
    case True
    define nn where "nn = (if 32 > int (length bs) - i then int (length bs) - i else 32)"
    have nn: "0 < nn" "i + nn \<le> int (length bs)" using True by (auto simp: nn_def)
    note c = assms(1) [OF less(2) nn]
    have "take (nat nn) (drop (nat i) bs) @ drop (nat (i + nn)) bs = drop (nat i) bs"
      using append_take_drop_id [of "nat nn" "drop (nat i) bs"] less(2) nn(1) by (simp add: nat_add_distrib add.commute)
    then have "map Tx (take (nat nn) (drop (nat i) bs)) @ map Tx (drop (nat (i + nn)) bs) = map Tx (drop (nat i) bs)"
      by (metis map_append)
    moreover have "consolewrite copyin s i (int (length bs)) =
        consolewrite copyin (s\<lparr>uart_out := uart_out s @ map Tx (take (nat nn) (drop (nat i) bs))\<rparr>) (i + nn) (int (length bs))"
      using True c by (simp add: consolewrite.simps [of _ s] nn_def)
    ultimately show ?thesis
      using less(1) [of "i + nn"] less(2) nn by simp
  qed
qed

section \<open>Properties\<close>

text \<open>
  C21: the interrupt handler implements the line discipline on lists: erase and kill work on the
  edited line only, a newline, control-D or a full buffer makes it readable, characters that do
  not fit are dropped, and the buffer of 128 characters is never overrun, across the wrap-around
  of the indices.
\<close>

theorem console_refines_line_discipline:
  assumes "console_inv s" "\<forall>c \<in> set cs. 0 \<le> c \<and> c < 256"
  shows "console_inv (foldl consoleintr s cs) \<and>
    (ready (foldl consoleintr s cs), edited (foldl consoleintr s cs)) = foldl type_char (ready s, edited s) cs"
  by (rule fold_consoleintr_spec [OF assms])

definition empty_console :: "uint32 \<Rightarrow> console" where
  "empty_console i = \<lparr>c_buf = replicate 128 0, c_r = i, c_w = i, c_e = i, uart_out = []\<rparr>"

lemma empty_console_inv: "console_inv (empty_console i)" "ready (empty_console i) = []" "edited (empty_console i) = []"
  by (simp_all add: console_inv_def empty_console_def ready_def edited_def INPUT_BUF_SIZE_def)

theorem console_refines_line_discipline_witness:
  "ready (foldl consoleintr (empty_console (- 1)) [104, 120, 8, 105, 13]) = [104, 105, 10]"
  using console_refines_line_discipline [of "empty_console (- 1)" "[104, 120, 8, 105, 13]"] empty_console_inv
  by (simp add: type_char_def)

text \<open>
  C22: a line of printable characters typed at an idle console is what a read that is long
  enough returns, with its newline, and nothing remains.
\<close>

theorem console_line_round_trip:
  assumes "console_inv s" "ready s = []" "edited s = []" "\<forall>c \<in> set cs. 32 \<le> c \<and> c < 127" "length cs < 127" "length cs < n"
  shows "\<exists>s'. consoleread False (\<lambda>_. True) (int n) (foldl consoleintr s (cs @ [13])) (int n) =
      (Returned (int (length cs) + 1), s', map of_int cs @ [newline]) \<and> ready s' = [] \<and> edited s' = []"
proof -
  let ?s = "foldl consoleintr s (cs @ [13])"
  have cs: "\<forall>c \<in> set (cs @ [13]). 0 \<le> c \<and> c < 256" using assms(4) by auto
  have "foldl type_char (ready s, edited s) (cs @ [13]) = (map of_int cs @ [newline], [])"
    using type_plain [of cs "[]" "[]"] assms by (simp add: type_char_def)
  then have i: "console_inv ?s" "ready ?s = map of_int cs @ [newline]" "edited ?s = []"
    using fold_consoleintr_spec [OF assms(1) cs] by auto
  have "newline \<notin> of_int ` set cs" "ctrl_D \<notin> of_int ` set cs"
    using assms(4) by (auto simp: word_uint_eq_iff uint_word_of_int_eq take_bit_int_eq_self)
  then have "take_line False 0 n (ready ?s) = (map of_int cs @ [newline], [], Returned (int (length cs) + 1))"
    using take_line_whole [of "map of_int cs" n False 0 "[]"] assms(6) i(2) by simp
  from consoleread_spec [OF i(1) _ this, of "int n"] i(3) show ?thesis by auto
qed

theorem console_line_round_trip_witness:
  "\<exists>s'. consoleread False (\<lambda>_. True) 100 (foldl consoleintr (empty_console (- 1)) ([108, 115] @ [13])) 100 =
      (Returned 3, s', [108, 115, newline]) \<and> ready s' = [] \<and> edited s' = []"
  using console_line_round_trip [of "empty_console (- 1)" "[108, 115]" 100] empty_console_inv by simp

end
