(* ===== verification/Bytes.thy ===== *)
theory Bytes
  imports Prelude
begin

text \<open>
  Fields of structures that lie in a block of bytes: little-endian 16-bit and 32-bit loads and
  stores at an offset of a byte list, as the kernel's casts of \<^verbatim>\<open>buf->data\<close> and of the bytes of
  an executable compile to.
\<close>

definition get16 :: "uint8 list \<Rightarrow> nat \<Rightarrow> uint16" where
  "get16 bs i = ucast (bs ! i) OR push_bit 8 (ucast (bs ! (i + 1)))"

definition put16 :: "uint8 list \<Rightarrow> nat \<Rightarrow> uint16 \<Rightarrow> uint8 list" where
  "put16 bs i v = bs[i := ucast v, i + 1 := ucast (drop_bit 8 v)]"

definition get32 :: "uint8 list \<Rightarrow> nat \<Rightarrow> uint32" where
  "get32 bs i = ucast (bs ! i) OR push_bit 8 (ucast (bs ! (i + 1))) OR push_bit 16 (ucast (bs ! (i + 2))) OR
     push_bit 24 (ucast (bs ! (i + 3)))"

definition put32 :: "uint8 list \<Rightarrow> nat \<Rightarrow> uint32 \<Rightarrow> uint8 list" where
  "put32 bs i v = bs[i := ucast v, i + 1 := ucast (drop_bit 8 v), i + 2 := ucast (drop_bit 16 v), i + 3 := ucast (drop_bit 24 v)]"

lemma length_put [simp]: "length (put16 bs i v) = length bs" "length (put32 bs i w) = length bs"
  by (simp_all add: put16_def put32_def)

lemma join16: "ucast (ucast v :: uint8) OR push_bit 8 (ucast (ucast (drop_bit 8 v) :: uint8)) = (v :: uint16)"
  by (rule bit_word_eqI) (auto simp: bit_simps)

lemma join32:
  "ucast (ucast v :: uint8) OR push_bit 8 (ucast (ucast (drop_bit 8 v) :: uint8)) OR
   push_bit 16 (ucast (ucast (drop_bit 16 v) :: uint8)) OR push_bit 24 (ucast (ucast (drop_bit 24 v) :: uint8)) = (v :: uint32)" (is "?l = _")
proof (rule bit_word_eqI)
  fix n assume "n < LENGTH(32)"
  then consider "n < 8" | "8 \<le> n" "n < 16" | "16 \<le> n" "n < 24" | "24 \<le> n" "n < 32" by fastforce
  then show "bit ?l n = bit v n" by cases (auto simp: bit_simps)
qed

lemma get16_put16 [simp]: "i + 1 < length bs \<Longrightarrow> get16 (put16 bs i v) i = v"
  by (simp add: get16_def put16_def join16)

lemma get32_put32 [simp]: "i + 3 < length bs \<Longrightarrow> get32 (put32 bs i v) i = v"
  by (simp add: get32_def put32_def join32)

lemma nth_put16: "j < i \<or> i + 2 \<le> j \<Longrightarrow> put16 bs i v ! j = bs ! j"
  by (auto simp: put16_def)

lemma nth_put32: "j < i \<or> i + 4 \<le> j \<Longrightarrow> put32 bs i v ! j = bs ! j"
  by (auto simp: put32_def)

lemma get32_put32_other [simp]: "j + 4 \<le> i \<or> i + 4 \<le> j \<Longrightarrow> get32 (put32 bs i v) j = get32 bs j"
  by (auto simp: get32_def nth_put32)

lemma get16_put16_other [simp]: "j + 2 \<le> i \<or> i + 2 \<le> j \<Longrightarrow> get16 (put16 bs i v) j = get16 bs j"
  by (auto simp: get16_def nth_put16)

lemma get16_put32_other [simp]: "j + 2 \<le> i \<or> i + 4 \<le> j \<Longrightarrow> get16 (put32 bs i v) j = get16 bs j"
  by (auto simp: get16_def nth_put32)

lemma get32_put16_other [simp]: "j + 4 \<le> i \<or> i + 2 \<le> j \<Longrightarrow> get32 (put16 bs i v) j = get32 bs j"
  by (auto simp: get32_def nth_put16)

end
