(* ===== verification/Block_Cache.thy ===== *)
theory Block_Cache
  imports Bytes
begin

text \<open>
  The buffer cache of \<^verbatim>\<open>kernel/bio.c\<close>.  The doubly linked list through the buffers is the list
  \<open>mru\<close> of their indices from \<^verbatim>\<open>head.next\<close> to \<^verbatim>\<open>head.prev\<close>.  The disk driver reads or writes one
  whole block; \<open>dwrites\<close> is the history of the writes, for the crash proofs of the log.  The code
  runs one operation at a time here: \<open>acquiresleep\<close> on a held lock would wait for ever and is
  the result \<open>Panic\<close>.  Reference counts are numbers; the invariant shows that they are never
  decremented at 0.
\<close>

section \<open>Definitions\<close>

definition NBUF :: nat where "NBUF = 30"
definition BSIZE :: nat where "BSIZE = 1024"

type_synonym block = "uint8 list"

record buf =
  b_valid :: bool
  b_dev :: nat
  b_blockno :: nat
  b_locked :: bool
  b_refcnt :: nat
  b_data :: block

record bcache =
  bufs :: "buf list"
  mru :: "nat list"
  disk :: "nat \<Rightarrow> block"
  dwrites :: "(nat \<times> block) list"

definition set_buf :: "'a bcache_scheme \<Rightarrow> nat \<Rightarrow> buf \<Rightarrow> 'a bcache_scheme" where
  "set_buf s i b = s\<lparr>bufs := (bufs s)[i := b]\<rparr>"

primrec binit_loop :: "nat list \<Rightarrow> nat list \<Rightarrow> nat list" where
  "binit_loop [] l = l"
| "binit_loop (b # bs) l = binit_loop bs (b # l)"

definition binit :: "'a bcache_scheme \<Rightarrow> 'a bcache_scheme" where
  "binit s = s\<lparr>mru := binit_loop [0..<NBUF] []\<rparr>"

definition acquiresleep :: "'a bcache_scheme \<Rightarrow> nat \<Rightarrow> 'a bcache_scheme res" where
  "acquiresleep s i =
     (if b_locked (bufs s ! i) then Panic ''acquiresleep: waits for ever''
      else Ret (set_buf s i ((bufs s ! i)\<lparr>b_locked := True\<rparr>)))"

definition bget :: "'a bcache_scheme \<Rightarrow> nat \<Rightarrow> nat \<Rightarrow> (nat \<times> 'a bcache_scheme) res" where
  "bget s dev blockno =
     (case find (\<lambda>i. b_dev (bufs s ! i) = dev \<and> b_blockno (bufs s ! i) = blockno) (mru s) of
        Some i \<Rightarrow> rbind (acquiresleep (set_buf s i ((bufs s ! i)\<lparr>b_refcnt := b_refcnt (bufs s ! i) + 1\<rparr>)) i) (\<lambda>s. Ret (i, s))
      | None \<Rightarrow>
          (case find (\<lambda>i. b_refcnt (bufs s ! i) = 0) (rev (mru s)) of
             Some i \<Rightarrow> rbind (acquiresleep (set_buf s i ((bufs s ! i)\<lparr>b_dev := dev, b_blockno := blockno, b_valid := False, b_refcnt := 1\<rparr>)) i)
                         (\<lambda>s. Ret (i, s))
           | None \<Rightarrow> Panic ''bget: no buffers''))"

definition virtio_disk_rw :: "'a bcache_scheme \<Rightarrow> nat \<Rightarrow> bool \<Rightarrow> 'a bcache_scheme" where
  "virtio_disk_rw s i write =
     (let b = bufs s ! i in
      if write then s\<lparr>disk := (disk s)(b_blockno b := b_data b), dwrites := dwrites s @ [(b_blockno b, b_data b)]\<rparr>
      else set_buf s i (b\<lparr>b_data := disk s (b_blockno b)\<rparr>))"

definition bread :: "'a bcache_scheme \<Rightarrow> nat \<Rightarrow> nat \<Rightarrow> (nat \<times> 'a bcache_scheme) res" where
  "bread s dev blockno =
     rbind (bget s dev blockno) (\<lambda>(i, s).
       if b_valid (bufs s ! i) then Ret (i, s)
       else let s = virtio_disk_rw s i False in Ret (i, set_buf s i ((bufs s ! i)\<lparr>b_valid := True\<rparr>)))"

definition bwrite :: "'a bcache_scheme \<Rightarrow> nat \<Rightarrow> 'a bcache_scheme res" where
  "bwrite s i = (if \<not> b_locked (bufs s ! i) then Panic ''bwrite'' else Ret (virtio_disk_rw s i True))"

definition brelse :: "'a bcache_scheme \<Rightarrow> nat \<Rightarrow> 'a bcache_scheme res" where
  "brelse s i =
     (let b = bufs s ! i in
      if \<not> b_locked b then Panic ''brelse''
      else let s = set_buf s i (b\<lparr>b_locked := False, b_refcnt := b_refcnt b - 1\<rparr>)
           in Ret (if b_refcnt b - 1 = 0 then s\<lparr>mru := i # remove1 i (mru s)\<rparr> else s))"

definition bpin :: "'a bcache_scheme \<Rightarrow> nat \<Rightarrow> 'a bcache_scheme" where
  "bpin s i = set_buf s i ((bufs s ! i)\<lparr>b_refcnt := b_refcnt (bufs s ! i) + 1\<rparr>)"

definition bunpin :: "'a bcache_scheme \<Rightarrow> nat \<Rightarrow> 'a bcache_scheme" where
  "bunpin s i = set_buf s i ((bufs s ! i)\<lparr>b_refcnt := b_refcnt (bufs s ! i) - 1\<rparr>)"

text \<open>The store of a block's bytes by a client that holds the buffer.\<close>

definition set_data :: "'a bcache_scheme \<Rightarrow> nat \<Rightarrow> block \<Rightarrow> 'a bcache_scheme" where
  "set_data s i d = set_buf s i ((bufs s ! i)\<lparr>b_data := d\<rparr>)"

section \<open>Invariant and abstraction\<close>

text \<open>
  One device is in use.  Every block has at most one buffer, a buffer that nobody references
  holds what the disk holds, and a locked buffer is referenced.
\<close>

definition is_buf :: "'a bcache_scheme \<Rightarrow> nat \<Rightarrow> nat \<Rightarrow> nat \<Rightarrow> bool" where
  "is_buf s dev b i \<longleftrightarrow> i < NBUF \<and> b_dev (bufs s ! i) = dev \<and> b_blockno (bufs s ! i) = b"

definition bc_inv :: "nat \<Rightarrow> 'a bcache_scheme \<Rightarrow> bool" where
  "bc_inv dev s \<longleftrightarrow> 0 < dev \<and> length (bufs s) = NBUF \<and> distinct (mru s) \<and> set (mru s) = {..<NBUF} \<and>
     (\<forall>i < NBUF. b_dev (bufs s ! i) = dev \<or> b_refcnt (bufs s ! i) = 0 \<and> b_dev (bufs s ! i) = 0) \<and>
     (\<forall>i < NBUF. b_locked (bufs s ! i) \<longrightarrow> 0 < b_refcnt (bufs s ! i)) \<and>
     (\<forall>b i j. is_buf s dev b i \<longrightarrow> is_buf s dev b j \<longrightarrow> i = j) \<and>
     (\<forall>b i. is_buf s dev b i \<longrightarrow> b_valid (bufs s ! i) \<longrightarrow> b_refcnt (bufs s ! i) = 0 \<longrightarrow> b_data (bufs s ! i) = disk s b)"

definition buf_of :: "'a bcache_scheme \<Rightarrow> nat \<Rightarrow> nat \<Rightarrow> nat option" where
  "buf_of s dev b = find (\<lambda>i. b_dev (bufs s ! i) = dev \<and> b_blockno (bufs s ! i) = b) (mru s)"

definition view :: "nat \<Rightarrow> 'a bcache_scheme \<Rightarrow> nat \<Rightarrow> block" where
  "view dev s b = (case buf_of s dev b of Some i \<Rightarrow> if b_valid (bufs s ! i) then b_data (bufs s ! i) else disk s b | None \<Rightarrow> disk s b)"

definition refs :: "nat \<Rightarrow> 'a bcache_scheme \<Rightarrow> nat \<Rightarrow> nat" where
  "refs dev s b = (case buf_of s dev b of Some i \<Rightarrow> b_refcnt (bufs s ! i) | None \<Rightarrow> 0)"

definition held :: "nat \<Rightarrow> 'a bcache_scheme \<Rightarrow> nat \<Rightarrow> bool" where
  "held dev s b = (case buf_of s dev b of Some i \<Rightarrow> b_locked (bufs s ! i) | None \<Rightarrow> False)"

definition in_use :: "nat \<Rightarrow> 'a bcache_scheme \<Rightarrow> nat set" where
  "in_use dev s = {b. 0 < refs dev s b}"

lemma find_SomeD: "find P xs = Some i \<Longrightarrow> i \<in> set xs \<and> P i"
  by (induction xs) (auto split: if_splits)

lemma find_unique:
  assumes "distinct xs" "i \<in> set xs" "P i" "\<And>j. j \<in> set xs \<Longrightarrow> P j \<Longrightarrow> j = i"
  shows "find P xs = Some i"
proof (cases "find P xs")
  case None
  then show ?thesis using assms(2,3) by (auto simp: find_None_iff)
next
  case (Some j)
  then have "j \<in> set xs" "P j" using find_SomeD by fastforce+
  then show ?thesis using Some assms(4) by simp
qed

lemma buf_of_Some: "bc_inv dev s \<Longrightarrow> buf_of s dev b = Some i \<longleftrightarrow> is_buf s dev b i"
proof
  assume "bc_inv dev s" "buf_of s dev b = Some i"
  then show "is_buf s dev b i"
    unfolding buf_of_def find_Some_iff by (auto simp: is_buf_def bc_inv_def dest: nth_mem)
next
  assume a: "bc_inv dev s" "is_buf s dev b i"
  have "j = i" if "j \<in> set (mru s)" "b_dev (bufs s ! j) = dev \<and> b_blockno (bufs s ! j) = b" for j
  proof -
    have "is_buf s dev b j" using a(1) that by (auto simp: is_buf_def bc_inv_def)
    then show ?thesis using a unfolding bc_inv_def by blast
  qed
  then show "buf_of s dev b = Some i"
    unfolding buf_of_def using a by (intro find_unique) (auto simp: bc_inv_def is_buf_def)
qed

lemma buf_of_None: "bc_inv dev s \<Longrightarrow> buf_of s dev b = None \<longleftrightarrow> (\<forall>i. \<not> is_buf s dev b i)"
  using buf_of_Some [of dev s b] by (metis option.distinct(1) option.exhaust)

lemma view_buf: "bc_inv dev s \<Longrightarrow> is_buf s dev b i \<Longrightarrow> view dev s b = (if b_valid (bufs s ! i) then b_data (bufs s ! i) else disk s b)"
  "bc_inv dev s \<Longrightarrow> is_buf s dev b i \<Longrightarrow> refs dev s b = b_refcnt (bufs s ! i)"
  "bc_inv dev s \<Longrightarrow> is_buf s dev b i \<Longrightarrow> held dev s b = b_locked (bufs s ! i)"
  by (simp_all add: view_def refs_def held_def buf_of_Some [symmetric])

lemma view_nobuf:
  assumes "bc_inv dev s" "\<And>i. \<not> is_buf s dev b i"
  shows "view dev s b = disk s b" "refs dev s b = 0" "\<not> held dev s b"
  using buf_of_None [OF assms(1), of b] assms(2) by (simp_all add: view_def refs_def held_def)

text \<open>Two states with the same buffers on every block but \<open>b\<close> agree on every block but \<open>b\<close>.\<close>

lemma view_cong:
  assumes "bc_inv dev s" "bc_inv dev s'" "\<And>i. is_buf s' dev c i = is_buf s dev c i"
    "\<And>i. is_buf s dev c i \<Longrightarrow> bufs s' ! i = bufs s ! i" "disk s' c = disk s c"
  shows "view dev s' c = view dev s c" "refs dev s' c = refs dev s c" "held dev s' c = held dev s c"
proof -
  have "view dev s' c = view dev s c \<and> refs dev s' c = refs dev s c \<and> held dev s' c = held dev s c"
  proof (cases "\<exists>i. is_buf s dev c i")
    case True
    then obtain i where i: "is_buf s dev c i" ..
    then show ?thesis
      using view_buf [OF assms(1) i] view_buf [OF assms(2), of c i] assms(3-5) by simp
  next
    case False
    then show ?thesis using view_nobuf [OF assms(1), of c] view_nobuf [OF assms(2), of c] assms(3,5) by auto
  qed
  then show "view dev s' c = view dev s c" "refs dev s' c = refs dev s c" "held dev s' c = held dev s c" by auto
qed

lemma is_buf_set_buf:
  assumes "bc_inv dev s" "i < NBUF"
  shows "is_buf (set_buf s i x) dev c j \<longleftrightarrow> (if j = i then b_dev x = dev \<and> b_blockno x = c else is_buf s dev c j)"
  using assms by (auto simp: is_buf_def set_buf_def bc_inv_def nth_list_update)

lemma set_buf_simps [simp]:
  "disk (set_buf s i x) = disk s" "mru (set_buf s i x) = mru s" "dwrites (set_buf s i x) = dwrites s"
  "bufs (set_buf s i x) = (bufs s)[i := x]" "set_buf (set_buf s i x) i y = set_buf s i y"
  by (simp_all add: set_buf_def)

lemma set_buf_inv:
  assumes "bc_inv dev s" "i < NBUF" "b_dev x = dev" "b_blockno x = b"
    "is_buf s dev b i \<or> (\<forall>j. \<not> is_buf s dev b j)"
    "b_locked x \<longrightarrow> 0 < b_refcnt x" "b_valid x \<and> b_refcnt x = 0 \<longrightarrow> b_data x = disk s b"
  shows "bc_inv dev (set_buf s i x)"
proof -
  have uniq: "\<And>c j k. is_buf s dev c j \<Longrightarrow> is_buf s dev c k \<Longrightarrow> j = k" and len: "length (bufs s) = NBUF"
    using assms(1) unfolding bc_inv_def by blast+
  have u: "j = k" if "is_buf (set_buf s i x) dev c j" "is_buf (set_buf s i x) dev c k" for c j k
    using that uniq assms(3-5) unfolding is_buf_set_buf [OF assms(1,2)] by (metis (full_types))
  have c: "b_data (bufs (set_buf s i x) ! j) = disk s c"
    if "is_buf (set_buf s i x) dev c j" "b_valid (bufs (set_buf s i x) ! j)" "b_refcnt (bufs (set_buf s i x) ! j) = 0" for c j
    using that assms(1,2,4,7) len unfolding is_buf_set_buf [OF assms(1,2)] bc_inv_def
    by (cases "j = i") auto
  show ?thesis
    using assms(1,2,3,6) u c unfolding bc_inv_def [of dev "set_buf s i x"]
    by (auto simp: bc_inv_def nth_list_update)
qed

lemma set_buf_abs:
  assumes "bc_inv dev s" "i < NBUF" "b_dev x = dev" "b_blockno x = b"
    "is_buf s dev b i \<or> (\<forall>j. \<not> is_buf s dev b j) \<and> b_refcnt (bufs s ! i) = 0"
    "b_locked x \<longrightarrow> 0 < b_refcnt x" "b_valid x \<and> b_refcnt x = 0 \<longrightarrow> b_data x = disk s b"
  shows "view dev (set_buf s i x) = (view dev s)(b := if b_valid x then b_data x else disk s b)"
    "refs dev (set_buf s i x) = (refs dev s)(b := b_refcnt x)" "held dev (set_buf s i x) = (held dev s)(b := b_locked x)"
proof -
  have inv': "bc_inv dev (set_buf s i x)"
    by (rule set_buf_inv [OF assms(1-4)]) (use assms(5-7) in auto)
  note isb = is_buf_set_buf [OF assms(1,2)]
  have ib: "is_buf (set_buf s i x) dev b i" using assms(3,4) isb by simp
  have len: "length (bufs s) = NBUF" using assms(1) by (simp add: bc_inv_def)
  have other: "view dev (set_buf s i x) c = view dev s c \<and> refs dev (set_buf s i x) c = refs dev s c \<and> held dev (set_buf s i x) c = held dev s c"
    if "c \<noteq> b" for c
  proof (cases "is_buf s dev c i")
    case False
    have "is_buf (set_buf s i x) dev c j = is_buf s dev c j" for j using False isb that assms(4) by auto
    moreover have "bufs (set_buf s i x) ! j = bufs s ! j" if "is_buf s dev c j" for j using that False by (cases "j = i") auto
    ultimately show ?thesis using view_cong [OF assms(1) inv', of c] by simp
  next
    case True
    then have r: "b_refcnt (bufs s ! i) = 0" using assms(5) that by (auto simp: is_buf_def)
    have l: "\<not> b_locked (bufs s ! i)" "b_valid (bufs s ! i) \<longrightarrow> b_data (bufs s ! i) = disk s c"
      using assms(1,2) r True unfolding bc_inv_def by fastforce+
    have "\<not> is_buf (set_buf s i x) dev c j" for j
      using True that assms(1,4) unfolding isb bc_inv_def by (metis (full_types))
    then show ?thesis
      using view_nobuf [OF inv', of c] view_buf [OF assms(1) True] r l by auto
  qed
  have "view dev (set_buf s i x) c = ((view dev s)(b := if b_valid x then b_data x else disk s b)) c \<and>
      refs dev (set_buf s i x) c = ((refs dev s)(b := b_refcnt x)) c \<and> held dev (set_buf s i x) c = ((held dev s)(b := b_locked x)) c" for c
    using other [of c] view_buf [OF inv' ib] assms(2) len by (cases "c = b") auto
  then show "view dev (set_buf s i x) = (view dev s)(b := if b_valid x then b_data x else disk s b)"
    "refs dev (set_buf s i x) = (refs dev s)(b := b_refcnt x)" "held dev (set_buf s i x) = (held dev s)(b := b_locked x)"
    by blast+
qed

lemma mru_abs:
  assumes "bc_inv dev s" "distinct m" "set m = set (mru s)"
  shows "bc_inv dev (s\<lparr>mru := m\<rparr>)" "view dev (s\<lparr>mru := m\<rparr>) = view dev s" "refs dev (s\<lparr>mru := m\<rparr>) = refs dev s"
    "held dev (s\<lparr>mru := m\<rparr>) = held dev s"
proof -
  have isb: "is_buf (s\<lparr>mru := m\<rparr>) dev c i = is_buf s dev c i" for c i by (simp add: is_buf_def)
  show inv': "bc_inv dev (s\<lparr>mru := m\<rparr>)" using assms unfolding bc_inv_def isb by simp
  show "view dev (s\<lparr>mru := m\<rparr>) = view dev s" "refs dev (s\<lparr>mru := m\<rparr>) = refs dev s" "held dev (s\<lparr>mru := m\<rparr>) = held dev s"
    using view_cong [OF assms(1) inv' isb] by auto
qed

section \<open>Free buffers\<close>

lemma in_use_card:
  assumes "bc_inv dev s"
  shows "card (in_use dev s) = card {i. i < NBUF \<and> 0 < b_refcnt (bufs s ! i)}" "finite (in_use dev s)"
proof -
  let ?I = "{i. i < NBUF \<and> 0 < b_refcnt (bufs s ! i)}"
  have isb: "is_buf s dev (b_blockno (bufs s ! i)) i" if "i \<in> ?I" for i
    using that assms by (auto simp: is_buf_def bc_inv_def)
  have inj: "inj_on (\<lambda>i. b_blockno (bufs s ! i)) ?I"
  proof (rule inj_onI)
    fix i j assume "i \<in> ?I" "j \<in> ?I" "b_blockno (bufs s ! i) = b_blockno (bufs s ! j)"
    then show "i = j" using isb [of i] isb [of j] assms unfolding bc_inv_def by metis
  qed
  have "in_use dev s = (\<lambda>i. b_blockno (bufs s ! i)) ` ?I"
  proof (intro set_eqI iffI)
    fix b assume "b \<in> in_use dev s"
    then have r: "0 < refs dev s b" by (simp add: in_use_def)
    then obtain i where i: "is_buf s dev b i" using view_nobuf(2) [OF assms] by (metis less_irrefl)
    then show "b \<in> (\<lambda>i. b_blockno (bufs s ! i)) ` ?I"
      using r view_buf(2) [OF assms i] by (auto simp: is_buf_def)
  next
    fix b assume "b \<in> (\<lambda>i. b_blockno (bufs s ! i)) ` ?I"
    then obtain i where "i \<in> ?I" "b = b_blockno (bufs s ! i)" by blast
    then show "b \<in> in_use dev s" using view_buf(2) [OF assms isb] by (simp add: in_use_def)
  qed
  then show "card (in_use dev s) = card ?I" "finite (in_use dev s)" using card_image [OF inj] by auto
qed

lemma free_buffer:
  assumes "bc_inv dev s" "card (in_use dev s) < NBUF"
  obtains i where "find (\<lambda>i. b_refcnt (bufs s ! i) = 0) (rev (mru s)) = Some i" "i < NBUF" "b_refcnt (bufs s ! i) = 0"
proof (cases "find (\<lambda>i. b_refcnt (bufs s ! i) = 0) (rev (mru s))")
  case None
  then have "\<forall>i < NBUF. 0 < b_refcnt (bufs s ! i)" using assms(1) by (auto simp: find_None_iff bc_inv_def)
  then have "{i. i < NBUF \<and> 0 < b_refcnt (bufs s ! i)} = {..<NBUF}" by auto
  then show ?thesis using assms(2) in_use_card(1) [OF assms(1)] by simp
next
  case (Some i)
  then have "i \<in> set (rev (mru s))" "b_refcnt (bufs s ! i) = 0" using find_SomeD by fastforce+
  then show ?thesis using that [of i] Some assms(1) by (auto simp: bc_inv_def)
qed

section \<open>The operations on the abstraction\<close>

text \<open>A held buffer of block \<open>b\<close> with the contents \<open>view dev s b\<close>.\<close>

definition holds :: "nat \<Rightarrow> 'a bcache_scheme \<Rightarrow> nat \<Rightarrow> nat \<Rightarrow> bool" where
  "holds dev s b i \<longleftrightarrow> is_buf s dev b i \<and> b_locked (bufs s ! i) \<and> b_valid (bufs s ! i)"

lemma buf_valid_eta: "b_valid b \<Longrightarrow> b\<lparr>b_refcnt := r, b_locked := l, b_valid := True\<rparr> = b\<lparr>b_refcnt := r, b_locked := l\<rparr>"
  for b :: buf
  by (cases b) simp

lemma bread_spec:
  assumes "bc_inv dev s" "\<not> held dev s b" "b \<in> in_use dev s \<or> card (in_use dev s) < NBUF"
  obtains i bs where "bread s dev b = Ret (i, s\<lparr>bufs := bs\<rparr>)" "bc_inv dev (s\<lparr>bufs := bs\<rparr>)" "holds dev (s\<lparr>bufs := bs\<rparr>) b i"
    "b_data (bs ! i) = view dev s b" "view dev (s\<lparr>bufs := bs\<rparr>) = view dev s"
    "refs dev (s\<lparr>bufs := bs\<rparr>) = (refs dev s)(b := refs dev s b + 1)" "held dev (s\<lparr>bufs := bs\<rparr>) = (held dev s)(b := True)"
    "\<And>c j. c \<noteq> b \<Longrightarrow> holds dev s c j \<Longrightarrow> holds dev (s\<lparr>bufs := bs\<rparr>) c j \<and> bs ! j = bufs s ! j"
proof -
  note ok = that
  have len: "length (bufs s) = NBUF" using assms(1) by (simp add: bc_inv_def)
  have fin: thesis if r: "bread s dev b = Ret (i, set_buf s i x)" and i: "i < NBUF" and x: "b_dev x = dev" "b_blockno x = b"
      "b_locked x" "b_valid x" "b_refcnt x = refs dev s b + 1" "b_data x = view dev s b"
      and o: "is_buf s dev b i \<or> (\<forall>j. \<not> is_buf s dev b j) \<and> b_refcnt (bufs s ! i) = 0" for i x
  proof -
    have g: "b_locked x \<longrightarrow> 0 < b_refcnt x" "b_valid x \<and> b_refcnt x = 0 \<longrightarrow> b_data x = disk s b" using x by auto
    note abs = set_buf_abs [OF assms(1) i x(1,2) o g]
    have e: "set_buf s i x = s\<lparr>bufs := (bufs s)[i := x]\<rparr>" by (simp add: set_buf_def)
    have h: "holds dev (set_buf s i x) b i"
      using i x len is_buf_set_buf [OF assms(1) i, of x b i] by (simp add: holds_def)
    have oth: "holds dev (set_buf s i x) c j \<and> (bufs s)[i := x] ! j = bufs s ! j" if "c \<noteq> b" "holds dev s c j" for c j
    proof -
      have "b_refcnt (bufs s ! j) > 0" using that(2) assms(1) by (auto simp: holds_def is_buf_def bc_inv_def)
      then have "j \<noteq> i" using that o by (auto simp: holds_def is_buf_def)
      then show ?thesis using that is_buf_set_buf [OF assms(1) i] by (simp add: holds_def)
    qed
    have inv': "bc_inv dev (set_buf s i x)" by (rule set_buf_inv [OF assms(1) i x(1,2) _ g]) (use o in auto)
    show thesis
      by (rule ok [of i "(bufs s)[i := x]"]) (use r abs h oth inv' x i len in \<open>auto simp: e\<close>)
  qed
  show thesis
  proof (cases "buf_of s dev b")
    case (Some i)
    then have i: "is_buf s dev b i" using buf_of_Some [OF assms(1)] by simp
    note v = view_buf [OF assms(1) i]
    let ?y = "(bufs s ! i)\<lparr>b_refcnt := b_refcnt (bufs s ! i) + 1, b_locked := True\<rparr>"
    have lt: "i < NBUF" using i by (simp add: is_buf_def)
    have g: "bget s dev b = Ret (i, set_buf s i ?y)"
      using Some assms(2) v(3) len lt by (simp add: bget_def buf_of_def [symmetric] acquiresleep_def)
    have "bread s dev b = Ret (i, set_buf s i (?y\<lparr>b_data := view dev s b, b_valid := True\<rparr>))"
      using g v(1) len lt i by (auto simp: bread_def virtio_disk_rw_def Let_def is_buf_def buf_valid_eta)
    then show thesis
      by (rule fin) (use i v(2) in \<open>auto simp: is_buf_def\<close>)
  next
    case None
    then have no: "\<And>j. \<not> is_buf s dev b j" using buf_of_None [OF assms(1)] by blast
    note v = view_nobuf [OF assms(1) no]
    have "b \<notin> in_use dev s" using v(2) by (simp add: in_use_def)
    then obtain i where f: "find (\<lambda>i. b_refcnt (bufs s ! i) = 0) (rev (mru s)) = Some i" "i < NBUF" "b_refcnt (bufs s ! i) = 0"
      using free_buffer [OF assms(1)] assms(3) by blast
    have nl: "\<not> b_locked (bufs s ! i)" using f(2,3) assms(1) by (auto simp: bc_inv_def)
    let ?y = "(bufs s ! i)\<lparr>b_dev := dev, b_blockno := b, b_valid := False, b_refcnt := 1, b_locked := True\<rparr>"
    have g: "bget s dev b = Ret (i, set_buf s i ?y)"
      using None f nl len by (simp add: bget_def buf_of_def [symmetric] acquiresleep_def)
    have "bread s dev b = Ret (i, set_buf s i (?y\<lparr>b_data := view dev s b, b_valid := True\<rparr>))"
      using g v(1) len f(2) by (auto simp: bread_def virtio_disk_rw_def Let_def)
    then show thesis
      by (rule fin) (use f no v(2) in auto)
  qed
qed

lemma set_data_spec:
  assumes "bc_inv dev s" "holds dev s b i"
  shows "bc_inv dev (set_data s i d)" "holds dev (set_data s i d) b i" "b_data (bufs (set_data s i d) ! i) = d"
    "view dev (set_data s i d) = (view dev s)(b := d)" "refs dev (set_data s i d) = refs dev s" "held dev (set_data s i d) = held dev s"
    "c \<noteq> b \<Longrightarrow> holds dev s c j \<Longrightarrow> holds dev (set_data s i d) c j \<and> bufs (set_data s i d) ! j = bufs s ! j"
proof -
  have i: "is_buf s dev b i" "i < NBUF" using assms(2) by (auto simp: holds_def is_buf_def)
  have len: "length (bufs s) = NBUF" using assms(1) by (simp add: bc_inv_def)
  have rp: "0 < b_refcnt (bufs s ! i)" using assms i by (auto simp: bc_inv_def holds_def)
  let ?x = "(bufs s ! i)\<lparr>b_data := d\<rparr>"
  have x: "b_dev ?x = dev" "b_blockno ?x = b" "b_locked ?x \<longrightarrow> 0 < b_refcnt ?x"
    "b_valid ?x \<and> b_refcnt ?x = 0 \<longrightarrow> b_data ?x = disk s b" using i rp by (auto simp: is_buf_def)
  note abs = set_buf_abs [OF assms(1) i(2) x(1,2) disjI1 [OF i(1)] x(3,4)]
  show "bc_inv dev (set_data s i d)"
    unfolding set_data_def by (rule set_buf_inv [OF assms(1) i(2) x(1,2) disjI1 [OF i(1)] x(3,4)])
  show "view dev (set_data s i d) = (view dev s)(b := d)" using abs(1) assms(2) by (simp add: set_data_def holds_def)
  show "refs dev (set_data s i d) = refs dev s" "held dev (set_data s i d) = held dev s"
    using abs(2,3) view_buf(2,3) [OF assms(1) i(1)] by (auto simp: set_data_def fun_eq_iff)
  show "holds dev (set_data s i d) b i" "b_data (bufs (set_data s i d) ! i) = d"
    using i assms(2) len is_buf_set_buf [OF assms(1) i(2), of ?x b i] by (simp_all add: set_data_def holds_def is_buf_def)
  show "holds dev (set_data s i d) c j \<and> bufs (set_data s i d) ! j = bufs s ! j" if "c \<noteq> b" "holds dev s c j"
  proof -
    have "j \<noteq> i" using that i by (auto simp: holds_def is_buf_def)
    then show ?thesis using that is_buf_set_buf [OF assms(1) i(2)] by (simp add: holds_def set_data_def)
  qed
qed

lemma holds_view: "bc_inv dev s \<Longrightarrow> holds dev s b i \<Longrightarrow> view dev s b = b_data (bufs s ! i)"
  "bc_inv dev s \<Longrightarrow> holds dev s b i \<Longrightarrow> refs dev s b = b_refcnt (bufs s ! i)"
  "bc_inv dev s \<Longrightarrow> holds dev s b i \<Longrightarrow> held dev s b"
  "bc_inv dev s \<Longrightarrow> holds dev s b i \<Longrightarrow> 0 < refs dev s b"
  using view_buf [of dev s b i] by (auto simp: holds_def is_buf_def bc_inv_def)

lemma bwrite_spec:
  assumes "bc_inv dev s" "holds dev s b i"
  defines "s' \<equiv> s\<lparr>disk := (disk s)(b := view dev s b), dwrites := dwrites s @ [(b, view dev s b)]\<rparr>"
  shows "bwrite s i = Ret s'" "bc_inv dev s'" "view dev s' = view dev s" "refs dev s' = refs dev s" "held dev s' = held dev s"
    "holds dev s' c j = holds dev s c j"
proof -
  note h = holds_view [OF assms(1,2)]
  have isb: "is_buf s' dev c j = is_buf s dev c j" for c j by (simp add: is_buf_def s'_def)
  have i: "is_buf s dev b i" "b_locked (bufs s ! i)" "b_valid (bufs s ! i)" using assms(2) by (auto simp: holds_def)
  show "bwrite s i = Ret s'"
    using i h(1) by (simp add: bwrite_def virtio_disk_rw_def s'_def is_buf_def Let_def)
  have "b_data (bufs s ! j) = ((disk s)(b := view dev s b)) c" if "is_buf s dev c j" "b_valid (bufs s ! j)" "b_refcnt (bufs s ! j) = 0" for c j
  proof -
    have "c \<noteq> b" using that i(1) h(2,4) assms(1) unfolding bc_inv_def by (metis less_numeral_extra(3))
    then show ?thesis using that assms(1) by (simp add: bc_inv_def)
  qed
  then show inv': "bc_inv dev s'" using assms(1) unfolding bc_inv_def isb by (auto simp: s'_def)
  have "view dev s' c = view dev s c \<and> refs dev s' c = refs dev s c \<and> held dev s' c = held dev s c" for c
  proof (cases "c = b")
    case True
    have "is_buf s' dev b i" using isb i(1) by simp
    then show ?thesis using True view_buf [OF inv', of b i] h i view_buf [OF assms(1) i(1)] by (simp add: s'_def)
  next
    case False
    then show ?thesis using view_cong [OF assms(1) inv' isb, of c] by (simp add: s'_def)
  qed
  then show "view dev s' = view dev s" "refs dev s' = refs dev s" "held dev s' = held dev s" by auto
  show "holds dev s' c j = holds dev s c j" by (simp add: holds_def isb) (simp add: s'_def)
qed

lemma brelse_spec:
  assumes "bc_inv dev s" "holds dev s b i" "refs dev s b = 1 \<longrightarrow> view dev s b = disk s b"
  obtains bs m where "brelse s i = Ret (s\<lparr>bufs := bs, mru := m\<rparr>)" "bc_inv dev (s\<lparr>bufs := bs, mru := m\<rparr>)"
    "view dev (s\<lparr>bufs := bs, mru := m\<rparr>) = view dev s" "refs dev (s\<lparr>bufs := bs, mru := m\<rparr>) = (refs dev s)(b := refs dev s b - 1)"
    "held dev (s\<lparr>bufs := bs, mru := m\<rparr>) = (held dev s)(b := False)"
    "\<And>c j. c \<noteq> b \<Longrightarrow> holds dev s c j \<Longrightarrow> holds dev (s\<lparr>bufs := bs, mru := m\<rparr>) c j \<and> bs ! j = bufs s ! j"
proof -
  note ok = that
  note h = holds_view [OF assms(1,2)]
  have i: "is_buf s dev b i" "i < NBUF" "b_locked (bufs s ! i)" "b_valid (bufs s ! i)" using assms(2) by (auto simp: holds_def is_buf_def)
  let ?x = "(bufs s ! i)\<lparr>b_locked := False, b_refcnt := b_refcnt (bufs s ! i) - 1\<rparr>"
  have x: "b_dev ?x = dev" "b_blockno ?x = b" "b_locked ?x \<longrightarrow> 0 < b_refcnt ?x"
    "b_valid ?x \<and> b_refcnt ?x = 0 \<longrightarrow> b_data ?x = disk s b" using i h assms(3) by (auto simp: is_buf_def)
  define s1 where "s1 = set_buf s i ?x"
  note abs = set_buf_abs [OF assms(1) i(2) x(1,2) disjI1 [OF i(1)] x(3,4), folded s1_def]
  have inv1: "bc_inv dev s1"
    unfolding s1_def by (rule set_buf_inv [OF assms(1) i(2) x(1,2) disjI1 [OF i(1)] x(3,4)])
  define m where "m = (if b_refcnt (bufs s ! i) - 1 = 0 then i # remove1 i (mru s1) else mru s1)"
  have m: "distinct m" "set m = set (mru s1)"
    using inv1 i(2) by (auto simp: m_def bc_inv_def)
  note ma = mru_abs [OF inv1 m]
  have e: "s1\<lparr>mru := m\<rparr> = s\<lparr>bufs := (bufs s)[i := ?x], mru := m\<rparr>" by (simp add: s1_def set_buf_def)
  have b: "brelse s i = Ret (s1\<lparr>mru := m\<rparr>)" using i by (simp add: brelse_def Let_def m_def s1_def set_buf_def)
  have oth: "holds dev (s1\<lparr>mru := m\<rparr>) c j \<and> (bufs s)[i := ?x] ! j = bufs s ! j" if "c \<noteq> b" "holds dev s c j" for c j
  proof -
    have "j \<noteq> i" using that i by (auto simp: holds_def is_buf_def)
    then show ?thesis using that by (simp add: holds_def s1_def is_buf_def)
  qed
  show thesis
    by (rule ok [where bs = "(bufs s)[i := ?x]" and m = m, folded e])
      (use b ma abs h oth i in \<open>auto simp: fun_eq_iff\<close>)
qed

lemma bpin_spec:
  assumes "bc_inv dev s" "holds dev s b i"
  shows "bc_inv dev (bpin s i)" "view dev (bpin s i) = view dev s" "refs dev (bpin s i) = (refs dev s)(b := refs dev s b + 1)"
    "held dev (bpin s i) = held dev s" "holds dev (bpin s i) c j = holds dev s c j"
proof -
  note h = holds_view [OF assms]
  have i: "is_buf s dev b i" "i < NBUF" "b_locked (bufs s ! i)" "b_valid (bufs s ! i)" using assms(2) by (auto simp: holds_def is_buf_def)
  have len: "length (bufs s) = NBUF" using assms(1) by (simp add: bc_inv_def)
  let ?x = "(bufs s ! i)\<lparr>b_refcnt := b_refcnt (bufs s ! i) + 1\<rparr>"
  have x: "b_dev ?x = dev" "b_blockno ?x = b" "b_locked ?x \<longrightarrow> 0 < b_refcnt ?x"
    "b_valid ?x \<and> b_refcnt ?x = 0 \<longrightarrow> b_data ?x = disk s b" using i by (auto simp: is_buf_def)
  note abs = set_buf_abs [OF assms(1) i(2) x(1,2) disjI1 [OF i(1)] x(3,4)]
  show "bc_inv dev (bpin s i)" unfolding bpin_def by (rule set_buf_inv [OF assms(1) i(2) x(1,2) disjI1 [OF i(1)] x(3,4)])
  show "view dev (bpin s i) = view dev s" "refs dev (bpin s i) = (refs dev s)(b := refs dev s b + 1)" "held dev (bpin s i) = held dev s"
    using abs h i unfolding bpin_def by (auto simp: fun_eq_iff)
  show "holds dev (bpin s i) c j = holds dev s c j"
    using i len by (cases "j = i") (auto simp: holds_def is_buf_def bpin_def)
qed

lemma bunpin_spec:
  assumes "bc_inv dev s" "holds dev s b i" "1 < refs dev s b"
  shows "bc_inv dev (bunpin s i)" "view dev (bunpin s i) = view dev s" "refs dev (bunpin s i) = (refs dev s)(b := refs dev s b - 1)"
    "held dev (bunpin s i) = held dev s" "holds dev (bunpin s i) c j = holds dev s c j"
proof -
  note h = holds_view [OF assms(1,2)]
  have i: "is_buf s dev b i" "i < NBUF" "b_locked (bufs s ! i)" "b_valid (bufs s ! i)" using assms(2) by (auto simp: holds_def is_buf_def)
  have len: "length (bufs s) = NBUF" using assms(1) by (simp add: bc_inv_def)
  let ?x = "(bufs s ! i)\<lparr>b_refcnt := b_refcnt (bufs s ! i) - 1\<rparr>"
  have x: "b_dev ?x = dev" "b_blockno ?x = b" "b_locked ?x \<longrightarrow> 0 < b_refcnt ?x"
    "b_valid ?x \<and> b_refcnt ?x = 0 \<longrightarrow> b_data ?x = disk s b" using i h(2) assms(3) by (auto simp: is_buf_def)
  note abs = set_buf_abs [OF assms(1) i(2) x(1,2) disjI1 [OF i(1)] x(3,4)]
  show "bc_inv dev (bunpin s i)" unfolding bunpin_def by (rule set_buf_inv [OF assms(1) i(2) x(1,2) disjI1 [OF i(1)] x(3,4)])
  show "view dev (bunpin s i) = view dev s" "refs dev (bunpin s i) = (refs dev s)(b := refs dev s b - 1)" "held dev (bunpin s i) = held dev s"
    using abs h i unfolding bunpin_def by (auto simp: fun_eq_iff)
  show "holds dev (bunpin s i) c j = holds dev s c j"
    using i len by (cases "j = i") (auto simp: holds_def is_buf_def bunpin_def)
qed

lemma frame_simps [simp]:
  "disk (set_data s i d) = disk s" "dwrites (set_data s i d) = dwrites s"
  "disk (bpin s i) = disk s" "dwrites (bpin s i) = dwrites s" "disk (bunpin s i) = disk s" "dwrites (bunpin s i) = dwrites s"
  by (simp_all add: set_data_def bpin_def bunpin_def)

end
