(* ===== verification/Log.thy ===== *)
theory Log
  imports Block_Cache
begin

text \<open>
  The write-ahead log of \<^verbatim>\<open>kernel/log.c\<close> on top of the buffer cache.  \<^verbatim>\<open>begin_op\<close> is absent while it
  has to sleep; \<^verbatim>\<open>end_op\<close> runs the commit of the last operation, which no other operation can
  overlap because \<open>committing\<close> is set.  The message printed for each recovered block is not
  modelled.
\<close>

section \<open>Definitions\<close>

definition MAXOPBLOCKS :: int where "MAXOPBLOCKS = 10"
definition LOGBLOCKS :: int where "LOGBLOCKS = MAXOPBLOCKS * 3"

record logsys = bcache +
  lg_start :: nat
  lg_outstanding :: int
  lg_committing :: bool
  lg_dev :: nat
  lg_n :: int
  lg_block :: "nat list"

text \<open>One round of the loop of \<^verbatim>\<open>install_trans\<close>, and of \<^verbatim>\<open>write_log\<close>.\<close>

definition install_block :: "'a logsys_scheme \<Rightarrow> bool \<Rightarrow> nat \<Rightarrow> 'a logsys_scheme res" where
  "install_block s recovering tail =
     rbind (bread s (lg_dev s) (lg_start s + tail + 1)) (\<lambda>(lbuf, s).
     rbind (bread s (lg_dev s) (lg_block s ! tail)) (\<lambda>(dbuf, s).
       let s = set_data s dbuf (b_data (bufs s ! lbuf)) in
       rbind (bwrite s dbuf) (\<lambda>s.
         let s = (if recovering then s else bunpin s dbuf) in
         rbind (brelse s lbuf) (\<lambda>s. brelse s dbuf))))"

definition log_block :: "'a logsys_scheme \<Rightarrow> nat \<Rightarrow> 'a logsys_scheme res" where
  "log_block s tail =
     rbind (bread s (lg_dev s) (lg_start s + tail + 1)) (\<lambda>(tobuf, s).
     rbind (bread s (lg_dev s) (lg_block s ! tail)) (\<lambda>(frombuf, s).
       let s = set_data s tobuf (b_data (bufs s ! frombuf)) in
       rbind (bwrite s tobuf) (\<lambda>s.
         rbind (brelse s frombuf) (\<lambda>s. brelse s tobuf))))"

primrec install_loop :: "bool \<Rightarrow> nat list \<Rightarrow> 'a logsys_scheme \<Rightarrow> 'a logsys_scheme res" where
  "install_loop recovering [] s = Ret s"
| "install_loop recovering (t # ts) s = rbind (install_block s recovering t) (install_loop recovering ts)"

definition install_trans :: "'a logsys_scheme \<Rightarrow> bool \<Rightarrow> 'a logsys_scheme res" where
  "install_trans s recovering = install_loop recovering [0..<nat (lg_n s)] s"

primrec write_log_loop :: "nat list \<Rightarrow> 'a logsys_scheme \<Rightarrow> 'a logsys_scheme res" where
  "write_log_loop [] s = Ret s"
| "write_log_loop (t # ts) s = rbind (log_block s t) (write_log_loop ts)"

definition write_log :: "'a logsys_scheme \<Rightarrow> 'a logsys_scheme res" where
  "write_log s = write_log_loop [0..<nat (lg_n s)] s"

text \<open>The header in a block: the number of entries and their block numbers.\<close>

primrec get_head :: "block \<Rightarrow> nat list \<Rightarrow> nat list \<Rightarrow> nat list" where
  "get_head d [] bl = bl"
| "get_head d (i # is) bl = get_head d is (bl[i := unat (get32 d (4 + 4 * i))])"

primrec put_head :: "nat list \<Rightarrow> nat list \<Rightarrow> block \<Rightarrow> block" where
  "put_head bl [] d = d"
| "put_head bl (i # is) d = put_head bl is (put32 d (4 + 4 * i) (of_nat (bl ! i)))"

definition read_head :: "'a logsys_scheme \<Rightarrow> 'a logsys_scheme res" where
  "read_head s =
     rbind (bread s (lg_dev s) (lg_start s)) (\<lambda>(buf, s).
       let d = b_data (bufs s ! buf); n = sint (get32 d 0) in
       brelse (s\<lparr>lg_n := n, lg_block := get_head d [0..<nat n] (lg_block s)\<rparr>) buf)"

definition write_head :: "'a logsys_scheme \<Rightarrow> 'a logsys_scheme res" where
  "write_head s =
     rbind (bread s (lg_dev s) (lg_start s)) (\<lambda>(buf, s).
       let d = b_data (bufs s ! buf);
           s = set_data s buf (put_head (lg_block s) [0..<nat (lg_n s)] (put32 d 0 (of_int (lg_n s)))) in
       rbind (bwrite s buf) (\<lambda>s. brelse s buf))"

definition recover_from_log :: "'a logsys_scheme \<Rightarrow> 'a logsys_scheme res" where
  "recover_from_log s =
     rbind (read_head s) (\<lambda>s. rbind (install_trans s True) (\<lambda>s. write_head (s\<lparr>lg_n := 0\<rparr>)))"

definition initlog :: "'a logsys_scheme \<Rightarrow> nat \<Rightarrow> nat \<Rightarrow> 'a logsys_scheme res" where
  "initlog s dev logstart =
     (if 4 + 4 * nat LOGBLOCKS \<ge> BSIZE then Panic ''initlog: too big logheader''
      else recover_from_log (s\<lparr>lg_start := logstart, lg_dev := dev\<rparr>))"

definition begin_op :: "'a logsys_scheme \<Rightarrow> 'a logsys_scheme option" where
  "begin_op s =
     (if lg_committing s then None
      else if lg_n s + (lg_outstanding s + 1) * MAXOPBLOCKS > LOGBLOCKS then None
      else Some (s\<lparr>lg_outstanding := lg_outstanding s + 1\<rparr>))"

definition commit :: "'a logsys_scheme \<Rightarrow> 'a logsys_scheme res" where
  "commit s =
     (if lg_n s > 0 then
        rbind (write_log s) (\<lambda>s. rbind (write_head s) (\<lambda>s. rbind (install_trans s False) (\<lambda>s. write_head (s\<lparr>lg_n := 0\<rparr>))))
      else Ret s)"

definition end_op :: "'a logsys_scheme \<Rightarrow> 'a logsys_scheme res" where
  "end_op s =
     (let s = s\<lparr>lg_outstanding := lg_outstanding s - 1\<rparr> in
      if lg_committing s then Panic ''log.committing''
      else if lg_outstanding s = 0 then
        rbind (commit (s\<lparr>lg_committing := True\<rparr>)) (\<lambda>s. Ret (s\<lparr>lg_committing := False\<rparr>))
      else Ret s)"

text \<open>The search of \<^verbatim>\<open>log_write\<close>: the first entry for the block, or \<open>n\<close>.\<close>

fun find_entry :: "nat list \<Rightarrow> nat \<Rightarrow> nat \<Rightarrow> nat" where
  "find_entry [] b i = i"
| "find_entry (x # xs) b i = (if x = b then i else find_entry xs b (i + 1))"

definition log_write :: "'a logsys_scheme \<Rightarrow> nat \<Rightarrow> 'a logsys_scheme res" where
  "log_write s buf =
     (if lg_n s \<ge> LOGBLOCKS then Panic ''too big a transaction''
      else if lg_outstanding s < 1 then Panic ''log_write outside of trans''
      else let b = b_blockno (bufs s ! buf);
               i = find_entry (take (nat (lg_n s)) (lg_block s)) b 0;
               s = s\<lparr>lg_block := (lg_block s)[i := b]\<rparr>
           in Ret (if int i = lg_n s then (bpin s buf)\<lparr>lg_n := lg_n s + 1\<rparr> else s))"

section \<open>Fields that a layer does not touch\<close>

lemma log_fields [simp]:
  "lg_start (set_buf s i x) = lg_start s" "lg_dev (set_buf s i x) = lg_dev s" "lg_n (set_buf s i x) = lg_n s" "lg_block (set_buf s i x) = lg_block s"
  "lg_start (set_data s i d) = lg_start s" "lg_dev (set_data s i d) = lg_dev s" "lg_n (set_data s i d) = lg_n s" "lg_block (set_data s i d) = lg_block s"
  "lg_start (bunpin s i) = lg_start s" "lg_dev (bunpin s i) = lg_dev s" "lg_n (bunpin s i) = lg_n s" "lg_block (bunpin s i) = lg_block s"
  by (simp_all add: set_buf_def set_data_def bunpin_def)

text \<open>The abstraction of the cache depends on its own fields only.\<close>

lemma cache_only:
  assumes "bufs s' = bufs s" "mru s' = mru s" "disk s' = disk s"
  shows "bc_inv dev s' = bc_inv dev s" "view dev s' = view dev s" "refs dev s' = refs dev s"
    "held dev s' = held dev s" "holds dev s' b i = holds dev s b i"
proof -
  have e: "buf_of s' dev b = buf_of s dev b" "is_buf s' dev b i = is_buf s dev b i" for b i
    using assms by (simp_all add: buf_of_def is_buf_def)
  show "bc_inv dev s' = bc_inv dev s" "holds dev s' b i = holds dev s b i" unfolding bc_inv_def holds_def e using assms by simp_all
  show "view dev s' = view dev s" "refs dev s' = refs dev s" "held dev s' = held dev s"
    unfolding view_def refs_def held_def e fun_eq_iff assms by simp_all
qed

lemma cache_cong [simp]:
  "bc_inv dev (s\<lparr>lg_n := n\<rparr>) = bc_inv dev s" "view dev (s\<lparr>lg_n := n\<rparr>) = view dev s" "refs dev (s\<lparr>lg_n := n\<rparr>) = refs dev s"
  "held dev (s\<lparr>lg_n := n\<rparr>) = held dev s" "holds dev (s\<lparr>lg_n := n\<rparr>) b i = holds dev s b i"
  "bc_inv dev (s\<lparr>lg_block := bl\<rparr>) = bc_inv dev s" "view dev (s\<lparr>lg_block := bl\<rparr>) = view dev s" "refs dev (s\<lparr>lg_block := bl\<rparr>) = refs dev s"
  "held dev (s\<lparr>lg_block := bl\<rparr>) = held dev s" "holds dev (s\<lparr>lg_block := bl\<rparr>) b i = holds dev s b i"
  by (rule cache_only; simp)+

section \<open>Copying a block through the cache\<close>

text \<open>
  What a sequence of cache operations with no buffer held at its end does: \<open>steps s s' V R ws\<close> says
  that \<open>s'\<close> has the view \<open>V\<close>, the pins \<open>R\<close> and the disk writes \<open>ws\<close> after those of \<open>s\<close>, and
  differs from \<open>s\<close> in the cache and the disk only.
\<close>

fun apply_writes :: "(nat \<times> block) list \<Rightarrow> (nat \<Rightarrow> block) \<Rightarrow> nat \<Rightarrow> block" where
  "apply_writes [] d = d"
| "apply_writes ((b, x) # ws) d = apply_writes ws (d(b := x))"

lemma apply_writes_append [simp]: "apply_writes (xs @ ys) d = apply_writes ys (apply_writes xs d)"
  by (induction xs arbitrary: d) auto

definition quiet :: "nat \<Rightarrow> 'a bcache_scheme \<Rightarrow> bool" where
  "quiet dev s \<longleftrightarrow> bc_inv dev s \<and> (\<forall>b. \<not> held dev s b)"

definition steps :: "nat \<Rightarrow> 'a bcache_scheme \<Rightarrow> 'a bcache_scheme \<Rightarrow> (nat \<Rightarrow> block) \<Rightarrow> (nat \<Rightarrow> nat) \<Rightarrow> (nat \<times> block) list \<Rightarrow> bool" where
  "steps dev s s' V R ws \<longleftrightarrow> quiet dev s' \<and> view dev s' = V \<and> refs dev s' = R \<and>
     disk s' = apply_writes ws (disk s) \<and> dwrites s' = dwrites s @ ws \<and> bcache.more s' = bcache.more s"

lemma more_simps [simp]:
  "bcache.more (s\<lparr>bufs := bs\<rparr>) = bcache.more s" "bcache.more (s\<lparr>mru := m\<rparr>) = bcache.more s"
  "bcache.more (s\<lparr>disk := d\<rparr>) = bcache.more s" "bcache.more (s\<lparr>dwrites := w\<rparr>) = bcache.more s"
  "bcache.more (set_data s i x) = bcache.more s" "bcache.more (bunpin s i) = bcache.more s" "bcache.more (bpin s i) = bcache.more s"
  by (cases s; simp add: set_data_def bunpin_def bpin_def set_buf_def)+

lemma more_log:
  assumes "bcache.more (s' :: 'a logsys_scheme) = bcache.more s"
  shows "lg_n s' = lg_n s" "lg_block s' = lg_block s" "lg_start s' = lg_start s" "lg_dev s' = lg_dev s"
    "lg_outstanding s' = lg_outstanding s" "lg_committing s' = lg_committing s"
  using assms by (cases s; cases s'; simp)+

lemma steps_trans:
  assumes "steps dev s s1 V1 R1 ws1" "steps dev s1 s2 V2 R2 ws2"
  shows "steps dev s s2 V2 R2 (ws1 @ ws2)"
  using assms by (auto simp: steps_def)

lemma unreferenced_clean: "bc_inv dev s \<Longrightarrow> refs dev s b = 0 \<Longrightarrow> view dev s b = disk s b"
  using view_buf [of dev s b] view_nobuf(1) [of dev s b] by (cases "\<exists>i. is_buf s dev b i") (auto simp: bc_inv_def)

lemma room_after_read:
  assumes "bc_inv dev s" "card (insert a (insert b (in_use dev s))) \<le> NBUF" "refs dev s' = (refs dev s)(a := refs dev s a + 1)" "a \<noteq> b"
  shows "b \<in> in_use dev s' \<or> card (in_use dev s') < NBUF"
proof (cases "b \<in> in_use dev s")
  case True
  then show ?thesis using assms(3,4) by (auto simp: in_use_def)
next
  case False
  have e: "in_use dev s' = insert a (in_use dev s)" using assms(3) by (auto simp: in_use_def)
  have "card (insert b (insert a (in_use dev s))) = Suc (card (insert a (in_use dev s)))"
    using False assms(4) in_use_card(2) [OF assms(1)] by (subst card_insert_disjoint) auto
  then show ?thesis using assms(2) e by (simp add: insert_commute)
qed

lemma room_first:
  assumes "bc_inv dev s" "card (insert a (insert b (in_use dev s))) \<le> NBUF"
  shows "a \<in> in_use dev s \<or> card (in_use dev s) < NBUF"
proof (cases "a \<in> in_use dev s")
  case False
  have "card (insert a (in_use dev s)) = Suc (card (in_use dev s))" using False in_use_card(2) [OF assms(1)] by simp
  moreover have "card (insert a (in_use dev s)) \<le> card (insert a (insert b (in_use dev s)))"
    using in_use_card(2) [OF assms(1)] by (intro card_mono) auto
  ultimately show ?thesis using assms(2) by linarith
qed simp

lemma quietD: "quiet dev s \<Longrightarrow> bc_inv dev s" "quiet dev s \<Longrightarrow> \<not> held dev s b"
  by (auto simp: quiet_def)

text \<open>Two blocks are read, the second (or the first) is written, both are released.\<close>

lemma read_two:
  assumes "quiet dev s" "a \<noteq> b" "card (insert a (insert b (in_use dev s))) \<le> NBUF"
  obtains i j s1 s2 where "bread s dev a = Ret (i, s1)" "bread s1 dev b = Ret (j, s2)" "bc_inv dev s2" "holds dev s2 a i" "holds dev s2 b j"
    "view dev s2 = view dev s" "refs dev s2 = (refs dev s)(a := refs dev s a + 1, b := refs dev s b + 1)" "\<And>c. held dev s2 c \<longleftrightarrow> c = a \<or> c = b"
    "disk s2 = disk s" "dwrites s2 = dwrites s" "bcache.more s2 = bcache.more s" "bcache.more s1 = bcache.more s"
proof -
  note ok = that
  note q = quietD [OF assms(1)]
  obtain i bs where 1: "bread s dev a = Ret (i, s\<lparr>bufs := bs\<rparr>)" "bc_inv dev (s\<lparr>bufs := bs\<rparr>)" "holds dev (s\<lparr>bufs := bs\<rparr>) a i"
    "view dev (s\<lparr>bufs := bs\<rparr>) = view dev s" "refs dev (s\<lparr>bufs := bs\<rparr>) = (refs dev s)(a := refs dev s a + 1)"
    "held dev (s\<lparr>bufs := bs\<rparr>) = (held dev s)(a := True)"
    by (rule bread_spec [OF q(1) q(2) room_first [OF q(1) assms(3)]]) blast
  have nh: "\<not> held dev (s\<lparr>bufs := bs\<rparr>) b" using 1(6) q(2) assms(2) by simp
  obtain j bs' where 2: "bread (s\<lparr>bufs := bs\<rparr>) dev b = Ret (j, s\<lparr>bufs := bs\<rparr>\<lparr>bufs := bs'\<rparr>)" "bc_inv dev (s\<lparr>bufs := bs\<rparr>\<lparr>bufs := bs'\<rparr>)"
    "holds dev (s\<lparr>bufs := bs\<rparr>\<lparr>bufs := bs'\<rparr>) b j" "view dev (s\<lparr>bufs := bs\<rparr>\<lparr>bufs := bs'\<rparr>) = view dev (s\<lparr>bufs := bs\<rparr>)"
    "refs dev (s\<lparr>bufs := bs\<rparr>\<lparr>bufs := bs'\<rparr>) = (refs dev (s\<lparr>bufs := bs\<rparr>))(b := refs dev (s\<lparr>bufs := bs\<rparr>) b + 1)"
    "held dev (s\<lparr>bufs := bs\<rparr>\<lparr>bufs := bs'\<rparr>) = (held dev (s\<lparr>bufs := bs\<rparr>))(b := True)"
    "\<And>c j. c \<noteq> b \<Longrightarrow> holds dev (s\<lparr>bufs := bs\<rparr>) c j \<Longrightarrow> holds dev (s\<lparr>bufs := bs\<rparr>\<lparr>bufs := bs'\<rparr>) c j \<and> bs' ! j = bufs (s\<lparr>bufs := bs\<rparr>) ! j"
    by (rule bread_spec [OF 1(2) nh room_after_read [OF q(1) assms(3) 1(5) assms(2)]]) blast
  show thesis
    by (rule ok [OF 1(1) 2(1) 2(2) _ 2(3)]) (use 1 2 q(2) assms(2) in auto)
qed

lemma release_two:
  assumes "bc_inv dev s" "a \<noteq> b" "holds dev s a i" "holds dev s b j" "\<And>c. held dev s c \<longleftrightarrow> c = a \<or> c = b"
    "refs dev s a = 1 \<longrightarrow> view dev s a = disk s a" "refs dev s b = 1 \<longrightarrow> view dev s b = disk s b"
  obtains s1 s2 where "brelse s i = Ret s1" "brelse s1 j = Ret s2"
    "steps dev s s2 (view dev s) ((refs dev s)(a := refs dev s a - 1, b := refs dev s b - 1)) []"
proof -
  note ok = that
  obtain bs m where 1: "brelse s i = Ret (s\<lparr>bufs := bs, mru := m\<rparr>)" "bc_inv dev (s\<lparr>bufs := bs, mru := m\<rparr>)"
    "view dev (s\<lparr>bufs := bs, mru := m\<rparr>) = view dev s" "refs dev (s\<lparr>bufs := bs, mru := m\<rparr>) = (refs dev s)(a := refs dev s a - 1)"
    "held dev (s\<lparr>bufs := bs, mru := m\<rparr>) = (held dev s)(a := False)"
    "\<And>c j. c \<noteq> a \<Longrightarrow> holds dev s c j \<Longrightarrow> holds dev (s\<lparr>bufs := bs, mru := m\<rparr>) c j \<and> bs ! j = bufs s ! j"
    by (rule brelse_spec [OF assms(1,3,6)]) blast
  define s1 where "s1 = s\<lparr>bufs := bs, mru := m\<rparr>"
  note 1 = 1 [folded s1_def]
  have h: "holds dev s1 b j" using 1(6) assms(2,4) by simp
  have c: "refs dev s1 b = 1 \<longrightarrow> view dev s1 b = disk s1 b" using 1(3,4) assms(2,7) by (simp add: s1_def)
  obtain bs' m' where 2: "brelse s1 j = Ret (s1\<lparr>bufs := bs', mru := m'\<rparr>)" "bc_inv dev (s1\<lparr>bufs := bs', mru := m'\<rparr>)"
    "view dev (s1\<lparr>bufs := bs', mru := m'\<rparr>) = view dev s1" "refs dev (s1\<lparr>bufs := bs', mru := m'\<rparr>) = (refs dev s1)(b := refs dev s1 b - 1)"
    "held dev (s1\<lparr>bufs := bs', mru := m'\<rparr>) = (held dev s1)(b := False)"
    by (rule brelse_spec [OF 1(2) h c]) blast
  have d: "disk s1 = disk s" "dwrites s1 = dwrites s" "bcache.more s1 = bcache.more s" by (simp_all add: s1_def)
  show thesis
    by (rule ok [OF 1(1) 2(1)]) (use 1 2 d assms(2,5) in \<open>simp add: steps_def quiet_def\<close>)
qed

lemma clean_after_read:
  assumes "quiet dev s" "refs dev s a + 1 = 1"
  shows "view dev s a = disk s a"
  using assms unreferenced_clean [of dev s a] by (auto simp: quiet_def)

lemma write_held:
  assumes "bc_inv dev s" "holds dev s a i" "holds dev s b j" "a \<noteq> b"
  obtains s' where "bwrite (set_data s j (b_data (bufs s ! i))) j = Ret s'" "bc_inv dev s'" "holds dev s' a i" "holds dev s' b j"
    "view dev s' = (view dev s)(b := view dev s a)" "refs dev s' = refs dev s" "held dev s' = held dev s"
    "disk s' = (disk s)(b := view dev s a)" "dwrites s' = dwrites s @ [(b, view dev s a)]" "bcache.more s' = bcache.more s"
proof -
  note ok = that
  have d: "b_data (bufs s ! i) = view dev s a" using holds_view(1) [OF assms(1,2)] by simp
  define s1 where "s1 = set_data s j (b_data (bufs s ! i))"
  note sd = set_data_spec [OF assms(1,3), where d = "b_data (bufs s ! i)", folded s1_def]
  have "holds dev s1 a i" using sd(7) [where c = a and j = i] assms(2,4) by simp
  then show thesis
    by (intro ok [OF bwrite_spec(1) [OF sd(1,2), unfolded s1_def]])
      (use bwrite_spec [OF sd(1,2)] sd(2) sd(4-6) d in \<open>simp_all add: s1_def\<close>)
qed

lemma install_block_spec:
  assumes "quiet dev s" "dev = lg_dev s" "a = lg_start s + tail + 1" "b = lg_block s ! tail" "a \<noteq> b"
    "card (insert a (insert b (in_use dev s))) \<le> NBUF" "\<not> recovering \<longrightarrow> 0 < refs dev s b"
  obtains s' where "install_block s recovering tail = Ret s'"
    "steps dev s s' ((view dev s)(b := view dev s a)) (if recovering then refs dev s else (refs dev s)(b := refs dev s b - 1)) [(b, view dev s a)]"
proof -
  note ok = that
  obtain i j s1 s2 where r: "bread s dev a = Ret (i, s1)" "bread s1 dev b = Ret (j, s2)" "bc_inv dev s2" "holds dev s2 a i" "holds dev s2 b j"
    "view dev s2 = view dev s" "refs dev s2 = (refs dev s)(a := refs dev s a + 1, b := refs dev s b + 1)" "\<And>c. held dev s2 c \<longleftrightarrow> c = a \<or> c = b"
    "disk s2 = disk s" "dwrites s2 = dwrites s" "bcache.more s2 = bcache.more s" "bcache.more s1 = bcache.more s"
    by (rule read_two [OF assms(1,5,6)]) blast
  obtain s3 where w: "bwrite (set_data s2 j (b_data (bufs s2 ! i))) j = Ret s3" "bc_inv dev s3" "holds dev s3 a i" "holds dev s3 b j"
    "view dev s3 = (view dev s2)(b := view dev s2 a)" "refs dev s3 = refs dev s2" "held dev s3 = held dev s2"
    "disk s3 = (disk s2)(b := view dev s2 a)" "dwrites s3 = dwrites s2 @ [(b, view dev s2 a)]" "bcache.more s3 = bcache.more s2"
    by (rule write_held [OF r(3-5) assms(5)])
  define s4 where "s4 = (if recovering then s3 else bunpin s3 j)"
  have p: "1 < refs dev s3 b" if "\<not> recovering" using that assms(5,7) r(7) w(6) by simp
  have u: "bc_inv dev s4" "view dev s4 = view dev s3" "held dev s4 = held dev s3" "holds dev s4 a i" "holds dev s4 b j"
    "refs dev s4 = (if recovering then refs dev s3 else (refs dev s3)(b := refs dev s3 b - 1))"
    "disk s4 = disk s3" "dwrites s4 = dwrites s3" "bcache.more s4 = bcache.more s3"
    using bunpin_spec [OF w(2,4) p] w(2-4) by (auto simp: s4_def)
  have ca: "refs dev s4 a = 1 \<longrightarrow> view dev s4 a = disk s4 a"
    using clean_after_read [OF assms(1), of a] u(2,6,7) w(5,6,8) r(6,7,9) assms(5) by (auto split: if_splits)
  have cb: "refs dev s4 b = 1 \<longrightarrow> view dev s4 b = disk s4 b" using u(2,7) w(5,8) by simp
  obtain s5 s6 where z: "brelse s4 i = Ret s5" "brelse s5 j = Ret s6"
    "steps dev s4 s6 (view dev s4) ((refs dev s4)(a := refs dev s4 a - 1, b := refs dev s4 b - 1)) []"
    by (rule release_two [OF u(1) assms(5) u(4,5) _ ca cb]) (use u(3) w(7) r(8) in auto)
  have "install_block s recovering tail = Ret s6"
    using r(1,2,12) w(1) z(1,2) more_log [OF r(12)] by (simp add: install_block_def assms(2-4) Let_def s4_def)
  moreover have "steps dev s s6 ((view dev s)(b := view dev s a)) (if recovering then refs dev s else (refs dev s)(b := refs dev s b - 1)) [(b, view dev s a)]"
    using z(3) u w(5-10) r(6-11) assms(5) unfolding steps_def by (auto simp: fun_eq_iff)
  ultimately show thesis by (rule ok)
qed

lemma log_block_spec:
  assumes "quiet dev s" "dev = lg_dev s" "a = lg_start s + tail + 1" "b = lg_block s ! tail" "a \<noteq> b"
    "card (insert a (insert b (in_use dev s))) \<le> NBUF"
  obtains s' where "log_block s tail = Ret s'" "steps dev s s' ((view dev s)(a := view dev s b)) (refs dev s) [(a, view dev s b)]"
proof -
  note ok = that
  obtain i j s1 s2 where r: "bread s dev a = Ret (i, s1)" "bread s1 dev b = Ret (j, s2)" "bc_inv dev s2" "holds dev s2 a i" "holds dev s2 b j"
    "view dev s2 = view dev s" "refs dev s2 = (refs dev s)(a := refs dev s a + 1, b := refs dev s b + 1)" "\<And>c. held dev s2 c \<longleftrightarrow> c = a \<or> c = b"
    "disk s2 = disk s" "dwrites s2 = dwrites s" "bcache.more s2 = bcache.more s" "bcache.more s1 = bcache.more s"
    by (rule read_two [OF assms(1,5,6)]) blast
  obtain s3 where w: "bwrite (set_data s2 i (b_data (bufs s2 ! j))) i = Ret s3" "bc_inv dev s3" "holds dev s3 b j" "holds dev s3 a i"
    "view dev s3 = (view dev s2)(a := view dev s2 b)" "refs dev s3 = refs dev s2" "held dev s3 = held dev s2"
    "disk s3 = (disk s2)(a := view dev s2 b)" "dwrites s3 = dwrites s2 @ [(a, view dev s2 b)]" "bcache.more s3 = bcache.more s2"
    by (rule write_held [OF r(3) r(5) r(4) assms(5) [symmetric]])
  have cb: "refs dev s3 b = 1 \<longrightarrow> view dev s3 b = disk s3 b"
    using clean_after_read [OF assms(1), of b] w(5,6,8) r(6,7,9) assms(5) by auto
  have ca: "refs dev s3 a = 1 \<longrightarrow> view dev s3 a = disk s3 a" using w(5,8) by simp
  obtain s5 s6 where z: "brelse s3 j = Ret s5" "brelse s5 i = Ret s6"
    "steps dev s3 s6 (view dev s3) ((refs dev s3)(b := refs dev s3 b - 1, a := refs dev s3 a - 1)) []"
    by (rule release_two [OF w(2) assms(5) [symmetric] w(3,4) _ cb ca]) (use w(7) r(8) in auto)
  have "log_block s tail = Ret s6"
    using r(1,2) w(1) z(1,2) more_log [OF r(12)] by (simp add: log_block_def assms(2-4) Let_def)
  moreover have "steps dev s s6 ((view dev s)(a := view dev s b)) (refs dev s) [(a, view dev s b)]"
    using z(3) w(5-10) r(6-11) assms(5) unfolding steps_def by (auto simp: fun_eq_iff)
  ultimately show thesis by (rule ok)
qed

section \<open>The loops\<close>

lemma card_room_mono:
  assumes "bc_inv dev s" "card (insert a (insert b (in_use dev s))) \<le> NBUF" "in_use dev s' \<subseteq> in_use dev s"
  shows "card (insert a (insert b (in_use dev s'))) \<le> NBUF"
  using card_mono [of "insert a (insert b (in_use dev s))" "insert a (insert b (in_use dev s'))"] assms in_use_card(2) [OF assms(1)]
  by (auto intro: order_trans)

lemma write_log_loop_spec:
  assumes "quiet dev s" "dev = lg_dev s" "\<forall>t \<in> set ts. \<forall>t' \<in> set ts. lg_block s ! t \<noteq> lg_start s + t' + 1"
    "\<forall>t \<in> set ts. card (insert (lg_start s + t + 1) (insert (lg_block s ! t) (in_use dev s))) \<le> NBUF"
  shows "\<exists>s'. write_log_loop ts s = Ret s' \<and>
    steps dev s s' (apply_writes (map (\<lambda>t. (lg_start s + t + 1, view dev s (lg_block s ! t))) ts) (view dev s)) (refs dev s)
      (map (\<lambda>t. (lg_start s + t + 1, view dev s (lg_block s ! t))) ts)"
  using assms
proof (induction ts arbitrary: s)
  case Nil
  then show ?case by (simp add: steps_def)
next
  case (Cons t ts)
  obtain s1 where s1: "log_block s t = Ret s1"
    "steps dev s s1 ((view dev s)(lg_start s + t + 1 := view dev s (lg_block s ! t))) (refs dev s) [(lg_start s + t + 1, view dev s (lg_block s ! t))]"
    by (rule log_block_spec [OF Cons.prems(1,2) refl refl, of t]) (use Cons.prems(3,4) in \<open>auto simp: eq_commute\<close>)
  have f: "quiet dev s1" "view dev s1 = (view dev s)(lg_start s + t + 1 := view dev s (lg_block s ! t))" "refs dev s1 = refs dev s"
    "lg_start s1 = lg_start s" "lg_block s1 = lg_block s" "lg_dev s1 = lg_dev s"
    using s1(2) more_log [of s1 s] by (auto simp: steps_def)
  have u: "in_use dev s1 = in_use dev s" using f(3) by (simp add: in_use_def)
  have v: "map (\<lambda>t. (lg_start s + t + 1, view dev s1 (lg_block s ! t))) ts = map (\<lambda>t. (lg_start s + t + 1, view dev s (lg_block s ! t))) ts"
    using Cons.prems(3) f(2) by auto
  obtain s2 where "write_log_loop ts s1 = Ret s2"
    "steps dev s1 s2 (apply_writes (map (\<lambda>t. (lg_start s + t + 1, view dev s (lg_block s ! t))) ts) (view dev s1)) (refs dev s)
      (map (\<lambda>t. (lg_start s + t + 1, view dev s (lg_block s ! t))) ts)"
    using Cons.IH [OF f(1), unfolded f(3-6) u v] Cons.prems(2-4) by auto
  then show ?case
    using s1 steps_trans [OF s1(2)] f(2) by fastforce
qed

lemma install_loop_spec:
  assumes "quiet dev s" "dev = lg_dev s" "\<forall>t \<in> set ts. \<forall>t' \<in> set ts. lg_block s ! t \<noteq> lg_start s + t' + 1"
    "distinct (map ((!) (lg_block s)) ts)" "\<not> recovering \<longrightarrow> (\<forall>t \<in> set ts. 0 < refs dev s (lg_block s ! t))"
    "\<forall>t \<in> set ts. card (insert (lg_start s + t + 1) (insert (lg_block s ! t) (in_use dev s))) \<le> NBUF"
  shows "\<exists>s'. install_loop recovering ts s = Ret s' \<and>
    steps dev s s' (apply_writes (map (\<lambda>t. (lg_block s ! t, view dev s (lg_start s + t + 1))) ts) (view dev s))
      (if recovering then refs dev s else (\<lambda>b. if b \<in> (!) (lg_block s) ` set ts then refs dev s b - 1 else refs dev s b))
      (map (\<lambda>t. (lg_block s ! t, view dev s (lg_start s + t + 1))) ts)"
  using assms
proof (induction ts arbitrary: s)
  case Nil
  then show ?case by (simp add: steps_def)
next
  case (Cons t ts)
  let ?b = "lg_block s ! t"
  obtain s1 where s1: "install_block s recovering t = Ret s1"
    "steps dev s s1 ((view dev s)(?b := view dev s (lg_start s + t + 1)))
       (if recovering then refs dev s else (refs dev s)(?b := refs dev s ?b - 1)) [(?b, view dev s (lg_start s + t + 1))]"
    by (rule install_block_spec [OF Cons.prems(1,2) refl refl, of t recovering]) (use Cons.prems(3,5,6) in \<open>auto simp: eq_commute\<close>)
  have f: "quiet dev s1" "view dev s1 = (view dev s)(?b := view dev s (lg_start s + t + 1))"
    "refs dev s1 = (if recovering then refs dev s else (refs dev s)(?b := refs dev s ?b - 1))"
    "lg_start s1 = lg_start s" "lg_block s1 = lg_block s" "lg_dev s1 = lg_dev s"
    using s1(2) more_log [of s1 s] by (auto simp: steps_def)
  have u: "in_use dev s1 \<subseteq> in_use dev s" using f(3) by (auto simp: in_use_def split: if_splits)
  have room: "\<forall>t \<in> set ts. card (insert (lg_start s + t + 1) (insert (lg_block s ! t) (in_use dev s1))) \<le> NBUF"
    using card_room_mono [OF quietD(1) [OF Cons.prems(1)] _ u] Cons.prems(6) by auto
  have v: "map (\<lambda>t. (lg_block s ! t, view dev s1 (lg_start s + t + 1))) ts = map (\<lambda>t. (lg_block s ! t, view dev s (lg_start s + t + 1))) ts"
    using Cons.prems(3) f(2) by auto
  have pins: "\<not> recovering \<longrightarrow> (\<forall>t \<in> set ts. 0 < refs dev s1 (lg_block s ! t))"
    using Cons.prems(4,5) f(3) by (force simp: image_iff)
  obtain s2 where s2: "install_loop recovering ts s1 = Ret s2"
    "steps dev s1 s2 (apply_writes (map (\<lambda>t. (lg_block s ! t, view dev s (lg_start s + t + 1))) ts) (view dev s1))
      (if recovering then refs dev s1 else (\<lambda>b. if b \<in> (!) (lg_block s) ` set ts then refs dev s1 b - 1 else refs dev s1 b))
      (map (\<lambda>t. (lg_block s ! t, view dev s (lg_start s + t + 1))) ts)"
    using Cons.IH [OF f(1), unfolded f(4-6) v] Cons.prems(2-4) room pins by auto
  have r: "(if recovering then refs dev s1 else (\<lambda>b. if b \<in> (!) (lg_block s) ` set ts then refs dev s1 b - 1 else refs dev s1 b)) =
      (if recovering then refs dev s else (\<lambda>b. if b \<in> (!) (lg_block s) ` set (t # ts) then refs dev s b - 1 else refs dev s b))"
    using f(3) Cons.prems(4) by (auto simp: fun_eq_iff)
  from steps_trans [OF s1(2) s2(2)] show ?case
    using s1(1) s2(1) f(2) unfolding r by simp
qed

section \<open>The header\<close>

lemma put_head_append [simp]: "put_head bl (xs @ ys) d = put_head bl ys (put_head bl xs d)"
  by (induction xs arbitrary: d) auto

lemma get_head_append [simp]: "get_head d (xs @ ys) bl = get_head d ys (get_head d xs bl)"
  by (induction xs arbitrary: bl) auto

lemma length_put_head [simp]: "length (put_head bl is d) = length d"
  by (induction "is" arbitrary: d) auto

lemma length_get_head [simp]: "length (get_head d is bl) = length bl"
  by (induction "is" arbitrary: bl) auto

lemma get_put_head:
  assumes "8 + 4 * n \<le> length d"
  shows "get32 (put_head bl [0..<n] d) 0 = get32 d 0" "i < n \<Longrightarrow> get32 (put_head bl [0..<n] d) (4 + 4 * i) = of_nat (bl ! i)"
proof -
  have "get32 (put_head bl [0..<n] d) 0 = get32 d 0 \<and> (\<forall>i < n. get32 (put_head bl [0..<n] d) (4 + 4 * i) = of_nat (bl ! i))"
    using assms by (induction n) (auto simp: less_Suc_eq)
  then show "get32 (put_head bl [0..<n] d) 0 = get32 d 0" "i < n \<Longrightarrow> get32 (put_head bl [0..<n] d) (4 + 4 * i) = of_nat (bl ! i)" by auto
qed

lemma nth_get_head: "i < n \<Longrightarrow> n \<le> length bl \<Longrightarrow> get_head d [0..<n] bl ! i = unat (get32 d (4 + 4 * i))"
  by (induction n) (auto simp: less_Suc_eq nth_list_update)

definition head_block :: "nat list \<Rightarrow> int \<Rightarrow> block \<Rightarrow> block" where
  "head_block bl n d = put_head bl [0..<nat n] (put32 d 0 (of_int n))"

lemma write_head_spec:
  assumes "quiet dev s" "dev = lg_dev s" "card (insert (lg_start s) (in_use dev s)) \<le> NBUF"
  defines "H \<equiv> head_block (lg_block s) (lg_n s) (view dev s (lg_start s))"
  shows "\<exists>s'. write_head s = Ret s' \<and> steps dev s s' ((view dev s)(lg_start s := H)) (refs dev s) [(lg_start s, H)]"
proof -
  let ?a = "lg_start s"
  note q = quietD [OF assms(1)]
  obtain i bs where r: "bread s dev ?a = Ret (i, s\<lparr>bufs := bs\<rparr>)" "bc_inv dev (s\<lparr>bufs := bs\<rparr>)" "holds dev (s\<lparr>bufs := bs\<rparr>) ?a i"
    "b_data (bs ! i) = view dev s ?a" "view dev (s\<lparr>bufs := bs\<rparr>) = view dev s"
    "refs dev (s\<lparr>bufs := bs\<rparr>) = (refs dev s)(?a := refs dev s ?a + 1)" "held dev (s\<lparr>bufs := bs\<rparr>) = (held dev s)(?a := True)"
    by (rule bread_spec [OF q(1) q(2) room_first [OF q(1), of _ ?a]]) (use assms(3) in auto)
  define s2 where "s2 = set_data (s\<lparr>bufs := bs\<rparr>) i H"
  note d = set_data_spec [OF r(2,3), where d = H, folded s2_def]
  note w = bwrite_spec [OF d(1,2)]
  define s3 where "s3 = s2\<lparr>disk := (disk s2)(?a := view dev s2 ?a), dwrites := dwrites s2 @ [(?a, view dev s2 ?a)]\<rparr>"
  note w = w [folded s3_def]
  have c: "refs dev s3 ?a = 1 \<longrightarrow> view dev s3 ?a = disk s3 ?a" using w(3) by (simp add: s3_def)
  obtain bs' m where z: "brelse s3 i = Ret (s3\<lparr>bufs := bs', mru := m\<rparr>)" "bc_inv dev (s3\<lparr>bufs := bs', mru := m\<rparr>)"
    "view dev (s3\<lparr>bufs := bs', mru := m\<rparr>) = view dev s3" "refs dev (s3\<lparr>bufs := bs', mru := m\<rparr>) = (refs dev s3)(?a := refs dev s3 ?a - 1)"
    "held dev (s3\<lparr>bufs := bs', mru := m\<rparr>) = (held dev s3)(?a := False)"
    by (rule brelse_spec [OF w(2) iffD2 [OF w(6) d(2)] c]) blast
  have "write_head s = Ret (s3\<lparr>bufs := bs', mru := m\<rparr>)"
    using r(1,4) w(1) z(1) by (simp add: write_head_def assms(2) [symmetric] H_def head_block_def s2_def Let_def)
  moreover have "steps dev s (s3\<lparr>bufs := bs', mru := m\<rparr>) ((view dev s)(?a := H)) (refs dev s) [(?a, H)]"
    using z(2-5) w(3-5) d(4-6) r(5-7) q(2) by (simp add: steps_def quiet_def fun_eq_iff) (simp add: s3_def s2_def)
  ultimately show ?thesis by blast
qed

lemma read_head_spec:
  assumes "quiet dev s" "dev = lg_dev s" "card (insert (lg_start s) (in_use dev s)) \<le> NBUF"
  obtains s' where "read_head s = Ret s'" "quiet dev s'" "view dev s' = view dev s" "refs dev s' = refs dev s" "disk s' = disk s"
    "dwrites s' = dwrites s" "lg_n s' = sint (get32 (view dev s (lg_start s)) 0)" "lg_start s' = lg_start s" "lg_dev s' = lg_dev s"
    "lg_block s' = get_head (view dev s (lg_start s)) [0..<nat (lg_n s')] (lg_block s)"
proof -
  note ok = that
  let ?a = "lg_start s"
  note q = quietD [OF assms(1)]
  obtain i bs where r: "bread s dev ?a = Ret (i, s\<lparr>bufs := bs\<rparr>)" "bc_inv dev (s\<lparr>bufs := bs\<rparr>)" "holds dev (s\<lparr>bufs := bs\<rparr>) ?a i"
    "b_data (bs ! i) = view dev s ?a" "view dev (s\<lparr>bufs := bs\<rparr>) = view dev s"
    "refs dev (s\<lparr>bufs := bs\<rparr>) = (refs dev s)(?a := refs dev s ?a + 1)" "held dev (s\<lparr>bufs := bs\<rparr>) = (held dev s)(?a := True)"
    by (rule bread_spec [OF q(1) q(2) room_first [OF q(1), of _ ?a]]) (use assms(3) in auto)
  define n where "n = sint (get32 (view dev s ?a) 0)"
  define s2 where "s2 = s\<lparr>bufs := bs\<rparr>\<lparr>lg_n := n, lg_block := get_head (view dev s ?a) [0..<nat n] (lg_block s)\<rparr>"
  have e: "bc_inv dev s2" "holds dev s2 ?a i" "view dev s2 = view dev s" "refs dev s2 = (refs dev s)(?a := refs dev s ?a + 1)"
    "held dev s2 = (held dev s)(?a := True)" "disk s2 = disk s" "dwrites s2 = dwrites s"
    using r unfolding s2_def cache_cong by auto
  have c: "refs dev s2 ?a = 1 \<longrightarrow> view dev s2 ?a = disk s2 ?a" using clean_after_read [OF assms(1), of ?a] e by simp
  obtain bs' m where z: "brelse s2 i = Ret (s2\<lparr>bufs := bs', mru := m\<rparr>)" "bc_inv dev (s2\<lparr>bufs := bs', mru := m\<rparr>)"
    "view dev (s2\<lparr>bufs := bs', mru := m\<rparr>) = view dev s2" "refs dev (s2\<lparr>bufs := bs', mru := m\<rparr>) = (refs dev s2)(?a := refs dev s2 ?a - 1)"
    "held dev (s2\<lparr>bufs := bs', mru := m\<rparr>) = (held dev s2)(?a := False)"
    by (rule brelse_spec [OF e(1,2) c]) blast
  have "read_head s = Ret (s2\<lparr>bufs := bs', mru := m\<rparr>)"
    using r(1,4) z(1) by (simp add: read_head_def assms(2) [symmetric] s2_def n_def Let_def)
  then show thesis
    by (rule ok) (use z(2-5) e q(2) in \<open>simp_all add: quiet_def fun_eq_iff\<close>, simp_all add: s2_def n_def)
qed

section \<open>Commit\<close>

lemma apply_writes_other: "c \<notin> k ` set ts \<Longrightarrow> apply_writes (map (\<lambda>t. (k t, x t)) ts) d c = d c"
  by (induction ts arbitrary: d) auto

lemma apply_writes_at:
  "inj_on k (set ts) \<Longrightarrow> distinct ts \<Longrightarrow> t \<in> set ts \<Longrightarrow> apply_writes (map (\<lambda>t. (k t, x t)) ts) d (k t) = x t"
proof (induction ts arbitrary: d)
  case (Cons u ts)
  show ?case
  proof (cases "t = u")
    case True
    then have "k t \<notin> k ` set ts" using Cons.prems(1,2) by (auto simp: inj_on_def)
    then show ?thesis using True apply_writes_other [of "k t" k ts] by simp
  next
    case False
    then show ?thesis using Cons by simp
  qed
qed simp

text \<open>
  The state between file system operations: no buffer is held, exactly the logged blocks are
  pinned, each once; they lie outside the log, whose header on disk says that it is empty.
\<close>

abbreviation logged :: "'a logsys_scheme \<Rightarrow> nat list" where
  "logged s \<equiv> take (nat (lg_n s)) (lg_block s)"

definition in_log :: "nat \<Rightarrow> nat \<Rightarrow> bool" where
  "in_log start b \<longleftrightarrow> start \<le> b \<and> b \<le> start + 30"

definition log_inv :: "'a logsys_scheme \<Rightarrow> bool" where
  "log_inv s \<longleftrightarrow> quiet (lg_dev s) s \<and> 0 \<le> lg_n s \<and> lg_n s \<le> LOGBLOCKS \<and> length (lg_block s) = 30 \<and>
     distinct (logged s) \<and> (\<forall>b \<in> set (logged s). \<not> in_log (lg_start s) b \<and> b < 2 ^ 32) \<and>
     refs (lg_dev s) s = (\<lambda>b. if b \<in> set (logged s) then 1 else 0) \<and>
     (\<forall>b. length (disk s b) = BSIZE) \<and> get32 (disk s (lg_start s)) 0 = 0"

lemma logged_nth: "log_inv s \<Longrightarrow> t < nat (lg_n s) \<Longrightarrow> lg_block s ! t \<in> set (logged s)"
  by (auto simp: log_inv_def LOGBLOCKS_def MAXOPBLOCKS_def in_set_conv_nth intro!: exI [of _ t])

lemma logged_in_use: "log_inv s \<Longrightarrow> in_use (lg_dev s) s = set (logged s)"
  by (auto simp: log_inv_def in_use_def)

lemma logged_card: "log_inv s \<Longrightarrow> card (set (logged s)) = nat (lg_n s)"
  by (auto simp: log_inv_def LOGBLOCKS_def MAXOPBLOCKS_def distinct_card)

lemma logged_room:
  assumes "log_inv s" "lg_n s \<le> 29"
  shows "card (insert a (set (logged s))) \<le> NBUF" "t < nat (lg_n s) \<Longrightarrow> card (insert a (insert (lg_block s ! t) (set (logged s)))) \<le> NBUF"
proof -
  have "card (insert a (set (logged s))) \<le> Suc (card (set (logged s)))" by (rule card_insert_le_m1) auto
  then show r: "card (insert a (set (logged s))) \<le> NBUF" using assms(2) logged_card [OF assms(1)] by (simp add: NBUF_def)
  show "card (insert a (insert (lg_block s ! t) (set (logged s)))) \<le> NBUF" if "t < nat (lg_n s)"
    using r logged_nth [OF assms(1) that] by (simp add: insert_absorb)
qed

lemma logged_inj:
  assumes "log_inv s"
  shows "inj_on ((!) (lg_block s)) {0..<nat (lg_n s)}" "distinct (map ((!) (lg_block s)) [0..<nat (lg_n s)])"
    "map ((!) (lg_block s)) [0..<nat (lg_n s)] = logged s" "(!) (lg_block s) ` {0..<nat (lg_n s)} = set (logged s)"
proof -
  have l: "nat (lg_n s) \<le> length (lg_block s)" "distinct (logged s)"
    using assms by (auto simp: log_inv_def LOGBLOCKS_def MAXOPBLOCKS_def)
  show m: "map ((!) (lg_block s)) [0..<nat (lg_n s)] = logged s"
    using l(1) by (simp add: map_nth list_eq_iff_nth_eq)
  then show d: "distinct (map ((!) (lg_block s)) [0..<nat (lg_n s)])" using l(2) by simp
  then show "inj_on ((!) (lg_block s)) {0..<nat (lg_n s)}" by (simp add: distinct_map)
  show "(!) (lg_block s) ` {0..<nat (lg_n s)} = set (logged s)" using arg_cong [OF m, of set] by simp
qed

lemma logged_out:
  assumes "log_inv s" "t < nat (lg_n s)"
  shows "\<not> in_log (lg_start s) (lg_block s ! t) \<and> lg_block s ! t < 2 ^ 32"
proof -
  have "\<forall>b \<in> set (logged s). \<not> in_log (lg_start s) b \<and> b < 2 ^ 32" using assms(1) unfolding log_inv_def by (elim conjE)
  then show ?thesis using logged_nth [OF assms] by (rule bspec)
qed

lemma logged_disjoint:
  assumes "log_inv s"
  shows "\<forall>t \<in> set [0..<nat (lg_n s)]. \<forall>t' \<in> set [0..<nat (lg_n s)]. lg_block s ! t \<noteq> lg_start s + t' + 1"
    "lg_start s \<notin> (!) (lg_block s) ` set [0..<nat (lg_n s)]"
proof -
  have n: "nat (lg_n s) \<le> 30" using assms by (auto simp: log_inv_def LOGBLOCKS_def MAXOPBLOCKS_def)
  show "\<forall>t \<in> set [0..<nat (lg_n s)]. \<forall>t' \<in> set [0..<nat (lg_n s)]. lg_block s ! t \<noteq> lg_start s + t' + 1"
    "lg_start s \<notin> (!) (lg_block s) ` set [0..<nat (lg_n s)]"
    using logged_out [OF assms] n by (fastforce simp: in_log_def)+
qed

text \<open>The writes of a commit: the log, its header, the home locations, and the empty header.\<close>

definition log_writes :: "'a logsys_scheme \<Rightarrow> (nat \<times> block) list" where
  "log_writes s = map (\<lambda>t. (lg_start s + t + 1, view (lg_dev s) s (lg_block s ! t))) [0..<nat (lg_n s)] @
     [(lg_start s, head_block (lg_block s) (lg_n s) (disk s (lg_start s)))]"

definition home_writes :: "'a logsys_scheme \<Rightarrow> (nat \<times> block) list" where
  "home_writes s = map (\<lambda>t. (lg_block s ! t, view (lg_dev s) s (lg_block s ! t))) [0..<nat (lg_n s)]"

definition commit_writes :: "'a logsys_scheme \<Rightarrow> (nat \<times> block) list" where
  "commit_writes s = log_writes s @ home_writes s @
     [(lg_start s, head_block (lg_block s) 0 (head_block (lg_block s) (lg_n s) (disk s (lg_start s))))]"

lemma commit_log_spec:
  assumes "log_inv s" "lg_n s \<le> 29"
  obtains s1 s2 where "write_log s = Ret s1" "write_head s1 = Ret s2"
    "steps (lg_dev s) s s2 (apply_writes (log_writes s) (view (lg_dev s) s)) (refs (lg_dev s) s) (log_writes s)"
proof -
  note ok = that
  define dev st n bl where "dev = lg_dev s" and "st = lg_start s" and "n = nat (lg_n s)" and "bl = lg_block s"
  note fold = dev_def [symmetric] st_def [symmetric] n_def [symmetric] bl_def [symmetric]
  have q: "quiet dev s" using assms(1) by (simp add: log_inv_def fold)
  have use: "in_use dev s = set (logged s)" using logged_in_use [OF assms(1)] by (simp add: fold)
  have room: "\<forall>t \<in> set [0..<n]. card (insert (st + t + 1) (insert (bl ! t) (in_use dev s))) \<le> NBUF" "card (insert st (in_use dev s)) \<le> NBUF"
    using logged_room [OF assms] unfolding use fold by auto
  let ?V = "view dev s"
  define W1 where "W1 = map (\<lambda>t. (st + t + 1, ?V (bl ! t))) [0..<n]"
  obtain s1 where s1: "write_log s = Ret s1" "steps dev s s1 (apply_writes W1 ?V) (refs dev s) W1"
    using write_log_loop_spec [OF q, of "[0..<n]", unfolded fold, OF refl logged_disjoint(1) [OF assms(1), unfolded fold] room(1)]
    by (auto simp: write_log_def fold W1_def)
  have f1: "quiet dev s1" "view dev s1 = apply_writes W1 ?V" "refs dev s1 = refs dev s" "bcache.more s1 = bcache.more s"
    using s1(2) by (auto simp: steps_def)
  note l1 = more_log [OF f1(4)]
  have stV: "view dev s1 st = disk s st"
  proof -
    have "refs dev s st = 0" using assms(1) unfolding log_inv_def fold by (auto simp: in_log_def)
    then have "?V st = disk s st" using unreferenced_clean [OF quietD(1) [OF q]] by simp
    moreover have "apply_writes W1 ?V st = ?V st" unfolding W1_def by (rule apply_writes_other) auto
    ultimately show ?thesis using f1(2) by simp
  qed
  define H where "H = head_block bl (lg_n s) (disk s st)"
  have u1: "in_use dev s1 = in_use dev s" using f1(3) by (simp add: in_use_def)
  obtain s2 where s2: "write_head s1 = Ret s2" "steps dev s1 s2 ((view dev s1)(st := H)) (refs dev s) [(st, H)]"
    using write_head_spec [OF f1(1)] room(2) l1 stV f1(3) u1 by (auto simp: fold H_def)
  have "log_writes s = W1 @ [(st, H)]" by (simp add: log_writes_def fold W1_def H_def)
  then show thesis using ok [OF s1(1) s2(1)] steps_trans [OF s1(2) s2(2)] f1(2) by (simp add: fold)
qed

lemma commit_spec:
  assumes "log_inv s" "0 < lg_n s" "lg_n s \<le> 29"
  obtains s' where "commit s = Ret s'" "quiet (lg_dev s) s'" "refs (lg_dev s) s' = (\<lambda>_. 0)" "disk s' = apply_writes (commit_writes s) (disk s)"
    "dwrites s' = dwrites s @ commit_writes s" "lg_n s' = 0" "lg_block s' = lg_block s" "lg_start s' = lg_start s" "lg_dev s' = lg_dev s"
    "lg_outstanding s' = lg_outstanding s" "lg_committing s' = lg_committing s"
proof -
  note ok = that
  define dev st n bl where "dev = lg_dev s" and "st = lg_start s" and "n = nat (lg_n s)" and "bl = lg_block s"
  note fold = dev_def [symmetric] st_def [symmetric] n_def [symmetric] bl_def [symmetric]
  let ?V = "view dev s" and ?W1 = "map (\<lambda>t. (st + t + 1, view dev s (bl ! t))) [0..<n]"
  define H where "H = head_block bl (lg_n s) (disk s st)"
  obtain s1 s2 where s2: "write_log s = Ret s1" "write_head s1 = Ret s2" "steps dev s s2 (apply_writes (log_writes s) ?V) (refs dev s) (log_writes s)"
    using commit_log_spec [OF assms(1,3)] by (auto simp: fold)
  have f2: "quiet dev s2" "view dev s2 = (apply_writes ?W1 ?V)(st := H)" "refs dev s2 = refs dev s" "bcache.more s2 = bcache.more s"
    using s2(3) by (auto simp: steps_def log_writes_def fold H_def)
  note l2 = more_log [OF f2(4)]
  have room: "\<forall>t \<in> set [0..<n]. card (insert (st + t + 1) (insert (bl ! t) (in_use dev s2))) \<le> NBUF"
    using logged_room(2) [OF assms(1,3)] logged_in_use [OF assms(1)] f2(3) by (auto simp: fold in_use_def)
  have lv: "view dev s2 (st + t + 1) = ?V (bl ! t)" if "t < n" for t
  proof -
    have "apply_writes ?W1 ?V (st + t + 1) = ?V (bl ! t)" by (rule apply_writes_at) (use that in \<open>auto simp: inj_on_def\<close>)
    then show ?thesis using f2(2) by simp
  qed
  have W2: "map (\<lambda>t. (bl ! t, view dev s2 (st + t + 1))) [0..<n] = home_writes s" using lv by (simp add: home_writes_def fold)
  have rp: "\<forall>t \<in> set [0..<n]. 0 < refs dev s2 (bl ! t)" using logged_nth [OF assms(1)] assms(1) f2(3) unfolding log_inv_def fold by auto
  define R3 where "R3 = (\<lambda>b. if b \<in> (!) bl ` set [0..<n] then refs dev s2 b - 1 else refs dev s2 b)"
  obtain s3 where s3: "install_trans s2 False = Ret s3" "steps dev s2 s3 (apply_writes (home_writes s) (view dev s2)) R3 (home_writes s)"
    using install_loop_spec [OF f2(1), of "[0..<n]" False, unfolded l2 fold, OF refl logged_disjoint(1) [OF assms(1), unfolded fold] _ _ room, unfolded W2]
      rp logged_inj(2) [OF assms(1)] by (auto simp: install_trans_def l2 fold R3_def)
  have R3: "R3 = (\<lambda>_. 0)" using assms(1) logged_inj(4) [OF assms(1)] f2(3) unfolding log_inv_def fold by (auto simp: R3_def fun_eq_iff)
  have "apply_writes (home_writes s) (view dev s2) st = view dev s2 st"
    unfolding home_writes_def by (rule apply_writes_other) (use logged_disjoint(2) [OF assms(1)] in \<open>simp add: fold\<close>)
  then have f3: "quiet dev s3" "view dev s3 st = H" "refs dev s3 = (\<lambda>_. 0)" "bcache.more s3 = bcache.more s"
    using s3(2) f2 R3 by (auto simp: steps_def)
  define s3' where "s3' = s3\<lparr>lg_n := 0\<rparr>"
  have f3': "quiet dev s3'" "view dev s3' = view dev s3" "refs dev s3' = (\<lambda>_. 0)" "disk s3' = disk s3" "dwrites s3' = dwrites s3"
    "lg_n s3' = 0" "lg_start s3' = st" "lg_dev s3' = dev" "lg_block s3' = bl" "lg_outstanding s3' = lg_outstanding s" "lg_committing s3' = lg_committing s"
    using f3(1,3) more_log [OF f3(4)] by (auto simp: s3'_def quiet_def fold)
  have u3: "in_use dev s3' = {}" using f3'(3) by (simp add: in_use_def)
  obtain s4 where s4: "write_head s3' = Ret s4" "steps dev s3' s4 ((view dev s3')(st := head_block bl 0 H)) (\<lambda>_. 0) [(st, head_block bl 0 H)]"
    using write_head_spec [OF f3'(1)] f3' u3 f3(2) by (auto simp: NBUF_def)
  have "commit s = Ret s4" using assms(2) s2(1,2) s3(1) s4(1) by (simp add: commit_def s3'_def)
  moreover have "quiet dev s4" "refs dev s4 = (\<lambda>_. 0)" "disk s4 = apply_writes (commit_writes s) (disk s)" "dwrites s4 = dwrites s @ commit_writes s"
    using s2(3) s3(2) s4(2) f3'(4,5) unfolding commit_writes_def steps_def fold H_def [symmetric] by auto
  ultimately show thesis
    using ok [of s4] more_log [of s4 s3'] s4(2) f3'(6-11) by (simp add: fold steps_def)
qed

end
