(* ===== verification/Log_Ops.thy ===== *)
theory Log_Ops
  imports Log
begin

text \<open>
  What a file system call sees of the log and the cache between \<^verbatim>\<open>begin_op\<close> and \<^verbatim>\<open>end_op\<close>: it
  reads blocks, changes them, registers them with \<^verbatim>\<open>log_write\<close> and releases them.  \<open>op_inv hs\<close> is
  the invariant while exactly the blocks \<open>hs\<close> are held; \<open>hs = {}\<close> is the invariant between calls.
\<close>

definition op_inv :: "nat set \<Rightarrow> 'a logsys_scheme \<Rightarrow> bool" where
  "op_inv hs s \<longleftrightarrow> bc_inv (lg_dev s) s \<and> (\<forall>b. held (lg_dev s) s b \<longleftrightarrow> b \<in> hs) \<and> finite hs \<and>
     0 \<le> lg_n s \<and> lg_n s \<le> LOGBLOCKS \<and> length (lg_block s) = 30 \<and>
     distinct (logged s) \<and> (\<forall>b \<in> set (logged s). \<not> in_log (lg_start s) b \<and> b < 2 ^ 32) \<and>
     refs (lg_dev s) s = (\<lambda>b. of_bool (b \<in> set (logged s)) + of_bool (b \<in> hs)) \<and>
     (\<forall>b. length (disk s b) = BSIZE) \<and> get32 (disk s (lg_start s)) 0 = 0"

lemma op_inv_log_inv: "op_inv {} s \<longleftrightarrow> log_inv s"
proof -
  have "(\<lambda>b. of_bool (b \<in> set (logged s)) + of_bool (b \<in> {}) :: nat) = (\<lambda>b. if b \<in> set (logged s) then 1 else 0)" by auto
  then show ?thesis unfolding op_inv_def log_inv_def quiet_def by auto
qed

lemma op_inv_len: "op_inv hs s \<Longrightarrow> lg_n s = int (length (logged s))"
  by (auto simp: op_inv_def LOGBLOCKS_def MAXOPBLOCKS_def)

text \<open>Parts of the state that no cache operation and no \<^verbatim>\<open>log_write\<close> touches.\<close>

definition op_frame :: "'a logsys_scheme \<Rightarrow> 'a logsys_scheme \<Rightarrow> bool" where
  "op_frame s s' \<longleftrightarrow> disk s' = disk s \<and> dwrites s' = dwrites s \<and> lg_start s' = lg_start s \<and> lg_dev s' = lg_dev s \<and>
     lg_outstanding s' = lg_outstanding s \<and> lg_committing s' = lg_committing s \<and> logsys.more s' = logsys.more s"

lemma op_frame_refl [simp]: "op_frame s s"
  by (simp add: op_frame_def)

lemma op_frame_trans: "op_frame s s' \<Longrightarrow> op_frame s' s'' \<Longrightarrow> op_frame s s''"
  by (simp add: op_frame_def)

lemma op_in_use: "op_inv hs s \<Longrightarrow> in_use (lg_dev s) s = set (logged s) \<union> hs"
  by (auto simp: op_inv_def in_use_def)

lemma op_bread:
  assumes "op_inv hs s" "b \<notin> hs" "card (insert b (set (logged s) \<union> hs)) \<le> NBUF"
  obtains i s' where "bread s (lg_dev s) b = Ret (i, s')" "op_inv (insert b hs) s'" "holds (lg_dev s) s' b i" "b_data (bufs s' ! i) = view (lg_dev s) s b"
    "view (lg_dev s) s' = view (lg_dev s) s" "logged s' = logged s" "op_frame s s'"
    "\<And>c j. holds (lg_dev s) s c j \<Longrightarrow> c \<in> hs \<Longrightarrow> holds (lg_dev s) s' c j"
proof -
  note ok = that
  have inv: "bc_inv (lg_dev s) s" "\<not> held (lg_dev s) s b" using assms(1,2) by (auto simp: op_inv_def)
  have fin: "finite (set (logged s) \<union> hs)" using assms(1) by (simp add: op_inv_def)
  have room: "b \<in> in_use (lg_dev s) s \<or> card (in_use (lg_dev s) s) < NBUF"
    using assms(3) fin unfolding op_in_use [OF assms(1)] by (cases "b \<in> set (logged s) \<union> hs") auto
  obtain i bs where r: "bread s (lg_dev s) b = Ret (i, s\<lparr>bufs := bs\<rparr>)" "bc_inv (lg_dev s) (s\<lparr>bufs := bs\<rparr>)" "holds (lg_dev s) (s\<lparr>bufs := bs\<rparr>) b i"
    "b_data (bs ! i) = view (lg_dev s) s b" "view (lg_dev s) (s\<lparr>bufs := bs\<rparr>) = view (lg_dev s) s"
    "refs (lg_dev s) (s\<lparr>bufs := bs\<rparr>) = (refs (lg_dev s) s)(b := refs (lg_dev s) s b + 1)" "held (lg_dev s) (s\<lparr>bufs := bs\<rparr>) = (held (lg_dev s) s)(b := True)"
    "\<And>c j. c \<noteq> b \<Longrightarrow> holds (lg_dev s) s c j \<Longrightarrow> holds (lg_dev s) (s\<lparr>bufs := bs\<rparr>) c j \<and> bs ! j = bufs s ! j"
    by (rule bread_spec [OF inv room]) blast
  have "op_inv (insert b hs) (s\<lparr>bufs := bs\<rparr>)"
    using assms(1,2) r(2,6,7) unfolding op_inv_def by (auto simp: fun_eq_iff)
  moreover have "\<And>c j. holds (lg_dev s) s c j \<Longrightarrow> c \<in> hs \<Longrightarrow> holds (lg_dev s) (s\<lparr>bufs := bs\<rparr>) c j" using r(8) assms(2) by metis
  ultimately show thesis
    using r(3-5) by (intro ok [OF r(1)]) (auto simp: op_frame_def)
qed

lemma op_brelse:
  assumes "op_inv hs s" "holds (lg_dev s) s b i" "b \<in> hs" "b \<in> set (logged s) \<or> view (lg_dev s) s b = disk s b"
  obtains s' where "brelse s i = Ret s'" "op_inv (hs - {b}) s'" "view (lg_dev s) s' = view (lg_dev s) s" "logged s' = logged s" "op_frame s s'"
    "\<And>c j. holds (lg_dev s) s c j \<Longrightarrow> c \<noteq> b \<Longrightarrow> holds (lg_dev s) s' c j"
proof -
  note ok = that
  have inv: "bc_inv (lg_dev s) s" using assms(1) by (simp add: op_inv_def)
  have "refs (lg_dev s) s b = 1 \<longrightarrow> view (lg_dev s) s b = disk s b" using assms(1,3,4) by (auto simp: op_inv_def)
  then obtain bs m where z: "brelse s i = Ret (s\<lparr>bufs := bs, mru := m\<rparr>)" "bc_inv (lg_dev s) (s\<lparr>bufs := bs, mru := m\<rparr>)"
    "view (lg_dev s) (s\<lparr>bufs := bs, mru := m\<rparr>) = view (lg_dev s) s"
    "refs (lg_dev s) (s\<lparr>bufs := bs, mru := m\<rparr>) = (refs (lg_dev s) s)(b := refs (lg_dev s) s b - 1)"
    "held (lg_dev s) (s\<lparr>bufs := bs, mru := m\<rparr>) = (held (lg_dev s) s)(b := False)"
    "\<And>c j. c \<noteq> b \<Longrightarrow> holds (lg_dev s) s c j \<Longrightarrow> holds (lg_dev s) (s\<lparr>bufs := bs, mru := m\<rparr>) c j \<and> bs ! j = bufs s ! j"
    by (rule brelse_spec [OF inv assms(2)]) blast
  have "op_inv (hs - {b}) (s\<lparr>bufs := bs, mru := m\<rparr>)"
    using assms(1,3) z(2,4,5) unfolding op_inv_def by (auto simp: fun_eq_iff)
  moreover have "\<And>c j. holds (lg_dev s) s c j \<Longrightarrow> c \<noteq> b \<Longrightarrow> holds (lg_dev s) (s\<lparr>bufs := bs, mru := m\<rparr>) c j" using z(6) by blast
  ultimately show thesis using z(3) by (intro ok [OF z(1)]) (auto simp: op_frame_def)
qed

lemma op_set_data:
  assumes "op_inv hs s" "holds (lg_dev s) s b i"
  shows "op_inv hs (set_data s i d)" "view (lg_dev s) (set_data s i d) = (view (lg_dev s) s)(b := d)" "op_frame s (set_data s i d)"
    "holds (lg_dev s) (set_data s i d) b i" "\<And>c j. c \<noteq> b \<Longrightarrow> holds (lg_dev s) s c j \<Longrightarrow> holds (lg_dev s) (set_data s i d) c j"
    "logged (set_data s i d) = logged s"
proof -
  have inv: "bc_inv (lg_dev s) s" using assms(1) by (simp add: op_inv_def)
  note sd = set_data_spec [OF inv assms(2), where d = d]
  show "op_inv hs (set_data s i d)" using assms(1) sd(1,5,6) unfolding op_inv_def by simp
  show "view (lg_dev s) (set_data s i d) = (view (lg_dev s) s)(b := d)" "holds (lg_dev s) (set_data s i d) b i" by (fact sd(4), fact sd(2))
  show "\<And>c j. c \<noteq> b \<Longrightarrow> holds (lg_dev s) s c j \<Longrightarrow> holds (lg_dev s) (set_data s i d) c j" using sd(7) by blast
  show "op_frame s (set_data s i d)" "logged (set_data s i d) = logged s"
    by (simp_all add: op_frame_def) (simp_all add: set_data_def set_buf_def)
qed

lemma find_entry_spec:
  "find_entry xs b k = (if b \<in> set xs then find_entry xs b k else k + length xs)"
  "b \<in> set xs \<Longrightarrow> k \<le> find_entry xs b k \<and> find_entry xs b k < k + length xs \<and> xs ! (find_entry xs b k - k) = b"
proof -
  show "b \<in> set xs \<Longrightarrow> k \<le> find_entry xs b k \<and> find_entry xs b k < k + length xs \<and> xs ! (find_entry xs b k - k) = b"
  proof (induction xs b k rule: find_entry.induct)
    case (2 x xs b i)
    then show ?case by (cases "x = b") (auto simp: Suc_diff_le nth_Cons' Suc_le_eq)
  qed simp
  show "find_entry xs b k = (if b \<in> set xs then find_entry xs b k else k + length xs)"
    by (induction xs b k rule: find_entry.induct) auto
qed

lemma op_log_write:
  assumes "op_inv hs s" "holds (lg_dev s) s b i" "lg_n s < LOGBLOCKS" "1 \<le> lg_outstanding s" "\<not> in_log (lg_start s) b" "b < 2 ^ 32"
  obtains s' where "log_write s i = Ret s'" "op_inv hs s'" "view (lg_dev s) s' = view (lg_dev s) s"
    "logged s' = (if b \<in> set (logged s) then logged s else logged s @ [b])" "op_frame s s'"
    "\<And>c j. holds (lg_dev s) s c j \<Longrightarrow> holds (lg_dev s) s' c j" "lg_n s' = int (length (logged s'))"
proof -
  note ok = that
  have inv: "bc_inv (lg_dev s) s" using assms(1) by (simp add: op_inv_def)
  have nb: "b_blockno (bufs s ! i) = b" using assms(2) by (simp add: holds_def is_buf_def)
  have n: "0 \<le> lg_n s" "nat (lg_n s) < 30" "length (lg_block s) = 30" "length (logged s) = nat (lg_n s)"
    using assms(1,3) by (auto simp: op_inv_def LOGBLOCKS_def MAXOPBLOCKS_def)
  show thesis
  proof (cases "b \<in> set (logged s)")
    case True
    define k where "k = find_entry (logged s) b 0"
    have k: "k < nat (lg_n s)" "lg_block s ! k = b" using find_entry_spec(2) [OF True, of 0] n by (auto simp: k_def)
    have "log_write s i = Ret s"
      using k n assms(3,4) unfolding log_write_def nb k_def [symmetric] Let_def by (auto simp: list_update_same_conv)
    then show thesis by (rule ok) (use True assms(1) n in auto)
  next
    case False
    then have k: "find_entry (logged s) b 0 = nat (lg_n s)" using find_entry_spec(1) [of "logged s" b 0] n(4) by simp
    define s1 where "s1 = s\<lparr>lg_block := (lg_block s)[nat (lg_n s) := b]\<rparr>"
    define s2 where "s2 = (bpin s1 i)\<lparr>lg_n := lg_n s1 + 1\<rparr>"
    have inv1: "bc_inv (lg_dev s) s1" "holds (lg_dev s) s1 b i" "view (lg_dev s) s1 = view (lg_dev s) s" "refs (lg_dev s) s1 = refs (lg_dev s) s"
      "held (lg_dev s) s1 = held (lg_dev s) s" "\<And>c j. holds (lg_dev s) s1 c j = holds (lg_dev s) s c j"
      using inv assms(2) by (simp_all add: s1_def)
    note p = bpin_spec [OF inv1(1,2)]
    have f: "lg_n s2 = lg_n s + 1" "lg_block s2 = (lg_block s)[nat (lg_n s) := b]" "op_frame s s2"
      by (simp_all add: s2_def s1_def op_frame_def bpin_def set_buf_def)
    have l: "logged s2 = logged s @ [b]"
      using n f by (simp add: nat_add_distrib take_Suc_conv_app_nth)
    have "log_write s i = Ret s2"
      using k n(1) assms(3,4) unfolding log_write_def nb by (simp add: s1_def s2_def Let_def)
    moreover have "op_inv hs s2"
    proof -
      have b: "bc_inv (lg_dev s) s2" "held (lg_dev s) s2 = held (lg_dev s) s" "refs (lg_dev s) s2 = (refs (lg_dev s) s)(b := refs (lg_dev s) s b + 1)"
        using p(1,3,4) inv1 by (simp_all add: s2_def)
      have g: "lg_dev s2 = lg_dev s" "lg_start s2 = lg_start s" "disk s2 = disk s" using f(3) by (simp_all add: op_frame_def)
      have m: "0 \<le> lg_n s2" "lg_n s2 \<le> LOGBLOCKS" "length (lg_block s2) = 30" using f(1,2) n assms(3) by auto
      show ?thesis
        using assms(1,5,6) b False m unfolding op_inv_def l g by (auto simp: fun_eq_iff)
    qed
    ultimately show thesis
      by (rule ok) (use l False f p(2,5) inv1 n in \<open>simp_all add: s2_def\<close>)
  qed
qed

end
