(* ===== verification/Log_Crash.thy ===== *)
theory Log_Crash
  imports Log_Ops
begin

text \<open>
  Crash safety of the log.  A crash keeps the disk as the writes done so far left it and loses
  the cache and the memory; the next boot runs \<^verbatim>\<open>binit\<close> and \<^verbatim>\<open>initlog\<close>.
\<close>

section \<open>Recovery\<close>

lemma all_free:
  assumes "refs dev s = (\<lambda>_. 0)"
  shows "in_use dev s = {}" "card (insert a (insert b (in_use dev s))) \<le> NBUF" "card (insert a (in_use dev s)) \<le> NBUF"
proof -
  show u: "in_use dev s = {}" using assms by (simp add: in_use_def)
  show "card (insert a (insert b (in_use dev s))) \<le> NBUF" "card (insert a (in_use dev s)) \<le> NBUF"
    unfolding u by (cases "a = b"; simp add: NBUF_def)+
qed

lemma recover_spec:
  fixes s :: "'a logsys_scheme"
  assumes "quiet dev s" "dev = lg_dev s" "refs dev s = (\<lambda>_. 0)" "length (lg_block s) = 30"
    and "sint (get32 (disk s st) 0) = int n" "n \<le> 30" "st = lg_start s"
    and "\<And>t. t < n \<Longrightarrow> \<not> in_log st (unat (get32 (disk s st) (4 + 4 * t)))"
    and "inj_on (\<lambda>t. unat (get32 (disk s st) (4 + 4 * t))) {0..<n}"
  shows "\<exists>s' H. recover_from_log s = Ret s' \<and>
    disk s' = (apply_writes (map (\<lambda>t. (unat (get32 (disk s st) (4 + 4 * t)), disk s (st + t + 1))) [0..<n]) (disk s))(st := H)"
proof -
  let ?bl = "\<lambda>t. unat (get32 (disk s st) (4 + 4 * t))"
  have v: "view dev s = disk s" using unreferenced_clean [OF quietD(1) [OF assms(1)]] assms(3) by (auto simp: fun_eq_iff)
  obtain s1 where s1: "read_head s = Ret s1" "quiet dev s1" "view dev s1 = disk s" "refs dev s1 = (\<lambda>_. 0)" "disk s1 = disk s"
    "dwrites s1 = dwrites s" "lg_n s1 = int n" "lg_start s1 = st" "lg_dev s1 = dev" "lg_block s1 = get_head (disk s st) [0..<n] (lg_block s)"
    by (rule read_head_spec [OF assms(1,2) all_free(3) [OF assms(3)]]) (use assms(2,3,5,7) v in auto)
  have bl: "lg_block s1 ! t = ?bl t" if "t < n" for t
    using that s1(10) assms(4,6) by (simp add: nth_get_head)
  have ne: "\<forall>t \<in> set [0..<n]. \<forall>t' \<in> set [0..<n]. lg_block s1 ! t \<noteq> lg_start s1 + t' + 1"
    using assms(6,8) s1(8) bl by (fastforce simp: in_log_def)
  have di: "distinct (map ((!) (lg_block s1)) [0..<n])" using assms(9) bl by (auto simp: distinct_map inj_on_def)
  define W where "W = map (\<lambda>t. (?bl t, disk s (st + t + 1))) [0..<n]"
  have W: "map (\<lambda>t. (lg_block s1 ! t, disk s (lg_start s1 + t + 1))) [0..<n] = W"
    using bl s1(8) by (auto simp: W_def)
  have room: "\<forall>t \<in> set [0..<n]. card (insert (lg_start s1 + t + 1) (insert (lg_block s1 ! t) (in_use dev s1))) \<le> NBUF"
    using all_free(2) [OF s1(4)] by blast
  obtain s2 where s2: "install_trans s1 True = Ret s2" "steps dev s1 s2 (apply_writes W (disk s)) (\<lambda>_. 0) W"
    using install_loop_spec [OF s1(2) s1(9) [symmetric] ne di _ room, of True, unfolded s1(3,4) W] s1(7) by (auto simp: install_trans_def)
  define s3 where "s3 = s2\<lparr>lg_n := 0\<rparr>"
  have f: "quiet dev s3" "refs dev s3 = (\<lambda>_. 0)" "disk s3 = apply_writes W (disk s)" "lg_dev s3 = dev" "lg_start s3 = st"
    using s2(2) s1 more_log [of s2 s1] by (auto simp: s3_def steps_def quiet_def)
  obtain s4 where s4: "write_head s3 = Ret s4" "\<exists>V R H. steps dev s3 s4 V R [(st, H)]"
    using write_head_spec [OF f(1) f(4) [symmetric] all_free(3) [OF f(2)]] f(5) by blast
  then obtain H where "disk s4 = (apply_writes W (disk s))(st := H)" using f(3) by (auto simp: steps_def)
  moreover have "recover_from_log s = Ret s4" using s1(1) s2(1) s4(1) by (simp add: recover_from_log_def s3_def)
  ultimately show ?thesis unfolding W_def by blast
qed

section \<open>Crashes during a commit\<close>

definition zero_buf :: buf where
  "zero_buf = \<lparr>b_valid = False, b_dev = 0, b_blockno = 0, b_locked = False, b_refcnt = 0, b_data = replicate BSIZE 0\<rparr>"

text \<open>The memory of the log and the cache at boot, with the disk \<open>d\<close>.\<close>

definition boot :: "(nat \<Rightarrow> block) \<Rightarrow> logsys" where
  "boot d = binit \<lparr>bufs = replicate NBUF zero_buf, mru = [], disk = d, dwrites = [], lg_start = 0, lg_outstanding = 0,
     lg_committing = False, lg_dev = 0, lg_n = 0, lg_block = replicate 30 0\<rparr>"

lemma binit_loop_rev: "binit_loop xs l = rev xs @ l"
  by (induction xs arbitrary: l) auto

lemma boot_state:
  assumes "0 < dev"
  shows "quiet dev ((boot d)\<lparr>lg_start := st, lg_dev := dev\<rparr>)" "refs dev ((boot d)\<lparr>lg_start := st, lg_dev := dev\<rparr>) = (\<lambda>_. 0)"
    "disk (boot d) = d" "length (lg_block (boot d)) = 30"
proof -
  let ?s = "(boot d)\<lparr>lg_start := st, lg_dev := dev\<rparr>"
  have b: "bufs ?s = replicate NBUF zero_buf" "mru ?s = rev [0..<NBUF]" "disk (boot d) = d" "length (lg_block (boot d)) = 30"
    by (simp_all add: boot_def binit_def binit_loop_rev)
  have no: "\<not> is_buf ?s dev c i" for c i using assms b(1) by (auto simp: is_buf_def zero_buf_def)
  have inv: "bc_inv dev ?s" using assms no b(1,2) by (auto simp: bc_inv_def zero_buf_def)
  then show "quiet dev ?s" "refs dev ?s = (\<lambda>_. 0)" using view_nobuf [OF inv no] by (auto simp: quiet_def fun_eq_iff)
  show "disk (boot d) = d" "length (lg_block (boot d)) = 30" by (rule b)+
qed

lemma head_block_fields:
  assumes "length d = BSIZE" "0 \<le> n" "n \<le> 30"
  shows "get32 (head_block bl n d) 0 = of_int n" "int t < n \<Longrightarrow> get32 (head_block bl n d) (4 + 4 * t) = of_nat (bl ! t)"
    "length (head_block bl n d) = BSIZE"
  using assms get_put_head [where n = "nat n" and d = "put32 d 0 (of_int n)" and bl = bl] by (auto simp: head_block_def BSIZE_def)

lemma sint_small: "0 \<le> n \<Longrightarrow> n \<le> 30 \<Longrightarrow> sint (of_int n :: uint32) = n"
proof -
  assume "0 \<le> n" "n \<le> 30"
  then have "signed_take_bit 31 n = n" by (intro signed_take_bit_int_eq_self) auto
  then show ?thesis by (simp add: signed_of_int)
qed

lemma initlog_recover: "initlog s dev st = recover_from_log (s\<lparr>lg_start := st, lg_dev := dev\<rparr>)"
  by (simp add: initlog_def LOGBLOCKS_def MAXOPBLOCKS_def BSIZE_def)

lemma take_map_upt: "take k (map f [0..<n]) = map f [0..<min k n]"
  by (simp add: take_map take_upt min_def)

lemma initlog_empty:
  assumes "0 < dev" "get32 (d st) 0 = 0"
  shows "\<exists>r H. initlog (boot d) dev st = Ret r \<and> disk r = d(st := H)"
  using recover_spec [of dev "(boot d)\<lparr>lg_start := st, lg_dev := dev\<rparr>" st 0] boot_state(1,2) [OF assms(1), where d = d and st = st] boot_state(3,4) [OF assms(1), where d = d] assms(2)
  by (auto simp: initlog_recover)

lemma initlog_redo:
  assumes "0 < dev" "get32 (d st) 0 = of_int (int n)" "n \<le> 30" "\<And>t. t < n \<Longrightarrow> get32 (d st) (4 + 4 * t) = of_nat (bl ! t)"
    "\<And>t. t < n \<Longrightarrow> \<not> in_log st (bl ! t) \<and> bl ! t < 2 ^ 32" "inj_on ((!) bl) {0..<n}"
  shows "\<exists>r H. initlog (boot d) dev st = Ret r \<and> disk r = (apply_writes (map (\<lambda>t. (bl ! t, d (st + t + 1))) [0..<n]) d)(st := H)"
proof -
  let ?s = "(boot d)\<lparr>lg_start := st, lg_dev := dev\<rparr>"
  have u: "unat (get32 (d st) (4 + 4 * t)) = bl ! t" if "t < n" for t
    using assms(4,5) that by (simp add: unat_of_nat)
  have m: "map (\<lambda>t. (unat (get32 (d st) (4 + 4 * t)), d (st + t + 1))) [0..<n] = map (\<lambda>t. (bl ! t, d (st + t + 1))) [0..<n]"
    using u by simp
  have "\<exists>r H. recover_from_log ?s = Ret r \<and>
      disk r = (apply_writes (map (\<lambda>t. (unat (get32 (disk ?s st) (4 + 4 * t)), disk ?s (st + t + 1))) [0..<n]) (disk ?s))(st := H)"
    by (rule recover_spec [where dev = dev])
      (use boot_state(1,2) [OF assms(1), where d = d and st = st] boot_state(3,4) [OF assms(1), where d = d] assms(2,3,5,6) u sint_small [of "int n"] in \<open>auto simp: inj_on_def\<close>)
  moreover have "disk ?s = d" using boot_state(3) [OF assms(1)] by simp
  ultimately show ?thesis unfolding initlog_recover by (simp only: m)
qed

text \<open>The disk after the first \<open>k\<close> writes of a commit.\<close>

definition crash_disk :: "'a logsys_scheme \<Rightarrow> nat \<Rightarrow> nat \<Rightarrow> block" where
  "crash_disk s k = apply_writes (take k (commit_writes s)) (disk s)"

lemma crash_early:
  assumes "log_inv s" "k \<le> nat (lg_n s)" "b = lg_start s \<or> \<not> in_log (lg_start s) b"
  shows "crash_disk s k b = disk s b"
proof -
  have "nat (lg_n s) \<le> 30" using assms(1) by (auto simp: log_inv_def LOGBLOCKS_def MAXOPBLOCKS_def)
  then have "b \<notin> (\<lambda>t. lg_start s + t + 1) ` set [0..<k]" using assms(2,3) by (auto simp: in_log_def)
  moreover have "take k (commit_writes s) = map (\<lambda>t. (lg_start s + t + 1, view (lg_dev s) s (lg_block s ! t))) [0..<k]"
    using assms(2) by (simp add: commit_writes_def log_writes_def home_writes_def take_map_upt min_def)
  ultimately show ?thesis by (simp only: crash_disk_def apply_writes_other not_False_eq_True)
qed

lemma crash_late:
  assumes "log_inv s" "nat (lg_n s) < k" "k < 2 * nat (lg_n s) + 2"
  shows "crash_disk s k (lg_start s) = head_block (lg_block s) (lg_n s) (disk s (lg_start s))"
    "t < nat (lg_n s) \<Longrightarrow> crash_disk s k (lg_start s + t + 1) = view (lg_dev s) s (lg_block s ! t)"
    "\<not> in_log (lg_start s) b \<Longrightarrow> b \<notin> set (logged s) \<Longrightarrow> crash_disk s k b = disk s b"
proof -
  define n st bl V where "n = nat (lg_n s)" and "st = lg_start s" and "bl = lg_block s" and "V = view (lg_dev s) s"
  note fold = n_def [symmetric] st_def [symmetric] bl_def [symmetric] V_def [symmetric]
  define j where "j = k - (n + 1)"
  have j: "k = n + 1 + j" "j \<le> n" using assms(2,3) unfolding j_def n_def by auto
  have n30: "n \<le> 30" using assms(1) by (auto simp: log_inv_def LOGBLOCKS_def MAXOPBLOCKS_def n_def)
  define D1 where "D1 = (apply_writes (map (\<lambda>t. (st + t + 1, V (bl ! t))) [0..<n]) (disk s))(st := head_block bl (lg_n s) (disk s st))"
  have d: "crash_disk s k = apply_writes (map (\<lambda>t. (bl ! t, V (bl ! t))) [0..<j]) D1"
    using j by (simp add: crash_disk_def commit_writes_def log_writes_def home_writes_def fold D1_def take_map_upt min_def)
  have out: "\<not> in_log st (bl ! t)" "bl ! t \<in> set (logged s)" if "t < n" for t
    using logged_nth [OF assms(1), folded n_def, of t] assms(1) that unfolding log_inv_def fold by blast+
  have o: "crash_disk s k c = D1 c" if "in_log st c \<or> c \<notin> set (logged s)" for c
    unfolding d by (rule apply_writes_other) (use out that j(2) in fastforce)
  show "crash_disk s k (lg_start s) = head_block (lg_block s) (lg_n s) (disk s (lg_start s))"
    using o [of st] by (simp add: fold D1_def in_log_def)
  show "crash_disk s k (lg_start s + t + 1) = view (lg_dev s) s (lg_block s ! t)" if "t < nat (lg_n s)"
  proof -
    have "apply_writes (map (\<lambda>t. (st + t + 1, V (bl ! t))) [0..<n]) (disk s) (st + t + 1) = V (bl ! t)"
      by (rule apply_writes_at) (use that in \<open>auto simp: inj_on_def fold\<close>)
    then show ?thesis using o [of "st + t + 1"] that n30 by (simp add: fold D1_def in_log_def)
  qed
  show "crash_disk s k b = disk s b" if "\<not> in_log (lg_start s) b" "b \<notin> set (logged s)"
  proof -
    have "apply_writes (map (\<lambda>t. (st + t + 1, V (bl ! t))) [0..<n]) (disk s) b = disk s b"
      by (rule apply_writes_other) (use that n30 in \<open>auto simp: in_log_def fold\<close>)
    then show ?thesis using o [of b] that by (auto simp: D1_def in_log_def fold)
  qed
qed

lemma view_unlogged: "log_inv s \<Longrightarrow> b \<notin> set (logged s) \<Longrightarrow> view (lg_dev s) s b = disk s b"
  using unreferenced_clean [of "lg_dev s" s b] by (auto simp: log_inv_def quiet_def)

lemma logged_index:
  assumes "b \<in> set (logged s)"
  obtains t where "t < nat (lg_n s)" "b = lg_block s ! t"
  using assms by (auto simp: in_set_conv_nth)

lemma crash_done:
  assumes "log_inv s" "2 * nat (lg_n s) + 2 \<le> k"
  shows "get32 (crash_disk s k (lg_start s)) 0 = 0" "\<not> in_log (lg_start s) b \<Longrightarrow> crash_disk s k b = view (lg_dev s) s b"
proof -
  let ?k = "2 * nat (lg_n s) + 1" and ?H = "head_block (lg_block s) (lg_n s) (disk s (lg_start s))"
  have l: "length (commit_writes s) = 2 * nat (lg_n s) + 2" by (simp add: commit_writes_def log_writes_def home_writes_def)
  have "crash_disk s k = apply_writes (take ?k (commit_writes s) @ drop ?k (commit_writes s)) (disk s)"
    using assms(2) l by (simp add: crash_disk_def)
  moreover have "drop ?k (commit_writes s) = [(lg_start s, head_block (lg_block s) 0 ?H)]"
    by (simp add: commit_writes_def log_writes_def home_writes_def)
  ultimately have d: "crash_disk s k = (crash_disk s ?k)(lg_start s := head_block (lg_block s) 0 ?H)"
    by (simp add: crash_disk_def del: append_take_drop_id)
  have n: "0 \<le> lg_n s" "lg_n s \<le> 30" "length (disk s (lg_start s)) = BSIZE" using assms(1) by (auto simp: log_inv_def LOGBLOCKS_def MAXOPBLOCKS_def)
  have "length ?H = BSIZE" by (rule head_block_fields(3)) (use n in auto)
  then show "get32 (crash_disk s k (lg_start s)) 0 = 0" using d head_block_fields(1) [of ?H 0] by simp
  assume o: "\<not> in_log (lg_start s) b"
  show "crash_disk s k b = view (lg_dev s) s b"
  proof (cases "b \<in> set (logged s)")
    case True
    then obtain t where t: "t < nat (lg_n s)" "b = lg_block s ! t" by (rule logged_index)
    have "commit_writes s = (map (\<lambda>t. (lg_start s + t + 1, view (lg_dev s) s (lg_block s ! t))) [0..<nat (lg_n s)] @ [(lg_start s, ?H)]) @
        map (\<lambda>t. (lg_block s ! t, view (lg_dev s) s (lg_block s ! t))) [0..<nat (lg_n s)] @ [(lg_start s, head_block (lg_block s) 0 ?H)]"
      by (simp add: commit_writes_def log_writes_def home_writes_def)
    then obtain D where "crash_disk s ?k = apply_writes (map (\<lambda>t. (lg_block s ! t, view (lg_dev s) s (lg_block s ! t))) [0..<nat (lg_n s)]) D"
      by (simp add: crash_disk_def)
    then have "crash_disk s ?k b = view (lg_dev s) s b"
      unfolding t(2) using apply_writes_at [of "(!) (lg_block s)" "[0..<nat (lg_n s)]" t] t(1) logged_inj(1) [OF assms(1)] by simp
    then show ?thesis using d o by (auto simp: in_log_def)
  next
    case False
    then show ?thesis
      using crash_late(3) [OF assms(1), of ?k b] view_unlogged [OF assms(1)] d o by (auto simp: in_log_def)
  qed
qed

lemma crash_redo:
  assumes "log_inv s" "nat (lg_n s) < k" "k < 2 * nat (lg_n s) + 2" "\<not> in_log (lg_start s) b" "0 < lg_dev s"
  shows "\<exists>r. initlog (boot (crash_disk s k)) (lg_dev s) (lg_start s) = Ret r \<and> disk r b = view (lg_dev s) s b"
proof -
  define n where "n = nat (lg_n s)"
  let ?d = "crash_disk s k" and ?st = "lg_start s" and ?bl = "lg_block s"
  note c = crash_late [OF assms(1-3), folded n_def]
  have n: "int n = lg_n s" "n \<le> 30" "length (disk s ?st) = BSIZE" using assms(1) by (auto simp: log_inv_def LOGBLOCKS_def MAXOPBLOCKS_def n_def)
  have h: "get32 (?d ?st) 0 = of_int (int n)" "\<And>t. t < n \<Longrightarrow> get32 (?d ?st) (4 + 4 * t) = of_nat (?bl ! t)"
    using c(1) head_block_fields [of "disk s ?st" "lg_n s"] n by auto
  note bl = logged_out [OF assms(1), folded n_def]
  obtain r H where r: "initlog (boot ?d) (lg_dev s) ?st = Ret r" "disk r = (apply_writes (map (\<lambda>t. (?bl ! t, ?d (?st + t + 1))) [0..<n]) ?d)(?st := H)"
    using initlog_redo [where d = ?d and st = ?st, OF assms(5) h(1) n(2) h(2) bl] logged_inj(1) [OF assms(1), folded n_def] by blast
  have "apply_writes (map (\<lambda>t. (?bl ! t, ?d (?st + t + 1))) [0..<n]) ?d b = view (lg_dev s) s b"
  proof (cases "b \<in> set (logged s)")
    case True
    then obtain t where t: "t < n" "b = ?bl ! t" unfolding n_def by (rule logged_index)
    then show ?thesis
      using apply_writes_at [of "(!) ?bl" "[0..<n]" t] logged_inj(1) [OF assms(1), folded n_def] c(2) by simp
  next
    case False
    then have "b \<notin> (!) ?bl ` set [0..<n]" using logged_inj(4) [OF assms(1)] by (simp add: n_def)
    then show ?thesis
      using apply_writes_other [of b "(!) ?bl" "[0..<n]"] crash_late(3) [OF assms(1-4) False] view_unlogged [OF assms(1) False] by simp
  qed
  then show ?thesis using r assms(4) by (auto simp: in_log_def)
qed

section \<open>Properties\<close>

text \<open>
  C17: a commit is atomic under crashes.  From a state between operations, with at most 29 logged
  blocks, \<^verbatim>\<open>commit\<close> does not panic; and if the machine stops after any number \<open>k\<close> of its disk
  writes, the next boot's \<^verbatim>\<open>initlog\<close> succeeds and leaves every block outside the log either as it
  was on disk before the commit, when \<open>k\<close> is at most the number of logged blocks, or with the
  contents of the committed transaction, as soon as the header was written.
\<close>

theorem commit_crash_atomic:
  assumes "log_inv s" "0 < lg_n s" "lg_n s \<le> 29" "0 < lg_dev s" "\<not> in_log (lg_start s) b"
  shows "\<exists>s' ws. commit s = Ret s' \<and> dwrites s' = dwrites s @ ws \<and> disk s' = apply_writes ws (disk s) \<and> disk s' b = view (lg_dev s) s b \<and>
    (\<forall>k. \<exists>r. initlog (boot (apply_writes (take k ws) (disk s))) (lg_dev s) (lg_start s) = Ret r \<and>
       disk r b = (if k \<le> nat (lg_n s) then disk s b else view (lg_dev s) s b))"
proof -
  obtain s' where s': "commit s = Ret s'" "disk s' = apply_writes (commit_writes s) (disk s)" "dwrites s' = dwrites s @ commit_writes s"
    by (rule commit_spec [OF assms(1-3)]) blast
  have ne: "b \<noteq> lg_start s" using assms(5) by (auto simp: in_log_def)
  have "\<exists>r. initlog (boot (crash_disk s k)) (lg_dev s) (lg_start s) = Ret r \<and>
       disk r b = (if k \<le> nat (lg_n s) then disk s b else view (lg_dev s) s b)" for k
  proof -
    consider "k \<le> nat (lg_n s)" | "nat (lg_n s) < k" "k < 2 * nat (lg_n s) + 2" | "2 * nat (lg_n s) + 2 \<le> k" by linarith
    then show ?thesis
    proof cases
      case 1
      have "get32 (crash_disk s k (lg_start s)) 0 = 0" using crash_early [OF assms(1) 1, of "lg_start s"] assms(1) by (simp add: log_inv_def)
      then show ?thesis using initlog_empty [OF assms(4)] crash_early [OF assms(1) 1, of b] assms(5) 1 ne by fastforce
    next
      case 2
      then show ?thesis using crash_redo [OF assms(1) 2 assms(5,4)] by auto
    next
      case 3
      then show ?thesis using initlog_empty [where d = "crash_disk s k" and st = "lg_start s", OF assms(4) crash_done(1) [OF assms(1) 3]] crash_done(2) [OF assms(1) 3 assms(5)] ne by fastforce
    qed
  qed
  moreover have "disk s' b = view (lg_dev s) s b"
    using crash_done(2) [OF assms(1) order_refl assms(5)] s'(2) by (simp add: crash_disk_def commit_writes_def log_writes_def home_writes_def)
  ultimately show ?thesis using s' unfolding crash_disk_def by blast
qed

text \<open>A state with one logged block, reached from boot by the operations of a file system call.\<close>

lemma one_block_logged: "\<exists>s :: logsys. log_inv s \<and> lg_n s = 1 \<and> lg_dev s = 1 \<and> lg_start s = 2 \<and> view 1 s 50 = replicate BSIZE 7 \<and> disk s 50 = replicate BSIZE 0"
proof -
  define s0 where "s0 = (boot (\<lambda>_. replicate BSIZE 0))\<lparr>lg_start := 2, lg_dev := 1\<rparr>\<lparr>lg_outstanding := 1\<rparr>"
  note b = boot_state(1,2) [where dev = 1 and d = "\<lambda>_. replicate BSIZE 0" and st = 2]
  have c: "bc_inv 1 s0" "refs 1 s0 = (\<lambda>_. 0)" "held 1 s0 = (\<lambda>_. False)"
    using b cache_only [of "s0" "(boot (\<lambda>_. replicate BSIZE 0))\<lparr>lg_start := 2, lg_dev := 1\<rparr>" 1]
    by (auto simp: s0_def quiet_def fun_eq_iff)
  have f: "lg_n s0 = 0" "lg_dev s0 = 1" "lg_start s0 = 2" "lg_outstanding s0 = 1" "length (lg_block s0) = 30" "disk s0 = (\<lambda>_. replicate BSIZE 0)"
    by (simp_all add: s0_def boot_def binit_def)
  have i0: "op_inv {} s0" unfolding op_inv_def f using c f(5) by (simp add: LOGBLOCKS_def MAXOPBLOCKS_def get32_def BSIZE_def)
  obtain i s1 where s1: "op_inv {50} s1" "holds 1 s1 50 i" "logged s1 = []" "op_frame s0 s1"
    by (rule op_bread [OF i0, of 50]) (use f in \<open>auto simp: NBUF_def\<close>)
  have f1: "lg_dev s1 = 1" "lg_start s1 = 2" "lg_outstanding s1 = 1" "disk s1 = (\<lambda>_. replicate BSIZE 0)" using s1(4) f by (auto simp: op_frame_def)
  define s2 where "s2 = set_data s1 i (replicate BSIZE 7)"
  note s2 = op_set_data [OF s1(1), unfolded f1(1), OF s1(2), where d = "replicate BSIZE 7", folded s2_def]
  have f2: "lg_dev s2 = 1" "lg_start s2 = 2" "lg_outstanding s2 = 1" "disk s2 = (\<lambda>_. replicate BSIZE 0)" "logged s2 = []"
    using s2(3,6) f1 s1(3) by (auto simp: op_frame_def)
  have n2: "lg_n s2 = 0" using s2(1) f2(5) by (auto simp: op_inv_def)
  obtain s3 where s3: "op_inv {50} s3" "view 1 s3 = view 1 s2" "logged s3 = [50]" "op_frame s2 s3" "holds 1 s3 50 i"
    by (rule op_log_write [OF s2(1), unfolded f2(1), OF s2(4)])
      (use f2 n2 s2(4) in \<open>auto simp: LOGBLOCKS_def MAXOPBLOCKS_def in_log_def\<close>)
  have f3: "lg_dev s3 = 1" "lg_start s3 = 2" "disk s3 = (\<lambda>_. replicate BSIZE 0)" using s3(4) f2 by (auto simp: op_frame_def)
  obtain s4 where s4: "op_inv {} s4" "view 1 s4 = view 1 s3" "logged s4 = [50]" "op_frame s3 s4"
    by (rule op_brelse [OF s3(1), unfolded f3(1), OF s3(5)]) (use s3(3) in auto)
  have "lg_n s4 = 1" using op_inv_len [OF s4(1)] unfolding s4(3) by simp
  then show ?thesis
    using s4 f3 s3(2) s2(2) by (intro exI [of _ s4]) (auto simp: op_inv_log_inv op_frame_def)
qed

theorem commit_crash_atomic_witness:
  "\<exists>(s :: logsys) s' ws. commit s = Ret s' \<and> disk s' = apply_writes ws (disk s) \<and> disk s 50 = replicate BSIZE 0 \<and>
     (\<exists>r. initlog (boot (apply_writes (take 1 ws) (disk s))) 1 2 = Ret r \<and> disk r 50 = replicate BSIZE 0) \<and>
     (\<exists>r. initlog (boot (apply_writes (take 2 ws) (disk s))) 1 2 = Ret r \<and> disk r 50 = replicate BSIZE 7)"
proof -
  obtain s :: logsys where s: "log_inv s" "lg_n s = 1" "lg_dev s = 1" "lg_start s = 2" "view 1 s 50 = replicate BSIZE 7" "disk s 50 = replicate BSIZE 0"
    using one_block_logged by blast
  have p: "0 < (1::int)" "1 \<le> (29::int)" "0 < (1::nat)" "\<not> in_log 2 50" by (simp_all add: in_log_def)
  obtain s' ws where w: "commit s = Ret s'" "disk s' = apply_writes ws (disk s)"
    "\<And>k. \<exists>r. initlog (boot (apply_writes (take k ws) (disk s))) 1 2 = Ret r \<and> disk r 50 = (if k \<le> nat 1 then disk s 50 else view 1 s 50)"
    using commit_crash_atomic [OF s(1), of 50, unfolded s(2-4), OF p] by blast
  show ?thesis using w(1,2) w(3) [of 1] w(3) [of 2] s(5,6) by (intro exI [of _ s] exI [of _ s'] exI [of _ ws]) auto
qed

text \<open>
  C18: the block cache has as many buffers as the log has blocks, so a full log cannot be
  committed: when 30 blocks are logged all buffers are pinned and the first \<^verbatim>\<open>bread\<close> of the
  commit panics.
\<close>

theorem commit_full_log_panics:
  assumes "log_inv s" "lg_n s = 30"
  shows "commit s = Panic ''bget: no buffers''"
proof -
  let ?b = "lg_start s + 0 + 1"
  have q: "bc_inv (lg_dev s) s" using assms(1) by (simp add: log_inv_def quiet_def)
  have full: "card {i. i < NBUF \<and> 0 < b_refcnt (bufs s ! i)} = NBUF"
    using in_use_card(1) [OF q] logged_in_use [OF assms(1)] logged_card [OF assms(1)] assms(2) by (simp add: NBUF_def)
  have "{i. i < NBUF \<and> 0 < b_refcnt (bufs s ! i)} = {..<NBUF}"
    by (rule card_subset_eq) (use full in auto)
  then have pos: "0 < b_refcnt (bufs s ! i)" if "i < NBUF" for i using that by auto
  have "refs (lg_dev s) s ?b = 0" using assms(1) by (auto simp: log_inv_def in_log_def)
  then have "\<not> is_buf s (lg_dev s) ?b i" for i
    using view_buf(2) [OF q, of ?b i] pos [of i] by (auto simp: is_buf_def)
  then have "buf_of s (lg_dev s) ?b = None" using buf_of_None [OF q] by blast
  moreover have "find (\<lambda>i. b_refcnt (bufs s ! i) = 0) (rev (mru s)) = None" using pos q by (auto simp: find_None_iff bc_inv_def)
  ultimately have "bread s (lg_dev s) ?b = Panic ''bget: no buffers''" by (simp add: bread_def bget_def buf_of_def)
  then have "log_block s 0 = Panic ''bget: no buffers''" by (simp add: log_block_def)
  moreover have "[0..<nat (lg_n s)] = 0 # [1..<30]" using assms(2) by (simp add: upt_conv_Cons)
  ultimately show ?thesis using assms(2) by (simp add: commit_def write_log_def)
qed

text \<open>Three operations that write ten blocks each fill the log with 30 pinned blocks.\<close>

definition full_log :: logsys where
  "full_log = \<lparr>bufs = map (\<lambda>i. \<lparr>b_valid = True, b_dev = 1, b_blockno = 100 + i, b_locked = False, b_refcnt = 1, b_data = replicate BSIZE 7\<rparr>) [0..<30],
     mru = [0..<30], disk = (\<lambda>_. replicate BSIZE 0), dwrites = [], lg_start = 2, lg_outstanding = 0, lg_committing = True,
     lg_dev = 1, lg_n = 30, lg_block = map (\<lambda>i. 100 + i) [0..<30]\<rparr>"

lemma full_log_inv: "log_inv full_log" "lg_n full_log = 30"
proof -
  have isb: "is_buf full_log 1 b i \<longleftrightarrow> i < 30 \<and> b = 100 + i" for b i by (auto simp: is_buf_def full_log_def NBUF_def)
  have inv: "bc_inv 1 full_log" unfolding bc_inv_def isb by (auto simp: full_log_def NBUF_def)
  have lg: "logged full_log = map (\<lambda>i. 100 + i) [0..<30]" by (simp add: full_log_def)
  have "refs 1 full_log b = (if b \<in> set (logged full_log) then 1 else 0) \<and> \<not> held 1 full_log b" for b
  proof (cases "\<exists>i < 30. b = 100 + i")
    case True
    then obtain i where i: "i < 30" "b = 100 + i" by blast
    then have "is_buf full_log 1 b i" using isb by simp
    then show ?thesis using view_buf(2,3) [OF inv] i unfolding lg by (auto simp: full_log_def)
  next
    case False
    then have "\<not> is_buf full_log 1 b i" for i using isb by blast
    moreover have "b < 100 \<or> 130 \<le> b" using False by (auto simp: not_less dest!: spec [of _ "b - 100"])
    ultimately show ?thesis using view_nobuf(2,3) [OF inv, of b] unfolding lg by auto
  qed
  then have "quiet 1 full_log" "refs 1 full_log = (\<lambda>b. if b \<in> set (logged full_log) then 1 else 0)" using inv by (auto simp: quiet_def)
  then show "log_inv full_log"
    unfolding log_inv_def lg by (auto simp: full_log_def LOGBLOCKS_def MAXOPBLOCKS_def in_log_def BSIZE_def get32_def distinct_map inj_on_def)
  show "lg_n full_log = 30" by (simp add: full_log_def)
qed

theorem commit_full_log_panics_witness: "log_inv full_log \<and> commit full_log = Panic ''bget: no buffers''"
  using commit_full_log_panics [OF full_log_inv] full_log_inv(1) by simp

end
