(* ===== verification/Cstring.thy ===== *)
theory Cstring
  imports Prelude
begin

text \<open>
  The string functions of \<^verbatim>\<open>kernel/string.c\<close> and \<^verbatim>\<open>user/ulib.c\<close>.  A string is the list of the
  bytes in memory from its pointer on; past the end of the list lies the terminating NUL, so
  reading there gives 0.  A function that writes a buffer is the list of the bytes it writes.
\<close>

definition hd0 :: "uint8 list \<Rightarrow> uint8" where
  "hd0 s = (case s of [] \<Rightarrow> 0 | c # _ \<Rightarrow> c)"

lemma hd0_simps [simp]: "hd0 [] = 0" "hd0 (c # s) = c"
  by (simp_all add: hd0_def)

section \<open>kernel/string.c\<close>

fun strncmp :: "uint8 list \<Rightarrow> uint8 list \<Rightarrow> nat \<Rightarrow> int" where
  "strncmp p q 0 = 0"
| "strncmp p q (Suc n) =
     (if hd0 p \<noteq> 0 \<and> hd0 p = hd0 q then strncmp (tl p) (tl q) n else uint (hd0 p) - uint (hd0 q))"

fun strncpy_loop :: "uint8 list \<Rightarrow> nat \<Rightarrow> uint8 list" where
  "strncpy_loop t 0 = []"
| "strncpy_loop t (Suc n) = (if hd0 t \<noteq> 0 then hd0 t # strncpy_loop (tl t) n else 0 # replicate n 0)"

definition strncpy :: "uint8 list \<Rightarrow> int \<Rightarrow> uint8 list" where
  "strncpy t n = strncpy_loop t (nat n)"

fun safestrcpy_loop :: "uint8 list \<Rightarrow> nat \<Rightarrow> uint8 list" where
  "safestrcpy_loop t 0 = [0]"
| "safestrcpy_loop t (Suc n) = (if hd0 t \<noteq> 0 then hd0 t # safestrcpy_loop (tl t) n else [0, 0])"

definition safestrcpy :: "uint8 list \<Rightarrow> int \<Rightarrow> uint8 list" where
  "safestrcpy t n = (if n \<le> 0 then [] else safestrcpy_loop t (nat n - 1))"

fun strlen :: "uint8 list \<Rightarrow> nat" where
  "strlen [] = 0"
| "strlen (c # s) = (if c \<noteq> 0 then strlen s + 1 else 0)"

section \<open>user/ulib.c\<close>

fun strcpy :: "uint8 list \<Rightarrow> uint8 list" where
  "strcpy [] = [0]"
| "strcpy (c # t) = (if c \<noteq> 0 then c # strcpy t else [0])"

function strcmp :: "uint8 list \<Rightarrow> uint8 list \<Rightarrow> int" where
  "strcmp p q =
     (if hd0 p \<noteq> 0 \<and> hd0 p = hd0 q then strcmp (tl p) (tl q) else uint (hd0 p) - uint (hd0 q))"
  by pat_completeness auto
termination
  by (relation "measure (\<lambda>(p, q). length p)") (auto simp: hd0_def split: list.splits)

declare strcmp.simps [simp del]

text \<open>The offset of the first \<open>c\<close>; the terminating NUL is never found.\<close>

fun strchr :: "uint8 list \<Rightarrow> uint8 \<Rightarrow> nat option" where
  "strchr [] c = None"
| "strchr (x # s) c = (if x = 0 then None else if x = c then Some 0 else map_option Suc (strchr s c))"

text \<open>\<open>read_char k\<close> is the result of the \<open>k\<close>th \<^verbatim>\<open>read(0, &c, 1)\<close>: a byte, or absent at the end of the input.\<close>

function gets_loop :: "(nat \<Rightarrow> uint8 option) \<Rightarrow> nat \<Rightarrow> int \<Rightarrow> uint8 list" where
  "gets_loop read_char i maxn =
     (if int i + 1 < maxn then
        (case read_char i of None \<Rightarrow> []
         | Some c \<Rightarrow> if c = 10 \<or> c = 13 then [c] else c # gets_loop read_char (i + 1) maxn)
      else [])"
  by pat_completeness auto
termination
  by (relation "measure (\<lambda>(r, i, maxn). nat (maxn - int i))") auto

declare gets_loop.simps [simp del]

definition gets :: "(nat \<Rightarrow> uint8 option) \<Rightarrow> int \<Rightarrow> uint8 list" where
  "gets read_char maxn = gets_loop read_char 0 maxn @ [0]"

fun atoi_loop :: "uint32 \<Rightarrow> uint8 list \<Rightarrow> uint32" where
  "atoi_loop n [] = n"
| "atoi_loop n (c # s) = (if 48 \<le> c \<and> c \<le> 57 then atoi_loop (n * 10 + ucast c - 48) s else n)"

definition atoi :: "uint8 list \<Rightarrow> int" where
  "atoi s = sint (atoi_loop 0 s)"

section \<open>What they compute\<close>

definition cstr :: "uint8 list \<Rightarrow> uint8 list" where
  "cstr s = takeWhile (\<lambda>c. c \<noteq> 0) s"

lemma cstr_simps [simp]: "cstr [] = []" "cstr (c # s) = (if c = 0 then [] else c # cstr s)"
  by (simp_all add: cstr_def)

lemma cstr_hd: "hd0 s \<noteq> 0 \<Longrightarrow> cstr s = hd0 s # cstr (tl s)" "hd0 s = 0 \<Longrightarrow> cstr s = []"
  by (cases s; simp)+

lemma uint_diff_0: "uint (a :: uint8) - uint b = 0 \<longleftrightarrow> a = b"
  by (simp add: word_uint_eq_iff)

lemma strncmp_0_iff: "strncmp p q n = 0 \<longleftrightarrow> take n (cstr p) = take n (cstr q)"
proof (induction p q n rule: strncmp.induct)
  case (2 p q n)
  show ?case
  proof (cases "hd0 p \<noteq> 0 \<and> hd0 p = hd0 q")
    case True
    then show ?thesis using 2 cstr_hd(1) [of p] cstr_hd(1) [of q] by auto
  next
    case False
    then show ?thesis
      using cstr_hd [of p] cstr_hd [of q] uint_diff_0 [of "hd0 p" "hd0 q"]
      by (cases "hd0 p = 0"; cases "hd0 q = 0") auto
  qed
qed simp

lemma strcmp_0_iff: "strcmp p q = 0 \<longleftrightarrow> cstr p = cstr q"
proof (induction p q rule: strcmp.induct)
  case (1 p q)
  show ?case
  proof (cases "hd0 p \<noteq> 0 \<and> hd0 p = hd0 q")
    case True
    then show ?thesis using 1 cstr_hd(1) [of p] cstr_hd(1) [of q] by (auto simp: strcmp.simps [of p q])
  next
    case False
    then show ?thesis
      using cstr_hd [of p] cstr_hd [of q] uint_diff_0 [of "hd0 p" "hd0 q"]
      by (cases "hd0 p = 0"; cases "hd0 q = 0") (auto simp: strcmp.simps [of p q])
  qed
qed

lemma strlen_cstr: "strlen s = length (cstr s)"
  by (induction s) auto

lemma strcpy_cstr: "strcpy t = cstr t @ [0]"
  by (induction t) auto

lemma strncpy_cstr: "strncpy_loop t n = take n (cstr t) @ replicate (n - length (cstr t)) 0"
  by (induction t n rule: strncpy_loop.induct) (auto simp: cstr_hd)

lemma length_strncpy_loop [simp]: "length (strncpy_loop t n) = n"
  by (simp add: strncpy_cstr)

lemma safestrcpy_loop_spec:
  "length (safestrcpy_loop t n) \<le> n + 1 \<and> last (safestrcpy_loop t n) = 0 \<and> safestrcpy_loop t n \<noteq> [] \<and>
   cstr (safestrcpy_loop t n) = take n (cstr t)"
  by (induction t n rule: safestrcpy_loop.induct) (auto simp: cstr_hd)

lemma cstr_take: "cstr (take n (cstr t)) = take n (cstr t)"
proof (induction t arbitrary: n)
  case (Cons c t)
  then show ?case by (cases n) auto
qed simp

lemma cstr_append_zeros: "cstr (s @ replicate k 0) = cstr s"
  by (induction s) (auto simp: cstr_def takeWhile_eq_Nil_iff)

section \<open>Properties\<close>

text \<open>
  C25: \<^verbatim>\<open>safestrcpy\<close> into a buffer of \<open>n\<close> bytes never writes more than \<open>n\<close> bytes, always ends in a NUL
  and leaves the first \<open>n - 1\<close> characters of the source as a string.
\<close>

theorem safestrcpy_bounded:
  assumes "0 < n"
  shows "int (length (safestrcpy t n)) \<le> n \<and> last (safestrcpy t n) = 0 \<and> cstr (safestrcpy t n) = take (nat n - 1) (cstr t)"
  using assms safestrcpy_loop_spec [of t "nat n - 1"] by (auto simp: safestrcpy_def)

theorem safestrcpy_bounded_witness:
  "cstr (safestrcpy [105, 110, 105, 116] 3) = [105, 110]"
  using safestrcpy_bounded [of 3 "[105, 110, 105, 116]"] by simp

text \<open>
  C26: a directory entry's name survives its encoding: two names compare equal with \<^verbatim>\<open>strncmp\<close> up to
  \<open>n\<close> characters exactly when their first \<open>n\<close> characters agree, and \<^verbatim>\<open>strncpy\<close> stores a name in \<open>n\<close>
  bytes that compare equal to it.
\<close>

theorem strncpy_strncmp:
  "(strncmp p q n = 0 \<longleftrightarrow> take n (cstr p) = take n (cstr q)) \<and> strncmp t (strncpy t (int n)) n = 0 \<and> length (strncpy t (int n)) = n"
proof -
  have "take n (cstr t) = take n (cstr (strncpy_loop t n))"
    by (simp add: strncpy_cstr cstr_append_zeros cstr_take)
  then show ?thesis by (simp add: strncmp_0_iff strncpy_def)
qed

end
