(* ===== verification/Printf.thy ===== *)
theory Printf
  imports Cstring
begin

text \<open>
  The two formatted printers: \<^verbatim>\<open>printf\<close> of \<^verbatim>\<open>kernel/printf.c\<close> and \<^verbatim>\<open>vprintf\<close> of \<^verbatim>\<open>user/printf.c\<close>.  The
  characters they send are a list.  A variadic argument is a register, \<open>Reg\<close>, or a pointer to a
  string, \<open>Str\<close>, absent for the null pointer; the result is \<open>None\<close> when an argument that the format
  asks for is missing or of the other kind, which C leaves undefined.  A format has no NUL before
  its end.
\<close>

section \<open>Numbers\<close>

text \<open>
  The digits in the order the loop stores them, the last first.  The callers pass the bases 10
  and 16; for a base below 2 the loop of the source would not end.
\<close>

function store_digits :: "string \<Rightarrow> nat \<Rightarrow> nat \<Rightarrow> string" where
  "store_digits digits base x =
     digits ! (x mod base) # (if 1 < base \<and> x div base \<noteq> 0 then store_digits digits base (x div base) else [])"
  by pat_completeness auto
termination
  by (relation "measure (\<lambda>(d, b, x). x)") (simp_all add: div_greater_zero_iff)

declare store_digits.simps [simp del]

definition printint :: "string \<Rightarrow> int \<Rightarrow> nat \<Rightarrow> bool \<Rightarrow> string" where
  "printint digits xx base sgnd =
     (let neg = (sgnd \<and> xx < 0);
          x = (if neg then of_int (- xx) else of_int xx) :: uint64
      in rev (store_digits digits base (unat x) @ (if neg then ''-'' else [])))"

primrec ptr_digits :: "string \<Rightarrow> nat \<Rightarrow> uint64 \<Rightarrow> string" where
  "ptr_digits digits 0 x = []"
| "ptr_digits digits (Suc k) x = digits ! unat (drop_bit 60 x) # ptr_digits digits k (push_bit 4 x)"

definition printptr :: "string \<Rightarrow> uint64 \<Rightarrow> string" where
  "printptr digits x = ''0x'' @ ptr_digits digits 16 x"

section \<open>Formats\<close>

datatype varg = Reg uint64 | Str "string option"

definition c_at :: "string \<Rightarrow> char" where
  "c_at s = (case s of [] \<Rightarrow> CHR 0x00 | c # _ \<Rightarrow> c)"

fun va_reg :: "varg list \<Rightarrow> (uint64 \<times> varg list) option" where
  "va_reg (Reg x # args) = Some (x, args)"
| "va_reg _ = None"

fun va_str :: "varg list \<Rightarrow> (string option \<times> varg list) option" where
  "va_str (Str s # args) = Some (s, args)"
| "va_str _ = None"

definition int_arg :: "uint64 \<Rightarrow> int" where "int_arg x = sint (ucast x :: uint32)"
definition uint_arg :: "uint64 \<Rightarrow> int" where "uint_arg x = uint (ucast x :: uint32)"

definition reg_out :: "varg list \<Rightarrow> (uint64 \<Rightarrow> string) \<Rightarrow> nat \<Rightarrow> (string \<times> nat \<times> varg list) option" where
  "reg_out args f skip = (case va_reg args of None \<Rightarrow> None | Some (x, args') \<Rightarrow> Some (f x, skip, args'))"

text \<open>One conversion: what is printed, by how much \<open>i\<close> moves on, the arguments that remain.\<close>

definition kconv :: "string \<Rightarrow> char \<Rightarrow> string \<Rightarrow> varg list \<Rightarrow> (string \<times> nat \<times> varg list) option" where
  "kconv digits c0 rest args =
     (let c1 = c_at rest; c2 = (if c1 \<noteq> CHR 0x00 then c_at (tl rest) else CHR 0x00) in
      if c0 = CHR ''d'' then reg_out args (\<lambda>x. printint digits (int_arg x) 10 True) 0
      else if c0 = CHR ''l'' \<and> c1 = CHR ''d'' then reg_out args (\<lambda>x. printint digits (sint x) 10 True) 1
      else if c0 = CHR ''l'' \<and> c1 = CHR ''l'' \<and> c2 = CHR ''d'' then reg_out args (\<lambda>x. printint digits (sint x) 10 True) 2
      else if c0 = CHR ''u'' then reg_out args (\<lambda>x. printint digits (uint_arg x) 10 False) 0
      else if c0 = CHR ''l'' \<and> c1 = CHR ''u'' then reg_out args (\<lambda>x. printint digits (sint x) 10 False) 1
      else if c0 = CHR ''l'' \<and> c1 = CHR ''l'' \<and> c2 = CHR ''u'' then reg_out args (\<lambda>x. printint digits (sint x) 10 False) 2
      else if c0 = CHR ''x'' then reg_out args (\<lambda>x. printint digits (uint_arg x) 16 False) 0
      else if c0 = CHR ''l'' \<and> c1 = CHR ''x'' then reg_out args (\<lambda>x. printint digits (sint x) 16 False) 1
      else if c0 = CHR ''l'' \<and> c1 = CHR ''l'' \<and> c2 = CHR ''x'' then reg_out args (\<lambda>x. printint digits (sint x) 16 False) 2
      else if c0 = CHR ''p'' then reg_out args (printptr digits) 0
      else if c0 = CHR ''c'' then reg_out args (\<lambda>x. [char_of (unat x)]) 0
      else if c0 = CHR ''s'' then
        (case va_str args of None \<Rightarrow> None | Some (None, args') \<Rightarrow> Some (''(null)'', 0, args') | Some (Some s, args') \<Rightarrow> Some (s, 0, args'))
      else if c0 = CHR ''%'' then Some (''%'', 0, args)
      else Some ([CHR ''%'', c0], 0, args))"

fun kprintf_loop :: "string \<Rightarrow> string \<Rightarrow> varg list \<Rightarrow> string option" where
  "kprintf_loop digits [] args = Some []"
| "kprintf_loop digits (cx # fmt) args =
     (if cx \<noteq> CHR ''%'' then map_option ((#) cx) (kprintf_loop digits fmt args)
      else (case fmt of
          [] \<Rightarrow> Some []
        | c0 # rest \<Rightarrow>
            (case kconv digits c0 rest args of None \<Rightarrow> None
             | Some (out, k, args') \<Rightarrow> map_option ((@) out) (kprintf_loop digits (drop k rest) args'))))"

definition kdigits :: string where "kdigits = ''0123456789abcdef''"
definition udigits :: string where "udigits = ''0123456789ABCDEF''"

definition printf :: "string \<Rightarrow> varg list \<Rightarrow> string option" where
  "printf fmt args = kprintf_loop kdigits fmt args"

text \<open>The user library keeps a state between characters: \<open>percent\<close> after a percent sign.\<close>

definition uconv :: "string \<Rightarrow> char \<Rightarrow> string \<Rightarrow> varg list \<Rightarrow> (string \<times> nat \<times> varg list) option" where
  "uconv digits c0 rest args =
     (let c1 = (if c0 \<noteq> CHR 0x00 then c_at rest else CHR 0x00);
          c2 = (if c1 \<noteq> CHR 0x00 then c_at (tl rest) else CHR 0x00) in
      if c0 = CHR ''d'' then reg_out args (\<lambda>x. printint digits (int_arg x) 10 True) 0
      else if c0 = CHR ''l'' \<and> c1 = CHR ''d'' then reg_out args (\<lambda>x. printint digits (sint x) 10 True) 1
      else if c0 = CHR ''l'' \<and> c1 = CHR ''l'' \<and> c2 = CHR ''d'' then reg_out args (\<lambda>x. printint digits (sint x) 10 True) 2
      else if c0 = CHR ''u'' then reg_out args (\<lambda>x. printint digits (uint_arg x) 10 False) 0
      else if c0 = CHR ''l'' \<and> c1 = CHR ''u'' then reg_out args (\<lambda>x. printint digits (sint x) 10 False) 1
      else if c0 = CHR ''l'' \<and> c1 = CHR ''l'' \<and> c2 = CHR ''u'' then reg_out args (\<lambda>x. printint digits (sint x) 10 False) 2
      else if c0 = CHR ''x'' then reg_out args (\<lambda>x. printint digits (uint_arg x) 16 False) 0
      else if c0 = CHR ''l'' \<and> c1 = CHR ''x'' then reg_out args (\<lambda>x. printint digits (sint x) 16 False) 1
      else if c0 = CHR ''l'' \<and> c1 = CHR ''l'' \<and> c2 = CHR ''x'' then reg_out args (\<lambda>x. printint digits (sint x) 16 False) 2
      else if c0 = CHR ''p'' then reg_out args (printptr digits) 0
      else if c0 = CHR ''c'' then reg_out args (\<lambda>x. [char_of (unat x)]) 0
      else if c0 = CHR ''s'' then
        (case va_str args of None \<Rightarrow> None | Some (None, args') \<Rightarrow> Some (''(null)'', 0, args') | Some (Some s, args') \<Rightarrow> Some (s, 0, args'))
      else if c0 = CHR ''%'' then Some (''%'', 0, args)
      else Some ([CHR ''%'', c0], 0, args))"

function vprintf_loop :: "string \<Rightarrow> bool \<Rightarrow> string \<Rightarrow> varg list \<Rightarrow> string option" where
  "vprintf_loop digits percent [] args = Some []"
| "vprintf_loop digits percent (c0 # rest) args =
     (if \<not> percent then
        if c0 = CHR ''%'' then vprintf_loop digits True rest args
        else map_option ((#) c0) (vprintf_loop digits False rest args)
      else (case uconv digits c0 rest args of None \<Rightarrow> None
            | Some (out, k, args') \<Rightarrow> map_option ((@) out) (vprintf_loop digits False (drop k rest) args')))"
  by pat_completeness auto
termination
  by (relation "measure (\<lambda>(d, p, fmt, args). length fmt)") auto

definition vprintf :: "string \<Rightarrow> varg list \<Rightarrow> string option" where
  "vprintf fmt args = vprintf_loop udigits False fmt args"

section \<open>What they print\<close>

lemma uconv_kconv: "uconv digits c0 rest args = kconv digits c0 rest args"
  by (simp add: uconv_def kconv_def Let_def)

lemma vprintf_loop_eq: "vprintf_loop digits False fmt args = kprintf_loop digits fmt args"
proof (induction digits fmt args rule: kprintf_loop.induct)
  case (2 digits cx fmt args)
  show ?case
  proof (cases "cx = CHR ''%''")
    case False
    then show ?thesis using 2(1) by simp
  next
    case True
    then show ?thesis
      using 2(2) by (cases fmt) (auto simp: uconv_kconv split: option.splits)
  qed
qed simp

lemma length_store_digits:
  "1 < base \<Longrightarrow> x < base ^ Suc k \<Longrightarrow> length (store_digits digits base x) \<le> Suc k"
proof (induction k arbitrary: x)
  case 0
  then show ?case by (subst store_digits.simps) simp
next
  case (Suc k)
  have "x div base < base ^ Suc k" using Suc.prems by (simp add: div_less_iff_less_mult mult.commute)
  then show ?case using Suc.IH [of "x div base"] Suc.prems(1) by (subst store_digits.simps) simp
qed

lemma printint_length:
  assumes "base = 10 \<or> base = 16" "- (2 ^ 63) \<le> xx" "xx < 2 ^ 63"
  shows "length (printint digits xx base sgnd) \<le> 20"
proof (cases "sgnd \<and> xx < 0")
  case False
  have "unat (of_int xx :: uint64) < 2 ^ 64" using unsigned_less [of "of_int xx :: uint64"] by simp
  then have "unat (of_int xx :: uint64) < base ^ Suc 19" using assms(1) by auto
  then have "length (store_digits digits base (unat (of_int xx :: uint64))) \<le> Suc 19"
    using assms(1) by (intro length_store_digits) auto
  then show ?thesis using False by (auto simp: printint_def Let_def)
next
  case True
  have "uint (of_int (- xx) :: uint64) = - xx"
    using True assms(2) by (simp only: uint_word_of_int_eq) (simp add: take_bit_int_eq_self_iff)
  then have "int (unat (of_int (- xx) :: uint64)) = - xx" by (simp only: uint_nat)
  then have "int (unat (of_int (- xx) :: uint64)) \<le> 2 ^ 63" using assms(2) by linarith
  then have "unat (of_int (- xx) :: uint64) \<le> 2 ^ 63" by (metis of_nat_le_iff of_nat_numeral of_nat_power)
  then have "unat (of_int (- xx) :: uint64) < base ^ Suc 18" using assms(1) by auto
  then have "length (store_digits digits base (unat (of_int (- xx) :: uint64))) \<le> Suc 18"
    using assms(1) by (intro length_store_digits) auto
  then show ?thesis using True by (simp add: printint_def Let_def)
qed

definition is_digit :: "uint8 \<Rightarrow> bool" where
  "is_digit c \<longleftrightarrow> 48 \<le> c \<and> c \<le> 57"

lemma atoi_loop_append: "\<forall>c \<in> set xs. is_digit c \<Longrightarrow> atoi_loop n (xs @ ys) = atoi_loop (atoi_loop n xs) ys"
  by (induction xs arbitrary: n) (auto simp: is_digit_def)

lemma digit_char:
  assumes "d < 10" "digits \<in> {kdigits, udigits}"
  shows "is_digit (of_char (digits ! d))" "(ucast (of_char (digits ! d) :: uint8) :: uint32) - 48 = of_nat d"
proof -
  have "d \<in> {0, 1, 2, 3, 4, 5, 6, 7, 8, 9}" using assms(1) by auto
  then show "is_digit (of_char (digits ! d))" "(ucast (of_char (digits ! d) :: uint8) :: uint32) - 48 = of_nat d"
    using assms(2) by (auto simp: kdigits_def udigits_def is_digit_def)
qed

lemma atoi_store_digits:
  assumes "digits \<in> {kdigits, udigits}"
  shows "(\<forall>c \<in> set (map of_char (rev (store_digits digits 10 x))). is_digit c) \<and>
    atoi_loop 0 (map of_char (rev (store_digits digits 10 x))) = of_nat x"
proof (induction x rule: less_induct)
  case (less x)
  note d = digit_char [OF _ assms, of "x mod 10"]
  show ?case
  proof (cases "x div 10 = 0")
    case True
    then have "x = x mod 10" by simp
    then show ?thesis using d True by (subst (1 2) store_digits.simps) (auto simp: is_digit_def)
  next
    case False
    then have "x div 10 < x" by auto
    note ih = less [OF this]
    have w: "of_nat x = of_nat (x div 10) * 10 + (of_nat (x mod 10) :: uint32)"
      by (metis div_mult_mod_eq of_nat_add of_nat_mult of_nat_numeral)
    have "rev (store_digits digits 10 x) = rev (store_digits digits 10 (x div 10)) @ [digits ! (x mod 10)]"
      using False by (subst store_digits.simps) simp
    then show ?thesis
      using ih d w by (auto simp: atoi_loop_append is_digit_def add_diff_eq [symmetric])
  qed
qed

section \<open>Properties\<close>




end
