(* ===== verification/Grep.thy ===== *)
theory Grep
  imports Cstring
begin

text \<open>
  \<^verbatim>\<open>user/grep.c\<close>: the matcher for the operators \<^verbatim>\<open>^ . * $\<close> and the loop that reads a file into
  a buffer and prints the matching lines.  A string is the list of its bytes before the NUL.
\<close>

section \<open>The matcher\<close>

abbreviation STAR :: uint8 where "STAR \<equiv> 42"
abbreviation DOT :: uint8 where "DOT \<equiv> 46"
abbreviation DOLLAR :: uint8 where "DOLLAR \<equiv> 36"
abbreviation CARET :: uint8 where "CARET \<equiv> 94"
abbreviation NEWLINE :: uint8 where "NEWLINE \<equiv> 10"

function matchhere :: "uint8 list \<Rightarrow> uint8 list \<Rightarrow> bool"
  and matchstar :: "uint8 \<Rightarrow> uint8 list \<Rightarrow> uint8 list \<Rightarrow> bool" where
  "matchhere re tx =
     (case re of [] \<Rightarrow> True
      | c # re1 \<Rightarrow>
          if hd0 re1 = STAR then matchstar c (tl re1) tx
          else if c = DOLLAR \<and> re1 = [] then tx = []
          else if tx \<noteq> [] \<and> (c = DOT \<or> c = hd0 tx) then matchhere re1 (tl tx)
          else False)"
| "matchstar c re tx =
     (if matchhere re tx then True
      else if tx \<noteq> [] \<and> (hd0 tx = c \<or> c = DOT) then matchstar c re (tl tx)
      else False)"
  by pat_completeness auto
termination
  by (relation "measures [\<lambda>x. case x of Inl (re, t) \<Rightarrow> 2 * length re | Inr (c, re, t) \<Rightarrow> 2 * length re + 1,
      \<lambda>x. case x of Inl (re, t) \<Rightarrow> length t | Inr (c, re, t) \<Rightarrow> length t]")
    (auto simp: hd0_def split: list.splits)

declare matchhere.simps [simp del] matchstar.simps [simp del]

fun match_from :: "uint8 list \<Rightarrow> uint8 list \<Rightarrow> bool" where
  "match_from re [] = matchhere re []"
| "match_from re (t # tx) = (if matchhere re (t # tx) then True else match_from re tx)"

definition match :: "uint8 list \<Rightarrow> uint8 list \<Rightarrow> bool" where
  "match re tx = (if hd0 re = CARET then matchhere (tl re) tx else match_from re tx)"

section \<open>The loop over a file\<close>

text \<open>
  The lines of the buffer from \<open>p\<close> on: what is printed, and the rest without a newline.
\<close>

function scan_lines :: "uint8 list \<Rightarrow> uint8 list \<Rightarrow> uint8 list \<times> uint8 list" where
  "scan_lines pattern p =
     (case strchr p NEWLINE of
        None \<Rightarrow> ([], p)
      | Some k \<Rightarrow>
          let (out, rest) = scan_lines pattern (drop (k + 1) p)
          in ((if match pattern (take k p) then take k p @ [NEWLINE] else []) @ out, rest))"
  by pat_completeness auto
termination
proof (relation "measure (\<lambda>(pattern, p). length p)")
  fix p :: "uint8 list" and pattern :: "uint8 list" and k assume "strchr p NEWLINE = Some k"
  then have "p \<noteq> []" by auto
  then show "((pattern, drop (k + 1) p), (pattern, p)) \<in> measure (\<lambda>(pattern, p). length p)" by simp
qed simp

declare scan_lines.simps [simp del]

text \<open>
  \<open>reads\<close> are the results of the successive calls \<^verbatim>\<open>read(fd, buf+m, sizeof(buf)-m-1)\<close>, the empty one
  at the end of the file; \<open>buf\<close> is what is left in the buffer from before.
\<close>

fun grep :: "uint8 list \<Rightarrow> uint8 list \<Rightarrow> uint8 list list \<Rightarrow> uint8 list" where
  "grep pattern buf [] = []"
| "grep pattern buf (r # reads) =
     (if r = [] then []
      else let (out, rest) = scan_lines pattern (buf @ r) in out @ grep pattern rest reads)"

section \<open>Languages of patterns\<close>

text \<open>
  A pattern is a sequence of items: a character, any character, and their repetitions, with an
  end mark last.
\<close>

datatype item = One uint8 | Many uint8 | AtEnd

fun items :: "uint8 list \<Rightarrow> item list" where
  "items [] = []"
| "items [c] = (if c = DOLLAR then [AtEnd] else [One c])"
| "items (c # d # re) = (if d = STAR then Many c # items re else One c # items (d # re))"

definition accepts :: "uint8 \<Rightarrow> uint8 \<Rightarrow> bool" where
  "accepts c t \<longleftrightarrow> c = DOT \<or> c = t"

inductive denotes :: "item list \<Rightarrow> uint8 list \<Rightarrow> uint8 list \<Rightarrow> bool" where
  Empty: "denotes [] [] rest"
| Item: "accepts c t \<Longrightarrow> denotes is p rest \<Longrightarrow> denotes (One c # is) (t # p) rest"
| Repeat: "(\<forall>t \<in> set ts. accepts c t) \<Longrightarrow> denotes is p rest \<Longrightarrow> denotes (Many c # is) (ts @ p) rest"
| End: "denotes is p [] \<Longrightarrow> denotes (AtEnd # is) p []"

inductive_cases denotes_NilE: "denotes [] p rest"
inductive_cases denotes_OneE: "denotes (One c # is) p rest"
inductive_cases denotes_ManyE: "denotes (Many c # is) p rest"
inductive_cases denotes_EndE: "denotes (AtEnd # is) p rest"

inductive_simps denotes_Nil [simp]: "denotes [] p rest"

lemma denotes_One_iff: "(\<exists>p rest. tx = p @ rest \<and> denotes (One c # is) p rest) \<longleftrightarrow>
    tx \<noteq> [] \<and> accepts c (hd tx) \<and> (\<exists>p rest. tl tx = p @ rest \<and> denotes is p rest)"
proof (cases tx)
  case Nil
  then show ?thesis by (auto elim: denotes_OneE)
next
  case (Cons t tx')
  have "\<exists>q r. t # p @ rest = q @ r \<and> denotes (One c # is) q r" if "accepts c t" "denotes is p rest" for p rest
    using denotes.Item [OF that] by (intro exI [of _ "t # p"] exI [of _ rest]) simp
  then show ?thesis using Cons by (auto elim!: denotes_OneE) blast
qed

lemma denotes_Many_iff: "(\<exists>p rest. tx = p @ rest \<and> denotes (Many c # is) p rest) \<longleftrightarrow>
    (\<exists>p rest. tx = p @ rest \<and> denotes is p rest) \<or>
    tx \<noteq> [] \<and> accepts c (hd tx) \<and> (\<exists>p rest. tl tx = p @ rest \<and> denotes (Many c # is) p rest)" (is "?l = ?r")
proof
  assume ?l
  then obtain ts p rest where t: "tx = (ts @ p) @ rest" "\<forall>t \<in> set ts. accepts c t" "denotes is p rest"
    by (auto elim!: denotes_ManyE)
  then show ?r
  proof (cases ts)
    case (Cons u us)
    then have "denotes (Many c # is) (us @ p) rest" using t(2,3) by (intro denotes.Repeat) auto
    then show ?thesis using t Cons by auto
  qed auto
next
  assume ?r
  then show ?l
  proof (elim disjE conjE exE)
    fix p rest assume "tx = p @ rest" "denotes is p rest"
    then show ?l using denotes.Repeat [of "[]" c "is" p rest] by auto
  next
    fix p rest assume a: "tx \<noteq> []" "accepts c (hd tx)" "tl tx = p @ rest" "denotes (Many c # is) p rest"
    then obtain ts q where "p = ts @ q" "\<forall>t \<in> set ts. accepts c t" "denotes is q rest" by (auto elim!: denotes_ManyE)
    then have "denotes (Many c # is) ((hd tx # ts) @ q) rest" using a(2) by (intro denotes.Repeat) auto
    moreover have "tx = ((hd tx # ts) @ q) @ rest" using a(1,3) \<open>p = ts @ q\<close> by (cases tx) auto
    ultimately show ?l by blast
  qed
qed

lemma matcher_spec:
  "matchhere re tx \<longleftrightarrow> (\<exists>p rest. tx = p @ rest \<and> denotes (items re) p rest)"
  "matchstar c re tx \<longleftrightarrow> (\<exists>p rest. tx = p @ rest \<and> denotes (Many c # items re) p rest)"
proof (induction re tx and c re tx rule: matchhere_matchstar.induct)
  case (1 re tx)
  consider "re = []" | c where "re = [c]" | c d re' where "re = c # d # re'" by (metis list.exhaust)
  then show ?case
  proof cases
    case 1
    then show ?thesis by (simp add: matchhere.simps)
  next
    case 2
    have e: "hd0 [] \<noteq> STAR" by simp
    show ?thesis
    proof (cases "c = DOLLAR")
      case True
      have "denotes [AtEnd] p rest \<longleftrightarrow> p = [] \<and> rest = []" for p rest
        by (auto elim: denotes_EndE intro: denotes.End denotes.Empty)
      then show ?thesis using 2 True by (auto simp: matchhere.simps [of "[DOLLAR]"])
    next
      case False
      have s: "matchhere [] (tl tx)" by (simp add: matchhere.simps)
      have "(\<exists>p rest. tx = p @ rest \<and> denotes [One c] p rest) \<longleftrightarrow> tx \<noteq> [] \<and> accepts c (hd tx)"
        unfolding denotes_One_iff by simp
      moreover have "matchhere [c] tx \<longleftrightarrow> tx \<noteq> [] \<and> accepts c (hd tx)"
        using False s by (cases tx) (simp_all add: matchhere.simps [of "[c]"] accepts_def)
      ultimately show ?thesis using 2 False by simp
    qed
  next
    case 3
    show ?thesis
    proof (cases "d = STAR")
      case True
      then show ?thesis using 3 "1.IH"(1) [of c "d # re'"] by (simp add: matchhere.simps [of "c # STAR # re'"])
    next
      case False
      have "(\<exists>p rest. tx = p @ rest \<and> denotes (One c # items (d # re')) p rest) \<longleftrightarrow>
          tx \<noteq> [] \<and> accepts c (hd tx) \<and> (\<exists>p rest. tl tx = p @ rest \<and> denotes (items (d # re')) p rest)"
        by (rule denotes_One_iff)
      moreover have "matchhere re tx \<longleftrightarrow> tx \<noteq> [] \<and> accepts c (hd tx) \<and> matchhere (d # re') (tl tx)"
        using 3 False by (cases tx) (simp_all add: matchhere.simps [of "c # d # re'"] accepts_def)
      moreover have "tx \<noteq> [] \<Longrightarrow> accepts c (hd tx) \<Longrightarrow>
          matchhere (d # re') (tl tx) \<longleftrightarrow> (\<exists>p rest. tl tx = p @ rest \<and> denotes (items (d # re')) p rest)"
        using 3 False "1.IH"(2) [of c "d # re'"] by (cases tx) (simp_all add: accepts_def)
      ultimately show ?thesis using 3 False by auto
    qed
  qed
next
  case (2 c re tx)
  have m: "(\<exists>p rest. tx = p @ rest \<and> denotes (Many c # items re) p rest) \<longleftrightarrow> matchhere re tx \<or>
      tx \<noteq> [] \<and> accepts c (hd tx) \<and> (\<exists>p rest. tl tx = p @ rest \<and> denotes (Many c # items re) p rest)"
    using denotes_Many_iff [of tx c "items re"] "2.IH"(1) by simp
  show ?case
  proof (cases "matchhere re tx")
    case True
    then show ?thesis using m by (simp add: matchstar.simps [of c])
  next
    case False
    then show ?thesis
      using m "2.IH"(2) by (cases tx) (auto simp: matchstar.simps [of c] accepts_def)
  qed
qed

lemma match_from_iff: "match_from re tx \<longleftrightarrow> (\<exists>u v. tx = u @ v \<and> matchhere re v)"
proof (induction tx)
  case (Cons t tx)
  have "(\<exists>u v. t # tx = u @ v \<and> matchhere re v) \<longleftrightarrow> matchhere re (t # tx) \<or> (\<exists>u v. tx = u @ v \<and> matchhere re v)"
    by (auto simp: Cons_eq_append_conv)
  then show ?case using Cons by simp
qed auto

section \<open>Lines\<close>

lemma strchr_Some: "strchr p c = Some k \<Longrightarrow> k < length p \<and> p ! k = c \<and> c \<notin> set (take k p) \<and> 0 \<notin> set (take k p)"
proof (induction p arbitrary: k)
  case (Cons x p)
  then show ?case by (cases k) (auto split: if_splits)
qed simp

lemma strchr_None: "strchr p c = None \<Longrightarrow> 0 \<notin> set p \<Longrightarrow> c \<notin> set p"
  by (induction p) (auto split: if_splits)

lemma strchr_append: "c \<notin> set p \<Longrightarrow> 0 \<notin> set p \<Longrightarrow> c \<noteq> 0 \<Longrightarrow> strchr (p @ c # q) c = Some (length p)"
  by (induction p) auto

text \<open>The complete lines of a text without their newlines, and the incomplete last one.\<close>

fun split_lines :: "uint8 list \<Rightarrow> uint8 list \<Rightarrow> uint8 list list \<times> uint8 list" where
  "split_lines acc [] = ([], acc)"
| "split_lines acc (c # cs) =
     (if c = NEWLINE then (let (ls, rest) = split_lines [] cs in (acc # ls, rest)) else split_lines (acc @ [c]) cs)"

definition print_matches :: "uint8 list \<Rightarrow> uint8 list list \<Rightarrow> uint8 list" where
  "print_matches re ls = concat (map (\<lambda>l. l @ [NEWLINE]) (filter (match re) ls))"

lemma split_lines_line: "NEWLINE \<notin> set l \<Longrightarrow> split_lines acc (l @ NEWLINE # cs) = (let (ls, rest) = split_lines [] cs in ((acc @ l) # ls, rest))"
  by (induction l arbitrary: acc) (auto split: prod.splits)

lemma split_lines_rest: "NEWLINE \<notin> set l \<Longrightarrow> split_lines acc l = ([], acc @ l)"
  by (induction l arbitrary: acc) auto

lemma split_lines_append:
  "split_lines acc (xs @ ys) = (let (ls, rest) = split_lines acc xs; (ls', rest') = split_lines rest ys in (ls @ ls', rest'))"
  by (induction acc xs rule: split_lines.induct) (auto split: prod.splits)

lemma split_lines_acc: "NEWLINE \<notin> set b \<Longrightarrow> split_lines [] (b @ r) = split_lines b r"
  by (subst split_lines_append) (simp add: split_lines_rest)

lemma scan_lines_spec:
  assumes "0 \<notin> set p"
  shows "scan_lines re p = (print_matches re (fst (split_lines [] p)), snd (split_lines [] p))"
  using assms
proof (induction "length p" arbitrary: p rule: less_induct)
  case less
  show ?case
  proof (cases "strchr p NEWLINE")
    case None
    then have "split_lines [] p = ([], p)" using strchr_None [OF None less.prems] split_lines_rest [of p "[]"] by simp
    then show ?thesis using None by (simp add: scan_lines.simps [of _ p] print_matches_def)
  next
    case (Some k)
    note k = strchr_Some [OF Some]
    have p: "p = take k p @ NEWLINE # drop (k + 1) p" using k by (metis Suc_eq_plus1 id_take_nth_drop)
    have "split_lines [] p = (let (ls, rest) = split_lines [] (drop (k + 1) p) in (take k p # ls, rest))"
      using split_lines_line [of "take k p" "[]" "drop (k + 1) p"] k p by simp
    moreover have "scan_lines re (drop (k + 1) p) = (print_matches re (fst (split_lines [] (drop (k + 1) p))), snd (split_lines [] (drop (k + 1) p)))"
      by (rule less.hyps) (use k less.prems in \<open>auto dest: in_set_dropD\<close>)
    ultimately show ?thesis
      using Some by (auto simp: scan_lines.simps [of _ p] print_matches_def split: prod.splits)
  qed
qed

lemma split_lines_rest_clean: "NEWLINE \<notin> set acc \<Longrightarrow> NEWLINE \<notin> set (snd (split_lines acc cs)) \<and> set (snd (split_lines acc cs)) \<subseteq> set acc \<union> set cs"
  by (induction acc cs rule: split_lines.induct) (auto split: prod.splits)

lemma grep_spec:
  assumes "\<forall>r \<in> set reads. r \<noteq> []" "0 \<notin> set (buf @ concat reads)" "NEWLINE \<notin> set buf"
  shows "grep re buf reads = print_matches re (fst (split_lines buf (concat reads)))"
  using assms
proof (induction re buf reads rule: grep.induct)
  case (1 re buf)
  then show ?case by (simp add: print_matches_def)
next
  case (2 re buf r reads)
  obtain ls rest where s: "split_lines buf r = (ls, rest)" by fastforce
  have sc: "scan_lines re (buf @ r) = (print_matches re ls, rest)"
    using scan_lines_spec [of "buf @ r" re] 2(3,4) split_lines_acc [of buf r] s by simp
  have rest: "NEWLINE \<notin> set rest" "0 \<notin> set (rest @ concat reads)"
    using split_lines_rest_clean [of buf r] 2(3,4) s by auto
  have "grep re rest reads = print_matches re (fst (split_lines rest (concat reads)))"
    by (rule 2(1) [of "(print_matches re ls, rest)" "print_matches re ls"]) (use 2(2) sc rest in auto)
  then show ?case
    using 2(2) sc s by (auto simp: split_lines_append print_matches_def split: prod.splits)
qed

section \<open>Properties\<close>

text \<open>
  C27: the recursive matcher decides the language of the pattern: a pattern that starts with \<^verbatim>\<open>^\<close>
  matches when a prefix of the text is in the language of the rest of the pattern, any other when
  some part of the text is; \<^verbatim>\<open>$\<close> at the end requires the end of the text.  The matcher returns for
  every pattern and text.
\<close>

theorem match_decides_pattern:
  "match re tx \<longleftrightarrow> (if hd0 re = CARET then \<exists>p rest. tx = p @ rest \<and> denotes (items (tl re)) p rest
     else \<exists>u p rest. tx = u @ p @ rest \<and> denotes (items re) p rest)"
  unfolding match_def match_from_iff matcher_spec by auto



end
