(* ===== verification/Fcntl.thy ===== *)
theory Fcntl
  imports Prelude
begin

text \<open>
  The modes of \<^verbatim>\<open>open\<close>, \<^verbatim>\<open>kernel/fcntl.h\<close>, shared by the shell and the system calls.
\<close>

definition O_RDONLY :: int where "O_RDONLY = 0"
definition O_WRONLY :: int where "O_WRONLY = 1"
definition O_RDWR :: int where "O_RDWR = 2"
definition O_CREATE :: int where "O_CREATE = 512"
definition O_TRUNC :: int where "O_TRUNC = 1024"

end
