(* ===== verification/Shell.thy ===== *)
theory Shell
  imports Fcntl
begin

text \<open>
  The parser of the shell, \<^verbatim>\<open>user/sh.c\<close>.  The pointer \<^verbatim>\<open>*ps\<close> into the command line is the rest of the
  line from it on, so the end of the list is \<^verbatim>\<open>es\<close> and the NUL there.  A word, which the parser keeps
  as two pointers and \<^verbatim>\<open>nulterminate\<close> later ends with a NUL, is the list of its characters.
  The shell's \<^verbatim>\<open>panic\<close> prints its message and exits.  The recursive functions take fuel; the
  proofs show how much is enough for every line.
\<close>

section \<open>Commands\<close>

definition MAXARGS :: nat where "MAXARGS = 10"

datatype cmd =
    EXEC "string list"
  | REDIR cmd string int int
  | PIPE cmd cmd
  | LIST cmd cmd
  | BACK cmd

text \<open>The constructors of \<^verbatim>\<open>sh.c\<close>; that \<^verbatim>\<open>malloc\<close> may fail is not modelled.\<close>

definition execcmd :: cmd where [simp]: "execcmd = EXEC []"
definition redircmd :: "cmd \<Rightarrow> string \<Rightarrow> int \<Rightarrow> int \<Rightarrow> cmd" where
  [simp]: "redircmd subcmd f mode fd = REDIR subcmd f mode fd"
definition pipecmd :: "cmd \<Rightarrow> cmd \<Rightarrow> cmd" where [simp]: "pipecmd left right = PIPE left right"
definition listcmd :: "cmd \<Rightarrow> cmd \<Rightarrow> cmd" where [simp]: "listcmd left right = LIST left right"
definition backcmd :: "cmd \<Rightarrow> cmd" where [simp]: "backcmd subcmd = BACK subcmd"

datatype 'a parse = NoFuel | Exit string | Parsed 'a string

definition pbind :: "'a parse \<Rightarrow> ('a \<Rightarrow> string \<Rightarrow> 'b parse) \<Rightarrow> 'b parse" where
  "pbind p f = (case p of NoFuel \<Rightarrow> NoFuel | Exit e \<Rightarrow> Exit e | Parsed x s \<Rightarrow> f x s)"

section \<open>Tokens\<close>

definition whitespace :: string where "whitespace = [CHR '' '', CHR 0x09, CHR 0x0D, CHR 0x0A, CHR 0x0B]"
definition symbols :: string where "symbols = ''<|>&;()''"

definition skip_white :: "string \<Rightarrow> string" where
  "skip_white s = dropWhile (\<lambda>c. c \<in> set whitespace) s"

definition word_char :: "char \<Rightarrow> bool" where
  "word_char c \<longleftrightarrow> c \<notin> set whitespace \<and> c \<notin> set symbols"

text \<open>The token, its text from \<^verbatim>\<open>*q\<close> to \<^verbatim>\<open>*eq\<close>, and the rest of the line.\<close>

definition gettoken :: "string \<Rightarrow> char \<times> string \<times> string" where
  "gettoken s0 =
     (case skip_white s0 of
        [] \<Rightarrow> (CHR 0x00, [], [])
      | c # s \<Rightarrow>
          if c \<in> set ''|();&<'' then (c, [c], skip_white s)
          else if c = CHR ''>'' then
            (case s of
               d # s' \<Rightarrow> if d = CHR ''>'' then (CHR ''+'', [c, d], skip_white s') else (c, [c], skip_white s)
             | [] \<Rightarrow> (c, [c], skip_white s))
          else (CHR ''a'', takeWhile word_char (c # s), skip_white (dropWhile word_char (c # s))))"

definition peek :: "string \<Rightarrow> string \<Rightarrow> bool \<times> string" where
  "peek s0 toks = (let s = skip_white s0 in (case s of [] \<Rightarrow> False | c # _ \<Rightarrow> c \<in> set toks, s))"

section \<open>The grammar\<close>

fun parseredirs :: "nat \<Rightarrow> cmd \<Rightarrow> string \<Rightarrow> cmd parse" where
  "parseredirs 0 cmd s = NoFuel"
| "parseredirs (Suc n) cmd s =
     (let (b, s) = peek s ''<>'' in
      if \<not> b then Parsed cmd s
      else let (tok, _, s) = gettoken s; (tok2, file, s) = gettoken s in
        if tok2 \<noteq> CHR ''a'' then Exit ''missing file for redirection''
        else parseredirs n
          (if tok = CHR ''<'' then redircmd cmd file O_RDONLY 0
           else if tok = CHR ''>'' then redircmd cmd file (O_WRONLY + O_CREATE + O_TRUNC) 1
           else if tok = CHR ''+'' then redircmd cmd file (O_WRONLY + O_CREATE) 1
           else cmd) s)"

text \<open>
  The words of a command.  \<^verbatim>\<open>cmd\<close> points into the innermost node of \<^verbatim>\<open>ret\<close>: a new word is added there,
  under the redirections parsed so far.
\<close>

fun add_arg :: "string \<Rightarrow> cmd \<Rightarrow> cmd" where
  "add_arg w (EXEC argv) = EXEC (argv @ [w])"
| "add_arg w (REDIR c file mode fd) = REDIR (add_arg w c) file mode fd"
| "add_arg w c = c"

fun parseargs :: "nat \<Rightarrow> nat \<Rightarrow> cmd \<Rightarrow> string \<Rightarrow> cmd parse" where
  "parseargs 0 argc ret s = NoFuel"
| "parseargs (Suc n) argc ret s =
     (let (b, s) = peek s ''|)&;'' in
      if b then Parsed ret s
      else let (tok, w, s) = gettoken s in
        if tok = CHR 0x00 then Parsed ret s
        else if tok \<noteq> CHR ''a'' then Exit ''syntax''
        else if argc + 1 \<ge> MAXARGS then Exit ''too many args''
        else pbind (parseredirs n (add_arg w ret) s) (parseargs n (argc + 1)))"

fun amps :: "nat \<Rightarrow> cmd \<Rightarrow> string \<Rightarrow> cmd parse" where
  "amps 0 cmd s = NoFuel"
| "amps (Suc n) cmd s =
     (let (b, s) = peek s ''&'' in
      if b then let (_, _, s) = gettoken s in amps n (backcmd cmd) s else Parsed cmd s)"

fun parseline :: "nat \<Rightarrow> string \<Rightarrow> cmd parse"
  and parsepipe :: "nat \<Rightarrow> string \<Rightarrow> cmd parse"
  and parseexec :: "nat \<Rightarrow> string \<Rightarrow> cmd parse"
  and parseblock :: "nat \<Rightarrow> string \<Rightarrow> cmd parse" where
  "parseline 0 s = NoFuel"
| "parseline (Suc n) s =
     pbind (parsepipe n s) (\<lambda>cmd s. pbind (amps n cmd s) (\<lambda>cmd s.
       let (b, s) = peek s '';'' in
       if b then let (_, _, s) = gettoken s in pbind (parseline n s) (\<lambda>cmd2 s. Parsed (listcmd cmd cmd2) s)
       else Parsed cmd s))"
| "parsepipe 0 s = NoFuel"
| "parsepipe (Suc n) s =
     pbind (parseexec n s) (\<lambda>cmd s.
       let (b, s) = peek s ''|'' in
       if b then let (_, _, s) = gettoken s in pbind (parsepipe n s) (\<lambda>cmd2 s. Parsed (pipecmd cmd cmd2) s)
       else Parsed cmd s)"
| "parseexec 0 s = NoFuel"
| "parseexec (Suc n) s =
     (let (b, s) = peek s ''('' in
      if b then parseblock n s
      else pbind (parseredirs n execcmd s) (parseargs n 0))"
| "parseblock 0 s = NoFuel"
| "parseblock (Suc n) s =
     (let (b, s) = peek s ''('' in
      if \<not> b then Exit ''parseblock''
      else let (_, _, s) = gettoken s in
        pbind (parseline n s) (\<lambda>cmd s.
          let (b, s) = peek s '')'' in
          if \<not> b then Exit ''syntax - missing )''
          else let (_, _, s) = gettoken s in parseredirs n cmd s))"

definition parsecmd :: "nat \<Rightarrow> string \<Rightarrow> cmd parse" where
  "parsecmd n s =
     pbind (parseline n s) (\<lambda>cmd s.
       let (_, s) = peek s '''' in if s \<noteq> [] then Exit ''syntax'' else Parsed cmd s)"

section \<open>Progress of the tokens\<close>

lemma skip_white_length: "length (skip_white s) \<le> length s"
  by (simp add: skip_white_def length_dropWhile_le)

lemma skip_white_idem [simp]: "skip_white (skip_white s) = skip_white s"
  by (simp add: skip_white_def dropWhile_idem)

lemma skip_white_hd: "skip_white s = c # r \<Longrightarrow> c \<notin> set whitespace"
  unfolding skip_white_def by (metis hd_dropWhile list.distinct(1) list.sel(1))

lemma word_char_default:
  assumes "skip_white s = c # r" "c \<notin> set ''|();&<''" "c \<noteq> CHR ''>''"
  shows "word_char c"
  using skip_white_hd [OF assms(1)] assms(2,3) by (auto simp: word_char_def symbols_def)

lemma gettoken_length: "gettoken s = (tok, w, r) \<Longrightarrow> length r \<le> length s \<and> (skip_white s \<noteq> [] \<longrightarrow> length r < length s)"
proof -
  assume g: "gettoken s = (tok, w, r)"
  show ?thesis
  proof (cases "skip_white s")
    case Nil
    then show ?thesis using g by (simp add: gettoken_def)
  next
    case (Cons c t)
    have l: "Suc (length t) \<le> length s" using skip_white_length [of s] Cons by simp
    have "length r \<le> length t"
    proof (cases "c \<in> set ''|();&<'' \<or> c = CHR ''>''")
      case True
      then show ?thesis
        using g Cons skip_white_length [of t] skip_white_length [of "tl t"]
        by (auto simp: gettoken_def split: if_splits list.splits intro: le_trans)
    next
      case False
      then have "word_char c" using word_char_default [OF Cons] by blast
      then have "r = skip_white (dropWhile word_char t)" using g Cons False by (auto simp: gettoken_def)
      then show ?thesis using skip_white_length [of "dropWhile word_char t"] length_dropWhile_le [of word_char t] by simp
    qed
    then show ?thesis using l by simp
  qed
qed

lemma peek_length: "peek s toks = (b, r) \<Longrightarrow> r = skip_white s \<and> length r \<le> length s \<and> (b \<longrightarrow> r \<noteq> [])"
  using skip_white_length [of s] by (auto simp: peek_def Let_def split: list.splits)

section \<open>Every line is parsed with bounded fuel\<close>

text \<open>\<open>ends n p s\<close>: the parse \<open>p\<close> of \<open>s\<close> did not run out of fuel and leaves no more than \<open>s\<close> to parse.\<close>

definition ends :: "'a parse \<Rightarrow> string \<Rightarrow> bool" where
  "ends p s \<longleftrightarrow> p \<noteq> NoFuel \<and> (\<forall>x r. p = Parsed x r \<longrightarrow> length r \<le> length s)"

lemma ends_simps [simp]: "ends (Exit e) s" "ends (Parsed x r) s \<longleftrightarrow> length r \<le> length s"
  by (auto simp: ends_def)

lemma ends_weaken: "ends p s \<Longrightarrow> length s \<le> length s' \<Longrightarrow> ends p s'"
  by (auto simp: ends_def)

lemma ends_pbind:
  assumes "ends p s" "\<And>x r. p = Parsed x r \<Longrightarrow> length r \<le> length s \<Longrightarrow> ends (f x r) s"
  shows "ends (pbind p f) s"
  using assms by (cases p) (auto simp: pbind_def ends_def)

lemma peek_cases:
  obtains b where "peek s toks = (b, skip_white s)" "b \<Longrightarrow> skip_white s \<noteq> []" "length (skip_white s) \<le> length s"
  using peek_length [of s toks] by (metis prod.exhaust)

lemma parseredirs_ends: "length s < n \<Longrightarrow> ends (parseredirs n cmd s) s"
proof (induction n arbitrary: cmd s)
  case (Suc n)
  obtain b where p: "peek s ''<>'' = (b, skip_white s)" "b \<Longrightarrow> skip_white s \<noteq> []" "length (skip_white s) \<le> length s" by (rule peek_cases [of s "''<>''"]) blast
  obtain tok w s1 where g1: "gettoken (skip_white s) = (tok, w, s1)" by (metis prod_cases3)
  obtain tok2 fl s2 where g2: "gettoken s1 = (tok2, fl, s2)" by (metis prod_cases3)
  show ?case
  proof (cases "b \<and> tok2 = CHR ''a''")
    case True
    have "length s2 < length s" using gettoken_length [OF g1] gettoken_length [OF g2] p True by auto
    then have "ends (parseredirs n c s2) s" for c using Suc.IH [of s2 c] Suc.prems by (auto intro: ends_weaken)
    then show ?thesis using p(1) g1 g2 True by simp
  next
    case False
    then show ?thesis using p g1 g2 by auto
  qed
qed simp

lemma amps_ends: "length s < n \<Longrightarrow> ends (amps n cmd s) s"
proof (induction n arbitrary: cmd s)
  case (Suc n)
  obtain b where p: "peek s ''&'' = (b, skip_white s)" "b \<Longrightarrow> skip_white s \<noteq> []" "length (skip_white s) \<le> length s" by (rule peek_cases [of s "''&''"]) blast
  obtain tok w s1 where g1: "gettoken (skip_white s) = (tok, w, s1)" by (metis prod_cases3)
  show ?case
  proof (cases b)
    case True
    then have l: "length s1 < length s" using gettoken_length [OF g1] p by auto
    then have "ends (amps n (BACK cmd) s1) s1" using Suc by simp
    then show ?thesis using p(1) g1 True l by (auto intro: ends_weaken)
  qed (use p in auto)
qed simp

lemma parseargs_ends: "length s < n \<Longrightarrow> ends (parseargs n argc ret s) s"
proof (induction n arbitrary: argc ret s)
  case (Suc n)
  obtain b where p: "peek s ''|)&;'' = (b, skip_white s)" "b \<Longrightarrow> skip_white s \<noteq> []" "length (skip_white s) \<le> length s" by (rule peek_cases [of s "''|)&;''"]) blast
  obtain tok w s1 where g1: "gettoken (skip_white s) = (tok, w, s1)" by (metis prod_cases3)
  show ?case
  proof (cases "b \<or> tok \<noteq> CHR ''a'' \<or> argc + 1 \<ge> MAXARGS")
    case True
    then show ?thesis using p g1 gettoken_length [OF g1] by auto
  next
    case False
    have "skip_white s \<noteq> []" using False g1 by (auto simp: gettoken_def)
    then have l: "length s1 < length s" using gettoken_length [OF g1] p by auto
    have "ends (pbind (parseredirs n (add_arg w ret) s1) (parseargs n (argc + 1))) s1"
    proof (rule ends_pbind)
      show "ends (parseredirs n (add_arg w ret) s1) s1" by (rule parseredirs_ends) (use l Suc.prems in simp)
      fix x r assume a: "parseredirs n (add_arg w ret) s1 = Parsed x r" "length r \<le> length s1"
      have "ends (parseargs n (argc + 1) x r) r" by (rule Suc.IH) (use a l Suc.prems in simp)
      then show "ends (parseargs n (argc + 1) x r) s1" using a(2) by (rule ends_weaken)
    qed
    then show ?thesis using p(1) g1 False l by (auto intro: ends_weaken)
  qed
qed simp

lemma ends_tail:
  assumes f: "\<And>t. length t < length s \<Longrightarrow> ends (f t) t" and r: "length r \<le> length s"
  shows "ends (let (b, s) = peek r toks in if b then let (_, _, s) = gettoken s in pbind (f s) (\<lambda>cmd2 s. Parsed (g cmd2) s) else Parsed cmd s) s"
proof -
  obtain b where p: "peek r toks = (b, skip_white r)" "b \<Longrightarrow> skip_white r \<noteq> []" "length (skip_white r) \<le> length r" by (rule peek_cases [of r toks]) blast
  obtain tok w t where g: "gettoken (skip_white r) = (tok, w, t)" by (metis prod_cases3)
  have "ends (pbind (f t) (\<lambda>cmd2 s. Parsed (g cmd2) s)) s" if b
  proof -
    have l: "length t < length s" using gettoken_length [OF g] p that r by auto
    have "ends (pbind (f t) (\<lambda>cmd2 s. Parsed (g cmd2) s)) t" by (rule ends_pbind [OF f [OF l]]) simp
    then show ?thesis using l by (auto intro: ends_weaken)
  qed
  then show ?thesis using p g r by (cases b) auto
qed

text \<open>What the four mutually recursive functions need: the nesting of calls on the same rest is at most four deep.\<close>

lemma grammar_ends:
  "4 * length s + 4 \<le> n \<Longrightarrow> ends (parseline n s) s"
  "4 * length s + 3 \<le> n \<Longrightarrow> ends (parsepipe n s) s"
  "4 * length s + 2 \<le> n \<Longrightarrow> ends (parseexec n s) s"
  "4 * length s + 1 \<le> n \<Longrightarrow> ends (parseblock n s) s"
proof (induction n arbitrary: s)
  case (Suc n)
  {
    case 1
    have pp: "ends (parsepipe n s) s" by (rule Suc.IH(2)) (use 1 in simp)
    show ?case unfolding parseline.simps
    proof (rule ends_pbind [OF pp], rule ends_pbind)
      fix cmd and r :: string assume r: "length r \<le> length s"
      have "ends (amps n cmd r) r" by (rule amps_ends) (use r 1 in simp)
      then show "ends (amps n cmd r) s" using r by (rule ends_weaken)
    qed (rule ends_tail, rule Suc.IH(1), use 1 in auto)
  next
    case 2
    have pe: "ends (parseexec n s) s" by (rule Suc.IH(3)) (use 2 in simp)
    show ?case unfolding parsepipe.simps
      by (rule ends_pbind [OF pe], rule ends_tail, rule Suc.IH(2)) (use 2 in auto)
  next
    case 3
    obtain b where p: "peek s ''('' = (b, skip_white s)" "b \<Longrightarrow> skip_white s \<noteq> []" "length (skip_white s) \<le> length s" by (rule peek_cases [of s "''(''"]) blast
    have "ends (parseblock n (skip_white s)) (skip_white s)" by (rule Suc.IH(4)) (use p(3) 3 in simp)
    then have b: "ends (parseblock n (skip_white s)) s" using p(3) by (rule ends_weaken)
    have "ends (pbind (parseredirs n execcmd (skip_white s)) (parseargs n 0)) (skip_white s)"
    proof (rule ends_pbind)
      show "ends (parseredirs n execcmd (skip_white s)) (skip_white s)" by (rule parseredirs_ends) (use p(3) 3 in simp)
      fix x and r :: string assume r: "length r \<le> length (skip_white s)"
      have "ends (parseargs n 0 x r) r" by (rule parseargs_ends) (use r p(3) 3 in simp)
      then show "ends (parseargs n 0 x r) (skip_white s)" using r by (rule ends_weaken)
    qed
    then have "ends (pbind (parseredirs n execcmd (skip_white s)) (parseargs n 0)) s" using p(3) by (rule ends_weaken)
    then show ?case using b p(1) by simp
  next
    case 4
    obtain b where p: "peek s ''('' = (b, skip_white s)" "b \<Longrightarrow> skip_white s \<noteq> []" "length (skip_white s) \<le> length s" by (rule peek_cases [of s "''(''"]) blast
    obtain tok w t where g: "gettoken (skip_white s) = (tok, w, t)" by (metis prod_cases3)
    have "ends (pbind (parseline n t) (\<lambda>cmd s. let (b, s) = peek s '')'' in if \<not> b then Exit ''syntax - missing )''
          else let (_, _, s) = gettoken s in parseredirs n cmd s)) s" if b
    proof -
      have l: "length t < length s" using gettoken_length [OF g] p that by auto
      have "ends (parseline n t) t" by (rule Suc.IH(1)) (use l 4 in simp)
      then have "ends (pbind (parseline n t) (\<lambda>cmd s. let (b, s) = peek s '')'' in if \<not> b then Exit ''syntax - missing )''
          else let (_, _, s) = gettoken s in parseredirs n cmd s)) t"
      proof (rule ends_pbind)
        fix cmd and r :: string assume r: "length r \<le> length t"
        obtain b' where q: "peek r '')'' = (b', skip_white r)" "b' \<Longrightarrow> skip_white r \<noteq> []" "length (skip_white r) \<le> length r" by (rule peek_cases [of r "'')''"]) blast
        obtain tok' w' u where h: "gettoken (skip_white r) = (tok', w', u)" by (metis prod_cases3)
        have lu: "length u \<le> length t" using gettoken_length [OF h] q r by auto
        have "ends (parseredirs n cmd u) u" by (rule parseredirs_ends) (use lu l 4 in simp)
        then have "ends (parseredirs n cmd u) t" using lu by (rule ends_weaken)
        then show "ends (let (b, s) = peek r '')'' in if \<not> b then Exit ''syntax - missing )'' else let (_, _, s) = gettoken s in parseredirs n cmd s) t"
          using q(1) h by simp
      qed
      then show ?thesis using l by (auto intro: ends_weaken)
    qed
    then show ?case using p g by (cases b) auto
  }
qed simp_all

end
