(* ===== verification/Shell_Props.thy ===== *)
theory Shell_Props
  imports Shell
begin

text \<open>
  Properties of the shell's parser: it ends on every line, and it reads back every command that is
  printed in its syntax.
\<close>

lemmas parser_0 = parseredirs.simps(1) amps.simps(1) parseargs.simps(1) parseline.simps(1) parsepipe.simps(1) parseexec.simps(1)
  parseblock.simps(1)

declare parseredirs.simps(2) [simp del] amps.simps(2) [simp del] parseargs.simps(2) [simp del] parseline.simps(2) [simp del]
  parsepipe.simps(2) [simp del] parseexec.simps(2) [simp del] parseblock.simps(2) [simp del]

section \<open>More fuel changes nothing\<close>

definition refines :: "'a parse \<Rightarrow> 'a parse \<Rightarrow> bool" where
  "refines p q \<longleftrightarrow> p = NoFuel \<or> p = q"

lemma refines_simps [simp]: "refines NoFuel q" "refines p p"
  by (auto simp: refines_def)

lemma refines_pbind: "refines p q \<Longrightarrow> (\<And>x r. refines (f x r) (g x r)) \<Longrightarrow> refines (pbind p f) (pbind q g)"
  by (cases p; cases q) (auto simp: refines_def pbind_def)

lemma parseredirs_mono: "refines (parseredirs n cmd s) (parseredirs (Suc n) cmd s)"
proof (induction n arbitrary: cmd s)
  case (Suc n)
  then show ?case by (subst (1 2) parseredirs.simps(2)) (auto simp: Let_def split: prod.splits)
qed simp

lemma amps_mono: "refines (amps n cmd s) (amps (Suc n) cmd s)"
proof (induction n arbitrary: cmd s)
  case (Suc n)
  then show ?case by (subst (1 2) amps.simps(2)) (auto simp: Let_def split: prod.splits)
qed simp

lemma parseargs_mono: "refines (parseargs n argc ret s) (parseargs (Suc n) argc ret s)"
proof (induction n arbitrary: argc ret s)
  case (Suc n)
  then show ?case by (subst (1 2) parseargs.simps(2)) (auto simp: Let_def split: prod.splits intro!: refines_pbind parseredirs_mono)
qed simp

lemma grammar_mono:
  "refines (parseline n s) (parseline (Suc n) s)"
  "refines (parsepipe n s) (parsepipe (Suc n) s)"
  "refines (parseexec n s) (parseexec (Suc n) s)"
  "refines (parseblock n s) (parseblock (Suc n) s)"
proof (induction n arbitrary: s)
  case (Suc n)
  {
    case 1
    show ?case using Suc
      by (subst (1 2) parseline.simps(2)) (auto simp: Let_def split: prod.splits intro!: refines_pbind amps_mono)
  next
    case 2
    show ?case using Suc
      by (subst (1 2) parsepipe.simps(2)) (auto simp: Let_def split: prod.splits intro!: refines_pbind)
  next
    case 3
    show ?case using Suc
      by (subst (1 2) parseexec.simps(2)) (auto simp: Let_def split: prod.splits intro!: refines_pbind parseredirs_mono parseargs_mono)
  next
    case 4
    show ?case using Suc
      by (subst (1 2) parseblock.simps(2)) (auto simp: Let_def split: prod.splits intro!: refines_pbind parseredirs_mono)
  }
qed simp_all

lemma mono_chain:
  assumes "\<And>n. refines (f n) (f (Suc n))" "f n \<noteq> NoFuel" "n \<le> m"
  shows "f m = f n"
  using assms(3)
proof (induction m rule: dec_induct)
  case (step m)
  then show ?case using assms(1) [of m] assms(2) by (auto simp: refines_def)
qed simp

section \<open>Commands in the syntax of the shell\<close>

text \<open>
  A command as the user would type it: every token is followed by a space, and a command that
  stands where only a simple command may is put in parentheses.
\<close>

definition redir_op :: "int \<Rightarrow> string" where
  "redir_op mode = (if mode = O_RDONLY then ''< '' else if mode = O_WRONLY + O_CREATE + O_TRUNC then ''> '' else ''>> '')"

definition show_redir :: "string \<times> int \<times> int \<Rightarrow> string" where
  "show_redir = (\<lambda>(f, mode, fd). redir_op mode @ f @ '' '')"

definition show_words :: "string list \<Rightarrow> string" where
  "show_words ws = concat (map (\<lambda>w. w @ '' '') ws)"

function show_line :: "cmd \<Rightarrow> string" and show_back :: "cmd \<Rightarrow> string" and show_pipe :: "cmd \<Rightarrow> string" and show_exec :: "cmd \<Rightarrow> string" where
  "show_line c = (case c of LIST a b \<Rightarrow> show_back a @ ''; '' @ show_line b | _ \<Rightarrow> show_back c)"
| "show_back c = (case c of BACK a \<Rightarrow> show_back a @ ''& '' | _ \<Rightarrow> show_pipe c)"
| "show_pipe c = (case c of PIPE a b \<Rightarrow> show_exec a @ ''| '' @ show_pipe b | _ \<Rightarrow> show_exec c)"
| "show_exec c = (case c of
     EXEC ws \<Rightarrow> show_words ws
   | REDIR a f mode fd \<Rightarrow> show_exec a @ show_redir (f, mode, fd)
   | LIST a b \<Rightarrow> ''( '' @ show_back a @ ''; '' @ show_line b @ '') ''
   | BACK a \<Rightarrow> ''( '' @ show_back a @ ''& '' @ '') ''
   | PIPE a b \<Rightarrow> ''( '' @ show_exec a @ ''| '' @ show_pipe b @ '') '')"
  by pat_completeness auto
termination
  by (relation "measures [\<lambda>x. case x of Inl (Inl c) \<Rightarrow> size c | Inl (Inr c) \<Rightarrow> size c | Inr (Inl c) \<Rightarrow> size c | Inr (Inr c) \<Rightarrow> size c,
      \<lambda>x. case x of Inl (Inl c) \<Rightarrow> 3 | Inl (Inr c) \<Rightarrow> 2 | Inr (Inl c) \<Rightarrow> 1 | Inr (Inr c) \<Rightarrow> 0]") auto

declare show_line.simps [simp del] show_back.simps [simp del] show_pipe.simps [simp del] show_exec.simps [simp del]

lemma show_cases:
  "show_exec (EXEC ws) = show_words ws"
  "show_exec (REDIR a f mode fd) = show_exec a @ show_redir (f, mode, fd)"
  "show_exec (LIST a b) = ''( '' @ show_line (LIST a b) @ '') ''"
  "show_exec (BACK a) = ''( '' @ show_line (BACK a) @ '') ''"
  "show_exec (PIPE a b) = ''( '' @ show_line (PIPE a b) @ '') ''"
  "show_pipe (EXEC ws) = show_exec (EXEC ws)" "show_pipe (REDIR a f mode fd) = show_exec (REDIR a f mode fd)"
  "show_pipe (LIST a b) = show_exec (LIST a b)" "show_pipe (BACK a) = show_exec (BACK a)"
  "show_pipe (PIPE a b) = show_exec a @ ''| '' @ show_pipe b"
  "show_back (EXEC ws) = show_pipe (EXEC ws)" "show_back (REDIR a f mode fd) = show_pipe (REDIR a f mode fd)"
  "show_back (LIST a b) = show_pipe (LIST a b)" "show_back (PIPE a b) = show_pipe (PIPE a b)"
  "show_back (BACK a) = show_back a @ ''& ''"
  "show_line (EXEC ws) = show_back (EXEC ws)" "show_line (REDIR a f mode fd) = show_back (REDIR a f mode fd)"
  "show_line (PIPE a b) = show_back (PIPE a b)" "show_line (BACK a) = show_back (BACK a)"
  "show_line (LIST a b) = show_back a @ ''; '' @ show_line b"
  by (simp_all add: show_exec.simps [of "EXEC ws"] show_exec.simps [of "REDIR a f mode fd"] show_exec.simps [of "PIPE a b"] show_exec.simps [of "LIST a b"] show_exec.simps [of "BACK a"]
      show_pipe.simps [of "EXEC ws"] show_pipe.simps [of "REDIR a f mode fd"] show_pipe.simps [of "PIPE a b"] show_pipe.simps [of "LIST a b"] show_pipe.simps [of "BACK a"]
      show_back.simps [of "EXEC ws"] show_back.simps [of "REDIR a f mode fd"] show_back.simps [of "PIPE a b"] show_back.simps [of "LIST a b"] show_back.simps [of "BACK a"]
      show_line.simps [of "EXEC ws"] show_line.simps [of "REDIR a f mode fd"] show_line.simps [of "PIPE a b"] show_line.simps [of "LIST a b"] show_line.simps [of "BACK a"])

definition is_word :: "string \<Rightarrow> bool" where
  "is_word w \<longleftrightarrow> w \<noteq> [] \<and> (\<forall>c \<in> set w. word_char c)"

definition is_redir :: "string \<times> int \<times> int \<Rightarrow> bool" where
  "is_redir = (\<lambda>(f, mode, fd). is_word f \<and> (mode, fd) \<in> {(O_RDONLY, 0), (O_WRONLY + O_CREATE + O_TRUNC, 1), (O_WRONLY + O_CREATE, 1)})"

primrec valid_cmd :: "cmd \<Rightarrow> bool" where
  "valid_cmd (EXEC ws) \<longleftrightarrow> length ws < MAXARGS \<and> (\<forall>w \<in> set ws. is_word w)"
| "valid_cmd (REDIR c f mode fd) \<longleftrightarrow> valid_cmd c \<and> is_redir (f, mode, fd)"
| "valid_cmd (PIPE a b) \<longleftrightarrow> valid_cmd a \<and> valid_cmd b"
| "valid_cmd (LIST a b) \<longleftrightarrow> valid_cmd a \<and> valid_cmd b"
| "valid_cmd (BACK a) \<longleftrightarrow> valid_cmd a"

section \<open>Tokens of printed commands\<close>

text \<open>\<open>starts P s\<close>: the first character of \<open>s\<close>, if any, satisfies \<open>P\<close>.\<close>

definition starts :: "string \<Rightarrow> string \<Rightarrow> bool" where
  "starts cs s \<longleftrightarrow> s = [] \<or> hd s \<in> set cs"

abbreviation nonwhite :: "string \<Rightarrow> bool" where
  "nonwhite s \<equiv> s = [] \<or> hd s \<notin> set whitespace"

lemma skip_nonwhite [simp]: "nonwhite s \<Longrightarrow> skip_white s = s"
  by (cases s) (auto simp: skip_white_def)

lemma skip_space [simp]: "nonwhite s \<Longrightarrow> skip_white (CHR '' '' # s) = s"
  using skip_nonwhite [of s] by (simp add: skip_white_def whitespace_def)

lemma symbol_nonwhite: "starts ''<>|&;()'' s \<Longrightarrow> nonwhite s"
  by (cases s) (auto simp: starts_def whitespace_def)

lemma gettoken_symbol: "nonwhite s \<Longrightarrow> c \<in> set ''|();&<'' \<Longrightarrow> gettoken (c # CHR '' '' # s) = (c, [c], s)"
proof -
  assume s: "nonwhite s" and c: "c \<in> set ''|();&<''"
  have "skip_white (c # CHR '' '' # s) = c # CHR '' '' # s" using c by (auto simp: skip_white_def whitespace_def)
  then show ?thesis using s c by (simp add: gettoken_def)
qed

lemma gettoken_out: "nonwhite s \<Longrightarrow> gettoken (CHR ''>'' # CHR '' '' # s) = (CHR ''>'', ''>'', s)"
  "nonwhite s \<Longrightarrow> gettoken (CHR ''>'' # CHR ''>'' # CHR '' '' # s) = (CHR ''+'', ''>>'', s)"
proof -
  have "skip_white (CHR ''>'' # t) = CHR ''>'' # t" for t by (simp add: skip_white_def whitespace_def)
  then show "nonwhite s \<Longrightarrow> gettoken (CHR ''>'' # CHR '' '' # s) = (CHR ''>'', ''>'', s)"
    "nonwhite s \<Longrightarrow> gettoken (CHR ''>'' # CHR ''>'' # CHR '' '' # s) = (CHR ''+'', ''>>'', s)"
    by (simp_all add: gettoken_def)
qed

lemma word_hd: "is_word w \<Longrightarrow> \<exists>c w'. w = c # w' \<and> word_char c \<and> c \<notin> set whitespace \<and> c \<notin> set symbols"
  by (cases w) (auto simp: is_word_def word_char_def)

lemma gettoken_word:
  assumes "is_word w" "nonwhite s"
  shows "gettoken (w @ CHR '' '' # s) = (CHR ''a'', w, s)"
proof -
  obtain c w' where w: "w = c # w'" "word_char c" "c \<notin> set whitespace" "c \<notin> set symbols" using word_hd [OF assms(1)] by blast
  have sk: "skip_white (w @ CHR '' '' # s) = c # w' @ CHR '' '' # s" using w by (simp add: skip_white_def)
  have sp: "\<not> word_char CHR '' ''" by (simp add: word_char_def whitespace_def)
  have "takeWhile word_char (w @ CHR '' '' # s) = w" "dropWhile word_char (w @ CHR '' '' # s) = CHR '' '' # s"
    using assms(1) sp by (simp_all add: is_word_def takeWhile_append2 dropWhile_append2)
  moreover have "c \<notin> set ''|();&<''" "c \<noteq> CHR ''>''" using w(4) by (auto simp: symbols_def)
  ultimately show ?thesis using sk w(1) assms(2) by (simp add: gettoken_def)
qed

lemma peek_nonwhite: "nonwhite s \<Longrightarrow> peek s toks = (s \<noteq> [] \<and> hd s \<in> set toks, s)"
  by (cases s) (auto simp: peek_def Let_def)

lemma peek_in: "nonwhite s \<Longrightarrow> s \<noteq> [] \<Longrightarrow> hd s \<in> set toks \<Longrightarrow> peek s toks = (True, s)"
  by (simp add: peek_nonwhite)

lemma peek_notin: "nonwhite s \<Longrightarrow> s = [] \<or> hd s \<notin> set toks \<Longrightarrow> peek s toks = (False, s)"
  using peek_nonwhite [of s toks] by auto

lemma starts_word: "is_word w \<Longrightarrow> nonwhite (w @ s) \<and> w @ s \<noteq> [] \<and> hd (w @ s) \<notin> set symbols"
  using word_hd [of w] by auto

lemma show_redir_hd: "nonwhite (show_redir x @ s) \<and> show_redir x @ s \<noteq> [] \<and> hd (show_redir x @ s) \<in> set ''<>''"
  by (cases x) (auto simp: show_redir_def redir_op_def whitespace_def)

section \<open>Redirections and words\<close>

definition add_redirs :: "cmd \<Rightarrow> (string \<times> int \<times> int) list \<Rightarrow> cmd" where
  "add_redirs c rs = foldl (\<lambda>c (f, mode, fd). REDIR c f mode fd) c rs"

abbreviation show_redirs :: "(string \<times> int \<times> int) list \<Rightarrow> string" where
  "show_redirs rs \<equiv> concat (map show_redir rs)"

lemma nonwhite_redirs: "nonwhite r \<Longrightarrow> nonwhite (show_redirs rs @ r)"
  using show_redir_hd [of "hd rs" "show_redirs (tl rs) @ r"] by (cases rs) auto

lemma parseredirs_show:
  assumes "\<forall>x \<in> set rs. is_redir x" "r = [] \<or> hd r \<notin> set ''<>''" "nonwhite r"
  shows "parseredirs (Suc (length rs)) c (show_redirs rs @ r) = Parsed (add_redirs c rs) r"
  using assms
proof (induction rs arbitrary: c)
  case Nil
  then show ?case using peek_notin [OF Nil.prems(3,2)] by (simp add: parseredirs.simps(2) add_redirs_def)
next
  case (Cons x rs)
  obtain f mode fd where x: "x = (f, mode, fd)" by (cases x)
  let ?t = "show_redirs rs @ r"
  have w: "is_word f" "nonwhite ?t" using Cons.prems(1,3) x nonwhite_redirs by (auto simp: is_redir_def)
  have g: "gettoken (f @ CHR '' '' # ?t) = (CHR ''a'', f, ?t)" by (rule gettoken_word [OF w])
  have nf: "nonwhite (f @ CHR '' '' # ?t)" using starts_word [OF w(1)] by blast
  have p: "peek (show_redir x @ ?t) ''<>'' = (True, show_redir x @ ?t)"
    using show_redir_hd [of x ?t] by (intro peek_in) blast+
  have ih: "parseredirs (Suc (length rs)) (REDIR c f mode fd) ?t = Parsed (add_redirs (REDIR c f mode fd) rs) r"
    using Cons.IH Cons.prems by simp
  have "(mode, fd) \<in> {(O_RDONLY, 0), (O_WRONLY + O_CREATE + O_TRUNC, 1), (O_WRONLY + O_CREATE, 1)}"
    using Cons.prems(1) x by (simp add: is_redir_def)
  then have "parseredirs (Suc (Suc (length rs))) c (show_redir x @ ?t) = parseredirs (Suc (length rs)) (REDIR c f mode fd) ?t"
    using p g nf gettoken_symbol [OF nf, of "CHR ''<''"] gettoken_out [OF nf]
    by (subst parseredirs.simps(2))
      (auto simp: x show_redir_def redir_op_def O_RDONLY_def O_WRONLY_def O_CREATE_def O_TRUNC_def)
  then show ?case using ih x by (simp add: add_redirs_def)
qed

text \<open>\<open>yields f s x r\<close>: with enough fuel the parser \<open>f\<close> reads \<open>x\<close> from \<open>s\<close> and leaves \<open>r\<close>.\<close>

definition yields :: "(nat \<Rightarrow> string \<Rightarrow> cmd parse) \<Rightarrow> string \<Rightarrow> cmd \<Rightarrow> string \<Rightarrow> bool" where
  "yields f s x r \<longleftrightarrow> (\<exists>N. \<forall>n \<ge> N. f n s = Parsed x r)"

lemma yieldsI: "(\<And>n. N \<le> n \<Longrightarrow> f (Suc n) s = Parsed x r) \<Longrightarrow> yields f s x r"
  unfolding yields_def by (rule exI [of _ "Suc N"]) (metis Suc_le_D Suc_le_mono)

lemma yieldsE:
  assumes "yields f s x r" "yields g t y q"
  obtains N where "\<And>n. N \<le> n \<Longrightarrow> f n s = Parsed x r" "\<And>n. N \<le> n \<Longrightarrow> g n t = Parsed y q"
proof -
  obtain N1 N2 where "\<forall>n \<ge> N1. f n s = Parsed x r" "\<forall>n \<ge> N2. g n t = Parsed y q"
    using assms unfolding yields_def by blast
  then show thesis using that [of "max N1 N2"] by simp
qed

lemma parseredirs_yields:
  assumes "\<forall>x \<in> set rs. is_redir x" "r = [] \<or> hd r \<notin> set ''<>''" "nonwhite r"
  shows "yields (\<lambda>n. parseredirs n c) (show_redirs rs @ r) (add_redirs c rs) r"
proof -
  have "parseredirs n c (show_redirs rs @ r) = Parsed (add_redirs c rs) r" if "Suc (length rs) \<le> n" for n
    using mono_chain [of "\<lambda>n. parseredirs n c (show_redirs rs @ r)", OF parseredirs_mono _ that] parseredirs_show [OF assms] by simp
  then show ?thesis by (auto simp: yields_def)
qed

lemma starts_stop: "starts ''|)&;'' r \<Longrightarrow> (r = [] \<or> hd r \<notin> set ''<>'') \<and> nonwhite r"
  by (auto simp: starts_def whitespace_def)

lemma parseargs_stop: "starts ''|)&;'' r \<Longrightarrow> parseargs (Suc n) argc ret r = Parsed ret r"
  using starts_stop [of r] peek_nonwhite [of r "''|)&;''"]
  by (cases r) (auto simp: parseargs.simps(2) starts_def gettoken_def skip_white_def)

lemma nonwhite_words: "\<forall>w \<in> set ws. is_word w \<Longrightarrow> nonwhite r \<Longrightarrow> nonwhite (show_words ws @ r)"
  using starts_word [of "hd ws" "'' '' @ show_words (tl ws) @ r"] by (cases ws) (auto simp: show_words_def)

lemma parseargs_show:
  assumes "\<forall>w \<in> set ws. is_word w" "\<forall>x \<in> set rs. is_redir x" "starts ''|)&;'' r" "argc + length ws < MAXARGS" "ws \<noteq> [] \<or> rs = []"
  shows "yields (\<lambda>n. parseargs n argc (EXEC ws0)) (show_words ws @ show_redirs rs @ r) (add_redirs (EXEC (ws0 @ ws)) rs) r"
  using assms
proof (induction ws arbitrary: argc ws0)
  case Nil
  then show ?case using parseargs_stop by (intro yieldsI) (simp add: add_redirs_def show_words_def)
next
  case (Cons w ws)
  note st = starts_stop [OF Cons.prems(3)]
  let ?t = "show_words ws @ show_redirs rs @ r"
  have w: "is_word w" using Cons.prems(1) by simp
  have nt: "nonwhite ?t" using nonwhite_words nonwhite_redirs st Cons.prems(1) by (metis list.set_intros(2))
  have s: "show_words (w # ws) @ show_redirs rs @ r = w @ CHR '' '' # ?t" by (simp add: show_words_def)
  have p: "peek (w @ CHR '' '' # ?t) ''|)&;'' = (False, w @ CHR '' '' # ?t)"
    using starts_word [OF w, of "CHR '' '' # ?t"] by (intro peek_notin) (auto simp: symbols_def)
  note g = gettoken_word [OF w nt]
  have step: "parseargs (Suc n) argc (EXEC ws0) (w @ CHR '' '' # ?t) = pbind (parseredirs n (EXEC (ws0 @ [w])) ?t) (parseargs n (argc + 1))" for n
    using p g Cons.prems(4) by (simp add: parseargs.simps(2))
  show ?case
  proof (cases "ws = []")
    case True
    obtain N where N: "\<And>n. N \<le> n \<Longrightarrow> parseredirs n (EXEC (ws0 @ [w])) (show_redirs rs @ r) = Parsed (add_redirs (EXEC (ws0 @ [w])) rs) r"
      using parseredirs_yields [OF Cons.prems(2)] st unfolding yields_def by blast
    have "parseargs n (argc + 1) c r = Parsed c r" if "Suc 0 \<le> n" for n c
      using parseargs_stop [OF Cons.prems(3), of "n - 1"] that by simp
    then show ?thesis
      unfolding s by (intro yieldsI [of "max N 1"]) (use N step True in \<open>simp add: pbind_def show_words_def\<close>)
  next
    case False
    have h: "?t = [] \<or> hd ?t \<notin> set ''<>''"
      using starts_word [of "hd ws" "'' '' @ show_words (tl ws) @ show_redirs rs @ r"] False Cons.prems(1)
      by (cases ws) (auto simp: show_words_def symbols_def)
    have ih: "yields (\<lambda>n. parseargs n (argc + 1) (EXEC (ws0 @ [w]))) ?t (add_redirs (EXEC ((ws0 @ [w]) @ ws)) rs) r"
      by (rule Cons.IH) (use Cons.prems False in auto)
    have rd: "yields (\<lambda>n. parseredirs n (EXEC (ws0 @ [w]))) ?t (EXEC (ws0 @ [w])) ?t"
      using parseredirs_yields [of "[]" ?t] h nt by (simp add: add_redirs_def)
    obtain N where N: "\<And>n. N \<le> n \<Longrightarrow> parseargs n (argc + 1) (EXEC (ws0 @ [w])) ?t = Parsed (add_redirs (EXEC ((ws0 @ [w]) @ ws)) rs) r"
      "\<And>n. N \<le> n \<Longrightarrow> parseredirs n (EXEC (ws0 @ [w])) ?t = Parsed (EXEC (ws0 @ [w])) ?t"
      using yieldsE [OF ih rd] by blast
    show ?thesis
      unfolding s by (intro yieldsI [of N]) (use N step in \<open>simp add: pbind_def\<close>)
  qed
qed

section \<open>The levels of the grammar\<close>

definition show_amps :: "nat \<Rightarrow> string" where
  "show_amps k = concat (replicate k ''& '')"

lemma nonwhite_amps: "nonwhite r \<Longrightarrow> nonwhite (show_amps k @ r)"
  by (cases k) (auto simp: show_amps_def whitespace_def)

lemma amps_show:
  assumes "starts '');'' r"
  shows "yields (\<lambda>n. amps n c) (show_amps k @ r) ((BACK ^^ k) c) r"
proof -
  have nr: "nonwhite r" "r = [] \<or> hd r \<notin> set ''&''" using assms by (auto simp: starts_def whitespace_def)
  have "amps n c (show_amps k @ r) = Parsed ((BACK ^^ k) c) r" if "k < n" for n
    using that
  proof (induction k arbitrary: n c)
    case 0
    then obtain m where "n = Suc m" by (cases n) auto
    then show ?case using peek_notin [OF nr] by (simp add: amps.simps(2) show_amps_def)
  next
    case (Suc k)
    then obtain m where m: "n = Suc m" "k < m" by (cases n) auto
    have s: "show_amps (Suc k) @ r = CHR ''&'' # CHR '' '' # show_amps k @ r" by (simp add: show_amps_def)
    have p: "peek (CHR ''&'' # CHR '' '' # show_amps k @ r) ''&'' = (True, CHR ''&'' # CHR '' '' # show_amps k @ r)"
      by (rule peek_in) (simp_all add: whitespace_def)
    have g: "gettoken (CHR ''&'' # CHR '' '' # show_amps k @ r) = (CHR ''&'', ''&'', show_amps k @ r)"
      by (rule gettoken_symbol) (use nonwhite_amps [OF nr(1)] in auto)
    show ?case unfolding s m(1) using Suc.IH [OF m(2)] p g by (simp add: amps.simps(2) funpow_swap1)
  qed
  then show ?thesis unfolding yields_def by (metis Suc_le_lessD)
qed

lemma parseline_amps:
  assumes "yields parsepipe s c (show_amps k @ r)" "starts '')'' r"
  shows "yields parseline s ((BACK ^^ k) c) r"
proof -
  have r: "starts '');'' r" "nonwhite r" "r = [] \<or> hd r \<notin> set '';''" using assms(2) by (auto simp: starts_def whitespace_def)
  obtain N where "\<And>n. N \<le> n \<Longrightarrow> parsepipe n s = Parsed c (show_amps k @ r)" "\<And>n. N \<le> n \<Longrightarrow> amps n c (show_amps k @ r) = Parsed ((BACK ^^ k) c) r"
    using yieldsE [OF assms(1) amps_show [OF r(1)]] by blast
  then show ?thesis
    by (intro yieldsI [of N]) (use peek_notin [OF r(2,3)] in \<open>simp add: parseline.simps(2) pbind_def\<close>)
qed

lemma parseline_list:
  assumes "yields parsepipe s c (show_amps k @ ''; '' @ t)" "yields parseline t d r" "nonwhite t"
  shows "yields parseline s (LIST ((BACK ^^ k) c) d) r"
proof -
  let ?u = "CHR '';'' # CHR '' '' # t"
  have st: "starts '');'' (''; '' @ t)" by (simp add: starts_def)
  have a: "yields (\<lambda>n. amps n c) (show_amps k @ ''; '' @ t) ((BACK ^^ k) c) (''; '' @ t)" by (rule amps_show [OF st])
  obtain N where N: "\<And>n. N \<le> n \<Longrightarrow> parsepipe n s = Parsed c (show_amps k @ ''; '' @ t)" "\<And>n. N \<le> n \<Longrightarrow> amps n c (show_amps k @ ''; '' @ t) = Parsed ((BACK ^^ k) c) ?u"
    using yieldsE [OF assms(1) a] by auto
  obtain M where M: "\<And>n. M \<le> n \<Longrightarrow> parseline n t = Parsed d r" using assms(2) unfolding yields_def by blast
  have p: "peek ?u '';'' = (True, ?u)" by (rule peek_in) (simp_all add: whitespace_def)
  have g: "gettoken ?u = (CHR '';'', '';'', t)" by (rule gettoken_symbol) (use assms(3) in auto)
  show ?thesis
    by (rule yieldsI [of "max N M"]) (use N M p g in \<open>simp add: parseline.simps(2) pbind_def\<close>)
qed

lemma parsepipe_pipe:
  assumes "yields parseexec s a (''| '' @ t)" "yields parsepipe t b r" "nonwhite t"
  shows "yields parsepipe s (PIPE a b) r"
proof -
  let ?u = "CHR ''|'' # CHR '' '' # t"
  obtain N where N: "\<And>n. N \<le> n \<Longrightarrow> parseexec n s = Parsed a ?u" "\<And>n. N \<le> n \<Longrightarrow> parsepipe n t = Parsed b r"
    using yieldsE [OF assms(1,2)] by auto
  have p: "peek ?u ''|'' = (True, ?u)" by (rule peek_in) (simp_all add: whitespace_def)
  have g: "gettoken ?u = (CHR ''|'', ''|'', t)" by (rule gettoken_symbol) (use assms(3) in auto)
  show ?thesis
    by (rule yieldsI [of N]) (use N p g in \<open>simp add: parsepipe.simps(2) pbind_def\<close>)
qed

lemma parsepipe_exec:
  assumes "yields parseexec s c r" "starts '')&;'' r"
  shows "yields parsepipe s c r"
proof -
  have r: "nonwhite r" "r = [] \<or> hd r \<notin> set ''|''" using assms(2) by (auto simp: starts_def whitespace_def)
  obtain N where "\<And>n. N \<le> n \<Longrightarrow> parseexec n s = Parsed c r" using assms(1) unfolding yields_def by blast
  then show ?thesis
    by (intro yieldsI [of N]) (use peek_notin [OF r] in \<open>simp add: parsepipe.simps(2) pbind_def\<close>)
qed

lemma parseexec_block:
  assumes "yields parseline (s @ '') '' @ show_redirs rs @ r) c ('') '' @ show_redirs rs @ r)" "nonwhite (s @ '') '' @ show_redirs rs @ r)"
    "\<forall>x \<in> set rs. is_redir x" "starts ''|)&;'' r"
  shows "yields parseexec (''( '' @ s @ '') '' @ show_redirs rs @ r) (add_redirs c rs) r"
proof -
  let ?in = "s @ '') '' @ show_redirs rs @ r" and ?t = "show_redirs rs @ r"
  let ?u = "CHR ''('' # CHR '' '' # ?in" and ?v = "CHR '')'' # CHR '' '' # ?t"
  note st = starts_stop [OF assms(4)]
  have rd: "yields (\<lambda>n. parseredirs n c) ?t (add_redirs c rs) r" by (rule parseredirs_yields) (use assms(3) st in auto)
  obtain N where N: "\<And>n. N \<le> n \<Longrightarrow> parseline n ?in = Parsed c ?v" "\<And>n. N \<le> n \<Longrightarrow> parseredirs n c ?t = Parsed (add_redirs c rs) r"
    using yieldsE [OF assms(1) rd] by auto
  have p: "peek ?u ''('' = (True, ?u)" "peek ?v '')'' = (True, ?v)" by (rule peek_in; simp add: whitespace_def)+
  have g: "gettoken ?u = (CHR ''('', ''('', ?in)" by (rule gettoken_symbol) (use assms(2) in auto)
  have h: "gettoken ?v = (CHR '')'', '')'', ?t)" by (rule gettoken_symbol) (use nonwhite_redirs st in auto)
  have b: "parseblock (Suc n) ?u = Parsed (add_redirs c rs) r" if "N \<le> n" for n
    using N that p g h by (simp add: parseblock.simps(2) pbind_def)
  have "parseexec (Suc n) ?u = Parsed (add_redirs c rs) r" if "Suc N \<le> n" for n
    using b [of "n - 1"] that p(1) by (simp add: parseexec.simps(2))
  then show ?thesis by (intro yieldsI [of "Suc N"]) simp
qed

lemma parseexec_words:
  assumes "valid_cmd (EXEC ws)" "\<forall>x \<in> set rs. is_redir x" "starts ''|)&;'' r"
  shows "yields parseexec (show_words ws @ show_redirs rs @ r) (add_redirs (EXEC ws) rs) r"
proof -
  let ?s = "show_words ws @ show_redirs rs @ r"
  note st = starts_stop [OF assms(3)]
  have nr: "nonwhite (show_redirs rs @ r)" using nonwhite_redirs st by blast
  have nw: "nonwhite ?s" by (rule nonwhite_words [OF _ nr]) (use assms(1) in simp)
  have "?s = [] \<or> hd ?s \<notin> set ''(''"
  proof (cases ws)
    case Nil
    then show ?thesis
      using show_redir_hd [of "hd rs" "show_redirs (tl rs) @ r"] assms(3) by (cases rs) (auto simp: show_words_def starts_def)
  next
    case (Cons w ws')
    then show ?thesis
      using starts_word [of w "'' '' @ show_words ws' @ show_redirs rs @ r"] assms(1) by (auto simp: show_words_def symbols_def)
  qed
  then have p: "peek ?s ''('' = (False, ?s)" by (rule peek_notin [OF nw])
  show ?thesis
  proof (cases "ws = []")
    case True
    have "?s = show_redirs rs @ r" using True by (simp add: show_words_def)
    moreover have "yields (\<lambda>n. parseredirs n (EXEC [])) (show_redirs rs @ r) (add_redirs (EXEC []) rs) r"
      by (rule parseredirs_yields [OF assms(2)]) (use st in blast)+
    ultimately obtain N where N: "\<And>n. N \<le> n \<Longrightarrow> parseredirs n (EXEC []) ?s = Parsed (add_redirs (EXEC []) rs) r"
      unfolding yields_def by auto
    have "parseargs n 0 c r = Parsed c r" if "Suc 0 \<le> n" for n c
      using parseargs_stop [OF assms(3), of "n - 1"] that by simp
    then show ?thesis
      by (intro yieldsI [of "max N 1"]) (use N p True in \<open>simp add: parseexec.simps(2) pbind_def\<close>)
  next
    case False
    have h: "?s = [] \<or> hd ?s \<notin> set ''<>''"
      using starts_word [of "hd ws" "'' '' @ show_words (tl ws) @ show_redirs rs @ r"] False assms(1)
      by (cases ws) (auto simp: show_words_def symbols_def)
    have a: "yields (\<lambda>n. parseargs n 0 (EXEC [])) ?s (add_redirs (EXEC ([] @ ws)) rs) r"
      by (rule parseargs_show) (use assms False in auto)
    have rd: "yields (\<lambda>n. parseredirs n (EXEC [])) ?s (EXEC []) ?s"
      using parseredirs_yields [of "[]" ?s] h nw by (simp add: add_redirs_def)
    obtain N where N: "\<And>n. N \<le> n \<Longrightarrow> parseargs n 0 (EXEC []) ?s = Parsed (add_redirs (EXEC ws) rs) r"
      "\<And>n. N \<le> n \<Longrightarrow> parseredirs n (EXEC []) ?s = Parsed (EXEC []) ?s"
      using yieldsE [OF a rd] by auto
    show ?thesis
      by (intro yieldsI [of N]) (use N p in \<open>simp add: parseexec.simps(2) pbind_def\<close>)
  qed
qed

lemma nonwhite_exec: "valid_cmd c \<Longrightarrow> nonwhite r \<Longrightarrow> nonwhite (show_exec c @ r)"
proof (induction c arbitrary: r)
  case (EXEC ws)
  then show ?case using nonwhite_words [of ws r] by (simp add: show_cases)
next
  case (REDIR c f mode fd)
  have "nonwhite (show_redir (f, mode, fd) @ r)" using show_redir_hd by blast
  then have "nonwhite (show_exec c @ show_redir (f, mode, fd) @ r)" by (rule REDIR.IH [rotated]) (use REDIR.prems in simp)
  then show ?case by (simp add: show_cases)
qed (simp_all add: show_cases whitespace_def)

lemma nonwhite_pipe: "valid_cmd c \<Longrightarrow> nonwhite r \<Longrightarrow> nonwhite (show_pipe c @ r)"
  using nonwhite_exec [of c r] nonwhite_exec [where r = "''| '' @ t" for t]
  by (cases c) (simp_all add: show_cases whitespace_def)

lemma nonwhite_back: "valid_cmd c \<Longrightarrow> nonwhite r \<Longrightarrow> nonwhite (show_back c @ r)"
proof (induction c arbitrary: r)
  case (BACK a)
  then show ?case using BACK.IH [of "''& '' @ r"] by (simp add: show_cases whitespace_def)
qed (simp_all only: show_cases(11-14) nonwhite_pipe)

lemma nonwhite_line: "valid_cmd c \<Longrightarrow> nonwhite r \<Longrightarrow> nonwhite (show_line c @ r)"
  using nonwhite_back [of c r] nonwhite_back [where r = "''; '' @ t" for t]
  by (cases c) (simp_all add: show_cases whitespace_def)

section \<open>Printed commands are read back\<close>

definition reads_line :: "cmd \<Rightarrow> bool" where
  "reads_line c \<longleftrightarrow> (\<forall>r. starts '')'' r \<longrightarrow> yields parseline (show_line c @ r) c r)"

definition reads_back :: "cmd \<Rightarrow> bool" where
  "reads_back c \<longleftrightarrow> (\<exists>j d. c = (BACK ^^ j) d \<and> (\<forall>r. starts '')&;'' r \<longrightarrow> yields parsepipe (show_back c @ r) d (show_amps j @ r)))"

definition reads_pipe :: "cmd \<Rightarrow> bool" where
  "reads_pipe c \<longleftrightarrow> (\<forall>r. starts '')&;'' r \<longrightarrow> yields parsepipe (show_pipe c @ r) c r)"

definition reads_exec :: "cmd \<Rightarrow> bool" where
  "reads_exec c \<longleftrightarrow> (\<forall>rs r. (\<forall>x \<in> set rs. is_redir x) \<longrightarrow> starts ''|)&;'' r \<longrightarrow>
     yields parseexec (show_exec c @ show_redirs rs @ r) (add_redirs c rs) r)"

lemma reads_execD:
  assumes "reads_exec c" "starts ''|)&;'' r"
  shows "yields parseexec (show_exec c @ r) c r"
  using assms(1) [unfolded reads_exec_def, rule_format, of "[]", OF _ assms(2)] by (simp add: add_redirs_def)

lemma block_reads_exec:
  assumes "valid_cmd c" "reads_line c" "show_exec c = ''( '' @ show_line c @ '') ''"
  shows "reads_exec c"
  unfolding reads_exec_def
proof (intro allI impI)
  fix rs r assume rs: "\<forall>x \<in> set rs. is_redir x" and r: "starts ''|)&;'' r"
  let ?t = "'') '' @ show_redirs rs @ r"
  have t: "starts '')'' ?t" "nonwhite ?t" by (simp_all add: starts_def whitespace_def)
  have "yields parseline (show_line c @ ?t) c ?t" using assms(2) t(1) by (simp only: reads_line_def)
  then show "yields parseexec (show_exec c @ show_redirs rs @ r) (add_redirs c rs) r"
    unfolding assms(3) using parseexec_block [OF _ nonwhite_line [OF assms(1) t(2)] rs r] by simp
qed

lemma exec_reads_pipe:
  assumes "reads_exec c" "show_pipe c = show_exec c"
  shows "reads_pipe c"
  unfolding reads_pipe_def assms(2)
proof (intro allI impI)
  fix r assume r: "starts '')&;'' r"
  then have "starts ''|)&;'' r" by (auto simp: starts_def)
  then show "yields parsepipe (show_exec c @ r) c r" using parsepipe_exec [OF reads_execD [OF assms(1)] r] by blast
qed

lemma pipe_reads_back: "reads_pipe c \<Longrightarrow> show_back c = show_pipe c \<Longrightarrow> reads_back c"
  unfolding reads_back_def reads_pipe_def by (rule exI [of _ 0]) (simp add: show_amps_def)

lemma back_reads_line:
  assumes "reads_back c" "show_line c = show_back c"
  shows "reads_line c"
  unfolding reads_line_def
proof (intro allI impI)
  fix r assume r: "starts '')'' r"
  obtain j d where d: "c = (BACK ^^ j) d" "\<And>r. starts '')&;'' r \<Longrightarrow> yields parsepipe (show_back c @ r) d (show_amps j @ r)"
    using assms(1) unfolding reads_back_def by blast
  have "yields parsepipe (show_back c @ r) d (show_amps j @ r)" by (rule d(2)) (use r in \<open>auto simp: starts_def\<close>)
  then show "yields parseline (show_line c @ r) c r" unfolding assms(2) using parseline_amps [OF _ r] d(1) by blast
qed

lemma BACK_reads_back:
  assumes "reads_back a"
  shows "reads_back (BACK a)"
proof -
  obtain j d where d: "a = (BACK ^^ j) d" "\<And>r. starts '')&;'' r \<Longrightarrow> yields parsepipe (show_back a @ r) d (show_amps j @ r)"
    using assms unfolding reads_back_def by blast
  have amps: "show_amps j @ CHR ''&'' # CHR '' '' # r = show_amps (Suc j) @ r" for r by (induction j) (simp_all add: show_amps_def)
  have "yields parsepipe (show_back (BACK a) @ r) d (show_amps (Suc j) @ r)" for r
    using d(2) [of "''& '' @ r"] amps [of r] by (simp add: show_cases starts_def)
  then show ?thesis unfolding reads_back_def using d(1) by (intro exI [of _ "Suc j"] exI [of _ d]) simp
qed

lemma LIST_reads_line:
  assumes "reads_back a" "reads_line b" "valid_cmd b"
  shows "reads_line (LIST a b)"
  unfolding reads_line_def
proof (intro allI impI)
  fix r assume r: "starts '')'' r"
  obtain j d where d: "a = (BACK ^^ j) d" "\<And>r. starts '')&;'' r \<Longrightarrow> yields parsepipe (show_back a @ r) d (show_amps j @ r)"
    using assms(1) unfolding reads_back_def by blast
  have a: "yields parsepipe (show_back a @ ''; '' @ show_line b @ r) d (show_amps j @ ''; '' @ show_line b @ r)"
    by (rule d(2)) (simp add: starts_def)
  have b: "yields parseline (show_line b @ r) b r" using assms(2) r unfolding reads_line_def by blast
  have n: "nonwhite (show_line b @ r)" by (rule nonwhite_line [OF assms(3)]) (use r in \<open>auto simp: starts_def whitespace_def\<close>)
  show "yields parseline (show_line (LIST a b) @ r) (LIST a b) r"
    using parseline_list [OF a b n] d(1) by (simp add: show_cases)
qed

lemma PIPE_reads_pipe:
  assumes "reads_exec a" "reads_pipe b" "valid_cmd b"
  shows "reads_pipe (PIPE a b)"
  unfolding reads_pipe_def
proof (intro allI impI)
  fix r assume r: "starts '')&;'' r"
  have a: "yields parseexec (show_exec a @ ''| '' @ show_pipe b @ r) a (''| '' @ show_pipe b @ r)"
    by (rule reads_execD [OF assms(1)]) (simp add: starts_def)
  have b: "yields parsepipe (show_pipe b @ r) b r" using assms(2) r unfolding reads_pipe_def by blast
  have n: "nonwhite (show_pipe b @ r)" by (rule nonwhite_pipe [OF assms(3)]) (use r in \<open>auto simp: starts_def whitespace_def\<close>)
  show "yields parsepipe (show_pipe (PIPE a b) @ r) (PIPE a b) r"
    using parsepipe_pipe [OF a b n] by (simp add: show_cases)
qed

lemma REDIR_reads_exec:
  assumes "reads_exec a" "is_redir (f, mode, fd)"
  shows "reads_exec (REDIR a f mode fd)"
  unfolding reads_exec_def
proof (intro allI impI)
  fix rs r assume rs: "\<forall>x \<in> set rs. is_redir x" and r: "starts ''|)&;'' r"
  have "yields parseexec (show_exec a @ show_redirs ((f, mode, fd) # rs) @ r) (add_redirs a ((f, mode, fd) # rs)) r"
    by (rule assms(1) [unfolded reads_exec_def, rule_format]) (use assms(2) rs r in auto)
  then show "yields parseexec (show_exec (REDIR a f mode fd) @ show_redirs rs @ r) (add_redirs (REDIR a f mode fd) rs) r"
    by (simp add: show_cases add_redirs_def)
qed

lemma reads_cmd: "valid_cmd c \<Longrightarrow> reads_exec c \<and> reads_pipe c \<and> reads_back c \<and> reads_line c"
proof (induction c)
  case (EXEC ws)
  have "reads_exec (EXEC ws)"
    unfolding reads_exec_def using parseexec_words [OF EXEC] by (simp add: show_cases)
  then show ?case using exec_reads_pipe pipe_reads_back back_reads_line
    by (simp add: show_cases)
next
  case (REDIR a f mode fd)
  then have "reads_exec (REDIR a f mode fd)" using REDIR_reads_exec by simp
  then show ?case using exec_reads_pipe pipe_reads_back back_reads_line
    by (simp add: show_cases)
next
  case (PIPE a b)
  then have p: "reads_pipe (PIPE a b)" using PIPE_reads_pipe by simp
  then have l: "reads_back (PIPE a b)" "reads_line (PIPE a b)" using pipe_reads_back back_reads_line
    by (simp_all add: show_cases)
  have "reads_exec (PIPE a b)"
    by (rule block_reads_exec [OF PIPE.prems l(2)]) (simp add: show_cases)
  then show ?case using p l by simp
next
  case (LIST a b)
  then have l: "reads_line (LIST a b)" using LIST_reads_line by simp
  have e: "reads_exec (LIST a b)"
    by (rule block_reads_exec [OF LIST.prems l]) (simp add: show_cases)
  then show ?case using l exec_reads_pipe pipe_reads_back by (simp add: show_cases)
next
  case (BACK a)
  then have b: "reads_back (BACK a)" using BACK_reads_back by simp
  then have l: "reads_line (BACK a)" using back_reads_line by (simp add: show_cases)
  have e: "reads_exec (BACK a)"
    by (rule block_reads_exec [OF BACK.prems l]) (simp add: show_cases)
  then show ?case using l b exec_reads_pipe by (simp add: show_cases)
qed

section \<open>Properties\<close>

lemma parsecmd_mono: "refines (parsecmd n s) (parsecmd (Suc n) s)"
  unfolding parsecmd_def by (rule refines_pbind [OF grammar_mono(1)]) simp

lemma parsecmd_ends: "4 * length s + 4 \<le> n \<Longrightarrow> parsecmd n s \<noteq> NoFuel"
  using grammar_ends(1) [of s n] by (cases "parseline n s") (auto simp: parsecmd_def pbind_def ends_def split: prod.splits)

text \<open>
  C29: The parser of the shell ends on every line: with fuel of four times the length of the line plus
  four it has either built a command or exited with an error, and more fuel gives the same answer.
\<close>

theorem parsecmd_terminates:
  "parsecmd (4 * length s + 4 + k) s \<noteq> NoFuel \<and> parsecmd (4 * length s + 4 + k) s = parsecmd (4 * length s + 4) s"
  using parsecmd_ends [of s "4 * length s + 4 + k"] parsecmd_ends [of s "4 * length s + 4"]
    mono_chain [of "\<lambda>n. parsecmd n s" "4 * length s + 4" "4 * length s + 4 + k", OF parsecmd_mono]
  by simp

text \<open>
  C30: The parser reads back every command printed in the shell's syntax: words, the three kinds of
  redirection, pipes, lists, background commands and parentheses, nested in any way.
\<close>

theorem parsecmd_round_trip:
  assumes "valid_cmd c"
  shows "parsecmd (4 * length (show_line c) + 4) (show_line c) = Parsed c []"
proof -
  have "yields parseline (show_line c @ []) c []" using reads_cmd [OF assms] unfolding reads_line_def by (simp add: starts_def)
  then obtain N where N: "\<And>n. N \<le> n \<Longrightarrow> parseline n (show_line c) = Parsed c []" unfolding yields_def by auto
  have "parsecmd (4 * length (show_line c) + 4) (show_line c) = parsecmd (max N (4 * length (show_line c) + 4)) (show_line c)"
    using parsecmd_ends [of "show_line c" "4 * length (show_line c) + 4"]
      mono_chain [of "\<lambda>n. parsecmd n (show_line c)" "4 * length (show_line c) + 4" "max N (4 * length (show_line c) + 4)", OF parsecmd_mono]
    by simp
  also have "\<dots> = Parsed c []" using N by (simp add: parsecmd_def pbind_def peek_def skip_white_def)
  finally show ?thesis .
qed

theorem parsecmd_round_trip_witness:
  "parsecmd 88 ''( a ; b ) > f | wc & '' =
     Parsed (BACK (PIPE (REDIR (LIST (EXEC [''a'']) (EXEC [''b''])) ''f'' 1537 1) (EXEC [''wc'']))) []"
  using parsecmd_round_trip [of "BACK (PIPE (REDIR (LIST (EXEC [''a'']) (EXEC [''b''])) ''f'' 1537 1) (EXEC [''wc'']))"]
  by (simp add: show_cases show_words_def show_redir_def redir_op_def
      is_word_def is_redir_def word_char_def whitespace_def symbols_def O_RDONLY_def O_WRONLY_def O_CREATE_def O_TRUNC_def MAXARGS_def)

end
