(* ===== verification/Fs.thy ===== *)
theory Fs
  imports Log_Ops Cstring
begin

text \<open>
  The file system of \<^verbatim>\<open>kernel/fs.c\<close> on top of the log: the block allocator, inodes, directories
  and path names.  A block number is a number below \<open>2 ^ 32\<close>; sums that C computes in 32 bits wrap.
  A pointer into the inode table is an index.  As in the buffer cache the code runs one operation
  at a time: waiting for a sleep lock that is held would last for ever and is \<open>Panic\<close>, and the
  locks of the table itself are not modelled, nor are the messages printed for a full disk.
  The copies to and from the caller (\<^verbatim>\<open>either_copyout\<close>, \<^verbatim>\<open>either_copyin\<close>) are arguments: whether a chunk
  handed out at an offset was accepted, and the bytes of a chunk with a flag that tells whether all
  of it could be read.
\<close>

section \<open>On-disk layout\<close>

definition ROOTINO :: nat where "ROOTINO = 1"
definition ROOTDEV :: nat where "ROOTDEV = 1"
definition NINODE :: nat where "NINODE = 50"
definition FSMAGIC :: nat where "FSMAGIC = 0x10203040"
definition NDIRECT :: nat where "NDIRECT = 12"
definition NINDIRECT :: nat where "NINDIRECT = BSIZE div 4"
definition MAXFILE :: nat where "MAXFILE = NDIRECT + NINDIRECT"
definition DIRSIZ :: nat where "DIRSIZ = 14"
definition T_DIR :: uint16 where "T_DIR = 1"
definition T_FILE :: uint16 where "T_FILE = 2"
definition T_DEVICE :: uint16 where "T_DEVICE = 3"

record superblock =
  sb_magic :: nat
  sb_size :: nat
  sb_nblocks :: nat
  sb_ninodes :: nat
  sb_nlog :: nat
  sb_logstart :: nat
  sb_inodestart :: nat
  sb_bmapstart :: nat

text \<open>An on-disk inode is 64 bytes; its fields are at these offsets.\<close>

definition dinode_size :: nat where "dinode_size = 64"
definition IPB :: nat where "IPB = BSIZE div dinode_size"
definition BPB :: nat where "BPB = BSIZE * 8"

definition IBLOCK :: "nat \<Rightarrow> superblock \<Rightarrow> nat" where
  "IBLOCK i sb = (i div IPB + sb_inodestart sb) mod 2 ^ 32"

definition BBLOCK :: "nat \<Rightarrow> superblock \<Rightarrow> nat" where
  "BBLOCK b sb = (b div BPB + sb_bmapstart sb) mod 2 ^ 32"

record inode =
  i_dev :: nat
  i_inum :: nat
  i_ref :: int
  i_locked :: bool
  i_valid :: bool
  i_type :: uint16
  i_major :: uint16
  i_minor :: uint16
  i_nlink :: uint16
  i_size :: uint32
  i_addrs :: "nat list"

record fsys = logsys +
  sb :: superblock
  inodes :: "inode list"

abbreviation ino :: "'a fsys_scheme \<Rightarrow> nat \<Rightarrow> inode" where
  "ino s ip \<equiv> inodes s ! ip"

definition set_inode :: "'a fsys_scheme \<Rightarrow> nat \<Rightarrow> inode \<Rightarrow> 'a fsys_scheme" where
  "set_inode s ip x = s\<lparr>inodes := (inodes s)[ip := x]\<rparr>"

definition data_of :: "'a bcache_scheme \<Rightarrow> nat \<Rightarrow> block" where
  "data_of s bp = b_data (bufs s ! bp)"

section \<open>Blocks\<close>

definition get_sb :: "block \<Rightarrow> superblock" where
  "get_sb d = \<lparr>sb_magic = unat (get32 d 0), sb_size = unat (get32 d 4), sb_nblocks = unat (get32 d 8), sb_ninodes = unat (get32 d 12),
     sb_nlog = unat (get32 d 16), sb_logstart = unat (get32 d 20), sb_inodestart = unat (get32 d 24), sb_bmapstart = unat (get32 d 28)\<rparr>"

definition readsb :: "'a fsys_scheme \<Rightarrow> nat \<Rightarrow> 'a fsys_scheme res" where
  "readsb s dev = rbind (bread s dev 1) (\<lambda>(bp, s). brelse (s\<lparr>sb := get_sb (data_of s bp)\<rparr>) bp)"

definition bzero :: "'a fsys_scheme \<Rightarrow> nat \<Rightarrow> nat \<Rightarrow> 'a fsys_scheme res" where
  "bzero s dev bno =
     rbind (bread s dev bno) (\<lambda>(bp, s).
     rbind (log_write (set_data s bp (replicate BSIZE 0)) bp) (\<lambda>s. brelse s bp))"

text \<open>The bit of a block in the bitmap, and the first free one of a bitmap block.\<close>

definition bit_set :: "block \<Rightarrow> nat \<Rightarrow> bool" where
  "bit_set d bi \<longleftrightarrow> d ! (bi div 8) AND push_bit (bi mod 8) 1 \<noteq> 0"

definition mark_bit :: "block \<Rightarrow> nat \<Rightarrow> block" where
  "mark_bit d bi = d[bi div 8 := d ! (bi div 8) OR push_bit (bi mod 8) 1]"

definition clear_bit :: "block \<Rightarrow> nat \<Rightarrow> block" where
  "clear_bit d bi = d[bi div 8 := d ! (bi div 8) AND NOT (push_bit (bi mod 8) 1)]"

definition free_bit :: "block \<Rightarrow> nat \<Rightarrow> nat option" where
  "free_bit d n = find (\<lambda>bi. \<not> bit_set d bi) [0..<min BPB n]"

primrec balloc_loop :: "nat list \<Rightarrow> nat \<Rightarrow> 'a fsys_scheme \<Rightarrow> (nat \<times> 'a fsys_scheme) res" where
  "balloc_loop [] dev s = Ret (0, s)"
| "balloc_loop (b # bs) dev s =
     rbind (bread s dev (BBLOCK b (sb s))) (\<lambda>(bp, s).
       case free_bit (data_of s bp) (sb_size (sb s) - b) of
         Some bi \<Rightarrow>
           rbind (log_write (set_data s bp (mark_bit (data_of s bp) bi)) bp) (\<lambda>s.
           rbind (brelse s bp) (\<lambda>s.
           rbind (bzero s dev (b + bi)) (\<lambda>s. Ret (b + bi, s))))
       | None \<Rightarrow> rbind (brelse s bp) (balloc_loop bs dev))"

definition bitmap_starts :: "nat \<Rightarrow> nat list" where
  "bitmap_starts n = map (\<lambda>k. k * BPB) [0..<(n + BPB - 1) div BPB]"

definition balloc :: "'a fsys_scheme \<Rightarrow> nat \<Rightarrow> (nat \<times> 'a fsys_scheme) res" where
  "balloc s dev = balloc_loop (bitmap_starts (sb_size (sb s))) dev s"

definition bfree :: "'a fsys_scheme \<Rightarrow> nat \<Rightarrow> nat \<Rightarrow> 'a fsys_scheme res" where
  "bfree s dev b =
     rbind (bread s dev (BBLOCK b (sb s))) (\<lambda>(bp, s).
       let bi = b mod BPB in
       if \<not> bit_set (data_of s bp) bi then Panic ''freeing free block''
       else rbind (log_write (set_data s bp (clear_bit (data_of s bp) bi)) bp) (\<lambda>s. brelse s bp))"

section \<open>Inodes\<close>

definition iinit :: "'a fsys_scheme \<Rightarrow> 'a fsys_scheme" where
  "iinit s = s\<lparr>inodes := map (\<lambda>ip. ip\<lparr>i_locked := False\<rparr>) (inodes s)\<rparr>"

text \<open>Where the on-disk inode lies in its block, reading its fields and writing them.\<close>

definition dip :: "nat \<Rightarrow> nat" where
  "dip inum = (inum mod IPB) * dinode_size"

definition get_dinode :: "block \<Rightarrow> nat \<Rightarrow> inode \<Rightarrow> inode" where
  "get_dinode d o' x = x\<lparr>i_type := get16 d o', i_major := get16 d (o' + 2), i_minor := get16 d (o' + 4), i_nlink := get16 d (o' + 6),
     i_size := get32 d (o' + 8), i_addrs := map (\<lambda>k. unat (get32 d (o' + 12 + 4 * k))) [0..<NDIRECT + 1]\<rparr>"

primrec put_addrs :: "nat list \<Rightarrow> nat \<Rightarrow> block \<Rightarrow> block" where
  "put_addrs [] p d = d"
| "put_addrs (a # as) p d = put_addrs as (p + 4) (put32 d p (of_nat a))"

definition put_dinode :: "block \<Rightarrow> nat \<Rightarrow> inode \<Rightarrow> block" where
  "put_dinode d o' x =
     put_addrs (i_addrs x) (o' + 12)
       (put32 (put16 (put16 (put16 (put16 d o' (i_type x)) (o' + 2) (i_major x)) (o' + 4) (i_minor x)) (o' + 6) (i_nlink x)) (o' + 8) (i_size x))"

text \<open>A free entry: \<^verbatim>\<open>memset\<close> of the 64 bytes, then the type.\<close>

definition new_dinode :: "block \<Rightarrow> nat \<Rightarrow> uint16 \<Rightarrow> block" where
  "new_dinode d o' type = put16 (take o' d @ replicate dinode_size 0 @ drop (o' + dinode_size) d) o' type"

definition iget :: "'a fsys_scheme \<Rightarrow> nat \<Rightarrow> nat \<Rightarrow> (nat \<times> 'a fsys_scheme) res" where
  "iget s dev inum =
     (case find (\<lambda>i. i_ref (ino s i) > 0 \<and> i_dev (ino s i) = dev \<and> i_inum (ino s i) = inum) [0..<NINODE] of
        Some ip \<Rightarrow> Ret (ip, set_inode s ip ((ino s ip)\<lparr>i_ref := i_ref (ino s ip) + 1\<rparr>))
      | None \<Rightarrow>
          (case find (\<lambda>i. i_ref (ino s i) = 0) [0..<NINODE] of
             None \<Rightarrow> Panic ''iget: no inodes''
           | Some ip \<Rightarrow> Ret (ip, set_inode s ip ((ino s ip)\<lparr>i_dev := dev, i_inum := inum, i_ref := 1, i_valid := False\<rparr>))))"

primrec ialloc_loop :: "nat list \<Rightarrow> nat \<Rightarrow> uint16 \<Rightarrow> 'a fsys_scheme \<Rightarrow> (nat option \<times> 'a fsys_scheme) res" where
  "ialloc_loop [] dev type s = Ret (None, s)"
| "ialloc_loop (inum # is) dev type s =
     rbind (bread s dev (IBLOCK inum (sb s))) (\<lambda>(bp, s).
       if get16 (data_of s bp) (dip inum) = 0 then
         rbind (log_write (set_data s bp (new_dinode (data_of s bp) (dip inum) type)) bp) (\<lambda>s.
         rbind (brelse s bp) (\<lambda>s.
         rbind (iget s dev inum) (\<lambda>(ip, s). Ret (Some ip, s))))
       else rbind (brelse s bp) (ialloc_loop is dev type))"

definition ialloc :: "'a fsys_scheme \<Rightarrow> nat \<Rightarrow> uint16 \<Rightarrow> (nat option \<times> 'a fsys_scheme) res" where
  "ialloc s dev type = ialloc_loop [1..<sb_ninodes (sb s)] dev type s"

definition iupdate :: "'a fsys_scheme \<Rightarrow> nat \<Rightarrow> 'a fsys_scheme res" where
  "iupdate s ip =
     rbind (bread s (i_dev (ino s ip)) (IBLOCK (i_inum (ino s ip)) (sb s))) (\<lambda>(bp, s).
     rbind (log_write (set_data s bp (put_dinode (data_of s bp) (dip (i_inum (ino s ip))) (ino s ip))) bp) (\<lambda>s.
       brelse s bp))"

definition idup :: "'a fsys_scheme \<Rightarrow> nat \<Rightarrow> nat \<times> 'a fsys_scheme" where
  "idup s ip = (ip, set_inode s ip ((ino s ip)\<lparr>i_ref := i_ref (ino s ip) + 1\<rparr>))"

definition acquire_inode :: "'a fsys_scheme \<Rightarrow> nat \<Rightarrow> 'a fsys_scheme res" where
  "acquire_inode s ip =
     (if i_locked (ino s ip) then Panic ''acquiresleep: waits for ever''
      else Ret (set_inode s ip ((ino s ip)\<lparr>i_locked := True\<rparr>)))"

definition ilock :: "'a fsys_scheme \<Rightarrow> nat \<Rightarrow> 'a fsys_scheme res" where
  "ilock s ip =
     (if i_ref (ino s ip) < 1 then Panic ''ilock''
      else rbind (acquire_inode s ip) (\<lambda>s.
        if i_valid (ino s ip) then Ret s
        else rbind (bread s (i_dev (ino s ip)) (IBLOCK (i_inum (ino s ip)) (sb s))) (\<lambda>(bp, s).
             let s = set_inode s ip (get_dinode (data_of s bp) (dip (i_inum (ino s ip))) (ino s ip)) in
             rbind (brelse s bp) (\<lambda>s.
               let s = set_inode s ip ((ino s ip)\<lparr>i_valid := True\<rparr>) in
               if i_type (ino s ip) = 0 then Panic ''ilock: no type'' else Ret s))))"

definition iunlock :: "'a fsys_scheme \<Rightarrow> nat \<Rightarrow> 'a fsys_scheme res" where
  "iunlock s ip =
     (if \<not> i_locked (ino s ip) \<or> i_ref (ino s ip) < 1 then Panic ''iunlock''
      else Ret (set_inode s ip ((ino s ip)\<lparr>i_locked := False\<rparr>)))"

section \<open>Inode contents\<close>

definition bmap :: "'a fsys_scheme \<Rightarrow> nat \<Rightarrow> nat \<Rightarrow> (nat \<times> 'a fsys_scheme) res" where
  "bmap s ip bn =
     (if bn < NDIRECT then
        let addr = i_addrs (ino s ip) ! bn in
        if addr = 0 then
          rbind (balloc s (i_dev (ino s ip))) (\<lambda>(addr, s).
            if addr = 0 then Ret (0, s)
            else Ret (addr, set_inode s ip ((ino s ip)\<lparr>i_addrs := (i_addrs (ino s ip))[bn := addr]\<rparr>)))
        else Ret (addr, s)
      else if bn - NDIRECT < NINDIRECT then
        rbind (if i_addrs (ino s ip) ! NDIRECT = 0 then
                 rbind (balloc s (i_dev (ino s ip))) (\<lambda>(addr, s).
                   if addr = 0 then Ret (0, s)
                   else Ret (addr, set_inode s ip ((ino s ip)\<lparr>i_addrs := (i_addrs (ino s ip))[NDIRECT := addr]\<rparr>)))
               else Ret (i_addrs (ino s ip) ! NDIRECT, s)) (\<lambda>(addr, s).
          if addr = 0 then Ret (0, s)
          else rbind (bread s (i_dev (ino s ip)) addr) (\<lambda>(bp, s).
            let slot = 4 * (bn - NDIRECT); addr = unat (get32 (data_of s bp) slot) in
            if addr = 0 then
              rbind (balloc s (i_dev (ino s ip))) (\<lambda>(addr, s).
              rbind (if addr \<noteq> 0 then log_write (set_data s bp (put32 (data_of s bp) slot (of_nat addr))) bp else Ret s) (\<lambda>s.
              rbind (brelse s bp) (\<lambda>s. Ret (addr, s))))
            else rbind (brelse s bp) (\<lambda>s. Ret (addr, s))))
      else Panic ''bmap: out of range'')"

primrec itrunc_direct :: "nat list \<Rightarrow> nat \<Rightarrow> 'a fsys_scheme \<Rightarrow> 'a fsys_scheme res" where
  "itrunc_direct [] ip s = Ret s"
| "itrunc_direct (i # is) ip s =
     (if i_addrs (ino s ip) ! i \<noteq> 0 then
        rbind (bfree s (i_dev (ino s ip)) (i_addrs (ino s ip) ! i)) (\<lambda>s.
          itrunc_direct is ip (set_inode s ip ((ino s ip)\<lparr>i_addrs := (i_addrs (ino s ip))[i := 0]\<rparr>)))
      else itrunc_direct is ip s)"

primrec itrunc_indirect :: "nat list \<Rightarrow> nat \<Rightarrow> nat \<Rightarrow> 'a fsys_scheme \<Rightarrow> 'a fsys_scheme res" where
  "itrunc_indirect [] dev bp s = Ret s"
| "itrunc_indirect (j # js) dev bp s =
     (let a = unat (get32 (data_of s bp) (4 * j)) in
      rbind (if a \<noteq> 0 then bfree s dev a else Ret s) (itrunc_indirect js dev bp))"

definition itrunc :: "'a fsys_scheme \<Rightarrow> nat \<Rightarrow> 'a fsys_scheme res" where
  "itrunc s ip =
     rbind (itrunc_direct [0..<NDIRECT] ip s) (\<lambda>s.
     rbind (let addr = i_addrs (ino s ip) ! NDIRECT; dev = i_dev (ino s ip) in
            if addr \<noteq> 0 then
              rbind (bread s dev addr) (\<lambda>(bp, s).
              rbind (itrunc_indirect [0..<NINDIRECT] dev bp s) (\<lambda>s.
              rbind (brelse s bp) (\<lambda>s.
              rbind (bfree s dev addr) (\<lambda>s.
                Ret (set_inode s ip ((ino s ip)\<lparr>i_addrs := (i_addrs (ino s ip))[NDIRECT := 0]\<rparr>))))))
            else Ret s) (\<lambda>s.
       iupdate (set_inode s ip ((ino s ip)\<lparr>i_size := 0\<rparr>)) ip))"

definition iput :: "'a fsys_scheme \<Rightarrow> nat \<Rightarrow> 'a fsys_scheme res" where
  "iput s ip =
     rbind (if i_ref (ino s ip) = 1 \<and> i_valid (ino s ip) \<and> i_nlink (ino s ip) = 0 then
              rbind (acquire_inode s ip) (\<lambda>s.
              rbind (itrunc s ip) (\<lambda>s.
              rbind (iupdate (set_inode s ip ((ino s ip)\<lparr>i_type := 0\<rparr>)) ip) (\<lambda>s.
                Ret (set_inode s ip ((ino s ip)\<lparr>i_valid := False, i_locked := False\<rparr>)))))
            else Ret s) (\<lambda>s.
       Ret (set_inode s ip ((ino s ip)\<lparr>i_ref := i_ref (ino s ip) - 1\<rparr>)))"

definition iunlockput :: "'a fsys_scheme \<Rightarrow> nat \<Rightarrow> 'a fsys_scheme res" where
  "iunlockput s ip = rbind (iunlock s ip) (\<lambda>s. iput s ip)"

primrec ireclaim_loop :: "nat list \<Rightarrow> nat \<Rightarrow> 'a fsys_scheme \<Rightarrow> 'a fsys_scheme res" where
  "ireclaim_loop [] dev s = Ret s"
| "ireclaim_loop (inum # is) dev s =
     rbind (bread s dev (IBLOCK inum (sb s))) (\<lambda>(bp, s).
       let d = data_of s bp; orphan = get16 d (dip inum) \<noteq> 0 \<and> get16 d (dip inum + 6) = 0 in
       rbind (if orphan then rbind (iget s dev inum) (\<lambda>(ip, s). Ret (Some ip, s)) else Ret (None, s)) (\<lambda>(ip, s).
       rbind (brelse s bp) (\<lambda>s.
       rbind (case ip of
                None \<Rightarrow> Ret s
              | Some ip \<Rightarrow>
                  (case begin_op s of
                     None \<Rightarrow> Panic ''begin_op: waits for ever''
                   | Some s \<Rightarrow>
                       rbind (ilock s ip) (\<lambda>s.
                       rbind (iunlock s ip) (\<lambda>s.
                       rbind (iput s ip) end_op))))
         (ireclaim_loop is dev))))"

definition ireclaim :: "'a fsys_scheme \<Rightarrow> nat \<Rightarrow> 'a fsys_scheme res" where
  "ireclaim s dev = ireclaim_loop [1..<sb_ninodes (sb s)] dev s"

definition fsinit :: "'a fsys_scheme \<Rightarrow> nat \<Rightarrow> 'a fsys_scheme res" where
  "fsinit s dev =
     rbind (readsb s dev) (\<lambda>s.
       if sb_magic (sb s) \<noteq> FSMAGIC then Panic ''invalid file system''
       else rbind (initlog s dev (sb_logstart (sb s))) (\<lambda>s. ireclaim s dev))"

record stat =
  st_dev :: nat
  st_ino :: nat
  st_type :: uint16
  st_nlink :: uint16
  st_size :: uint64

definition stati :: "'a fsys_scheme \<Rightarrow> nat \<Rightarrow> stat" where
  "stati s ip = \<lparr>st_dev = i_dev (ino s ip), st_ino = i_inum (ino s ip), st_type = i_type (ino s ip),
     st_nlink = i_nlink (ino s ip), st_size = ucast (i_size (ino s ip))\<rparr>"

section \<open>Reading and writing\<close>

text \<open>
  The checks are on 32-bit words; once they have passed \<^verbatim>\<open>off + n\<close> does not wrap and the loops count
  in numbers.  \<open>sink tot bs\<close> tells whether the chunk \<open>bs\<close> could be copied to offset \<open>tot\<close> of the
  destination; the result of a read is its return value and the bytes copied out.
\<close>

function readi_loop :: "(nat \<Rightarrow> uint8 list \<Rightarrow> bool) \<Rightarrow> nat \<Rightarrow> nat \<Rightarrow> nat \<Rightarrow> nat \<Rightarrow> uint8 list \<Rightarrow> 'a fsys_scheme \<Rightarrow> (int \<times> uint8 list \<times> 'a fsys_scheme) res" where
  "readi_loop sink ip off n tot acc s =
     (if tot < n then
        rbind (bmap s ip (off div BSIZE)) (\<lambda>(addr, s).
          if addr = 0 then Ret (sint (of_nat tot :: uint32), acc, s)
          else rbind (bread s (i_dev (ino s ip)) addr) (\<lambda>(bp, s).
            let m = min (n - tot) (BSIZE - off mod BSIZE); bs = take m (drop (off mod BSIZE) (data_of s bp)) in
            rbind (brelse s bp) (\<lambda>s.
              if \<not> sink tot bs then Ret (-1, acc, s)
              else readi_loop sink ip (off + m) n (tot + m) (acc @ bs) s)))
      else Ret (sint (of_nat tot :: uint32), acc, s))"
  by pat_completeness auto
termination
  by (relation "measure (\<lambda>(sink, ip, off, n, tot, acc, s). n - tot)") (auto simp: BSIZE_def)

definition readi :: "'a fsys_scheme \<Rightarrow> nat \<Rightarrow> (nat \<Rightarrow> uint8 list \<Rightarrow> bool) \<Rightarrow> uint32 \<Rightarrow> uint32 \<Rightarrow> (int \<times> uint8 list \<times> 'a fsys_scheme) res" where
  "readi s ip sink off n =
     (let sz = i_size (ino s ip) in
      if off > sz \<or> off + n < off then Ret (0, [], s)
      else let n = (if off + n > sz then sz - off else n)
           in readi_loop sink ip (unat off) (unat n) 0 [] s)"

text \<open>
  \<open>src tot m\<close> is what the copy of \<open>m\<close> bytes from offset \<open>tot\<close> of the source stores, and whether it
  succeeded; a copy that fails part of the way has stored a prefix.
\<close>

function writei_loop :: "(nat \<Rightarrow> nat \<Rightarrow> uint8 list \<times> bool) \<Rightarrow> nat \<Rightarrow> nat \<Rightarrow> nat \<Rightarrow> nat \<Rightarrow> 'a fsys_scheme \<Rightarrow> (nat \<times> nat \<times> 'a fsys_scheme) res" where
  "writei_loop src ip off n tot s =
     (if tot < n then
        rbind (bmap s ip (off div BSIZE)) (\<lambda>(addr, s).
          if addr = 0 then Ret (tot, off, s)
          else rbind (bread s (i_dev (ino s ip)) addr) (\<lambda>(bp, s).
            let m = min (n - tot) (BSIZE - off mod BSIZE); d = data_of s bp; (bs, ok) = src tot m;
                s = set_data s bp (take (off mod BSIZE) d @ bs @ drop (off mod BSIZE + length bs) d) in
            if \<not> ok then rbind (brelse s bp) (\<lambda>s. Ret (tot, off, s))
            else rbind (log_write s bp) (\<lambda>s.
                 rbind (brelse s bp) (\<lambda>s. writei_loop src ip (off + m) n (tot + m) s))))
      else Ret (tot, off, s))"
  by pat_completeness auto
termination
  by (relation "measure (\<lambda>(src, ip, off, n, tot, s). n - tot)") (auto simp: BSIZE_def)

definition writei :: "'a fsys_scheme \<Rightarrow> nat \<Rightarrow> (nat \<Rightarrow> nat \<Rightarrow> uint8 list \<times> bool) \<Rightarrow> uint32 \<Rightarrow> uint32 \<Rightarrow> (int \<times> 'a fsys_scheme) res" where
  "writei s ip src off n =
     (if off > i_size (ino s ip) \<or> off + n < off then Ret (-1, s)
      else if unat (off + n) > MAXFILE * BSIZE then Ret (-1, s)
      else rbind (writei_loop src ip (unat off) (unat n) 0 s) (\<lambda>(tot, off, s).
        let s = (if off > unat (i_size (ino s ip)) then set_inode s ip ((ino s ip)\<lparr>i_size := of_nat off\<rparr>) else s) in
        rbind (iupdate s ip) (\<lambda>s. Ret (int tot, s))))"

section \<open>Directories\<close>

text \<open>A directory entry: the inode number in two bytes and the name in fourteen.\<close>

definition dirent_size :: nat where "dirent_size = 16"

definition put_dirent :: "uint8 list \<Rightarrow> uint16 \<Rightarrow> uint8 list" where
  "put_dirent name inum = put16 (replicate 2 0) 0 inum @ strncpy name (int DIRSIZ)"

definition namecmp :: "uint8 list \<Rightarrow> uint8 list \<Rightarrow> int" where
  "namecmp a b = strncmp a b DIRSIZ"

definition accept :: "nat \<Rightarrow> uint8 list \<Rightarrow> bool" where
  "accept tot bs = True"

definition from_list :: "uint8 list \<Rightarrow> nat \<Rightarrow> nat \<Rightarrow> uint8 list \<times> bool" where
  "from_list bs tot m = (take m (drop tot bs), True)"

definition dir_offsets :: "nat \<Rightarrow> nat list" where
  "dir_offsets n = map (\<lambda>k. k * dirent_size) [0..<(n + dirent_size - 1) div dirent_size]"

primrec dirlookup_loop :: "nat list \<Rightarrow> nat \<Rightarrow> uint8 list \<Rightarrow> 'a fsys_scheme \<Rightarrow> ((nat \<times> nat) option \<times> 'a fsys_scheme) res" where
  "dirlookup_loop [] dp name s = Ret (None, s)"
| "dirlookup_loop (off # offs) dp name s =
     rbind (readi s dp accept (of_nat off) (of_nat dirent_size)) (\<lambda>(r, de, s).
       if r \<noteq> int dirent_size then Panic ''dirlookup read''
       else if get16 de 0 = 0 then dirlookup_loop offs dp name s
       else if namecmp name (drop 2 de) = 0 then
         rbind (iget s (i_dev (ino s dp)) (unat (get16 de 0))) (\<lambda>(ip, s). Ret (Some (ip, off), s))
       else dirlookup_loop offs dp name s)"

definition dirlookup :: "'a fsys_scheme \<Rightarrow> nat \<Rightarrow> uint8 list \<Rightarrow> ((nat \<times> nat) option \<times> 'a fsys_scheme) res" where
  "dirlookup s dp name =
     (if i_type (ino s dp) \<noteq> T_DIR then Panic ''dirlookup not DIR''
      else dirlookup_loop (dir_offsets (unat (i_size (ino s dp)))) dp name s)"

text \<open>The search of \<^verbatim>\<open>dirlink\<close> for an unused entry ends at the end of the directory.\<close>

primrec empty_dirent :: "nat list \<Rightarrow> nat \<Rightarrow> nat \<Rightarrow> 'a fsys_scheme \<Rightarrow> (nat \<times> 'a fsys_scheme) res" where
  "empty_dirent [] off dp s = Ret (off, s)"
| "empty_dirent (o' # offs) off dp s =
     rbind (readi s dp accept (of_nat o') (of_nat dirent_size)) (\<lambda>(r, de, s).
       if r \<noteq> int dirent_size then Panic ''dirlink read''
       else if get16 de 0 = 0 then Ret (o', s)
       else empty_dirent offs (o' + dirent_size) dp s)"

definition dirlink :: "'a fsys_scheme \<Rightarrow> nat \<Rightarrow> uint8 list \<Rightarrow> nat \<Rightarrow> (int \<times> 'a fsys_scheme) res" where
  "dirlink s dp name inum =
     rbind (dirlookup s dp name) (\<lambda>(found, s).
       case found of
         Some (ip, _) \<Rightarrow> rbind (iput s ip) (\<lambda>s. Ret (-1, s))
       | None \<Rightarrow>
           rbind (empty_dirent (dir_offsets (unat (i_size (ino s dp)))) 0 dp s) (\<lambda>(off, s).
           rbind (writei s dp (from_list (put_dirent name (of_nat inum))) (of_nat off) (of_nat dirent_size)) (\<lambda>(r, s).
             Ret (if r \<noteq> int dirent_size then -1 else 0, s))))"

section \<open>Paths\<close>

definition slash :: uint8 where "slash = 47"

text \<open>
  The next element, or \<open>None\<close> where the code returns 0: what the code stores in \<^verbatim>\<open>name\<close> and the rest
  of the path.
\<close>

definition skipelem :: "uint8 list \<Rightarrow> (uint8 list \<times> uint8 list) option" where
  "skipelem path =
     (let s = dropWhile (\<lambda>c. c = slash) path in
      if hd0 s = 0 then None
      else let elem = takeWhile (\<lambda>c. c \<noteq> slash \<and> c \<noteq> 0) s; rest = dropWhile (\<lambda>c. c \<noteq> slash \<and> c \<noteq> 0) s in
        Some (if length elem \<ge> DIRSIZ then take DIRSIZ elem else elem @ [0], dropWhile (\<lambda>c. c = slash) rest))"

lemma skipelem_shorter: "skipelem path = Some (name, rest) \<Longrightarrow> length rest < length path"
proof -
  assume a: "skipelem path = Some (name, rest)"
  let ?s = "dropWhile (\<lambda>c. c = slash) path"
  let ?P = "\<lambda>c. c \<noteq> slash \<and> c \<noteq> (0 :: uint8)"
  have s: "hd0 ?s \<noteq> 0" "rest = dropWhile (\<lambda>c. c = slash) (dropWhile ?P ?s)"
    using a by (auto simp: skipelem_def Let_def split: if_splits)
  then obtain c t where c: "?s = c # t" by (cases ?s) auto
  have "?P c" using s(1) c hd_dropWhile [of "\<lambda>c. c = slash" path] by auto
  then have "length (dropWhile ?P ?s) \<le> length t" using c length_dropWhile_le [of ?P t] by simp
  then show ?thesis
    using s(2) c length_dropWhile_le [of "\<lambda>c. c = slash" "dropWhile ?P ?s"] length_dropWhile_le [of "\<lambda>c. c = slash" path] by simp
qed

function namex_loop :: "nat \<Rightarrow> bool \<Rightarrow> uint8 list \<Rightarrow> uint8 list \<Rightarrow> 'a fsys_scheme \<Rightarrow> (nat option \<times> uint8 list \<times> 'a fsys_scheme) res" where
  "namex_loop ip nameiparent name path s =
     (case skipelem path of
        None \<Rightarrow>
          if nameiparent then rbind (iput s ip) (\<lambda>s. Ret (None, name, s)) else Ret (Some ip, name, s)
      | Some (name, path) \<Rightarrow>
          rbind (ilock s ip) (\<lambda>s.
            if i_type (ino s ip) \<noteq> T_DIR then rbind (iunlockput s ip) (\<lambda>s. Ret (None, name, s))
            else if nameiparent \<and> hd0 path = 0 then rbind (iunlock s ip) (\<lambda>s. Ret (Some ip, name, s))
            else rbind (dirlookup s ip name) (\<lambda>(found, s).
              case found of
                None \<Rightarrow> rbind (iunlockput s ip) (\<lambda>s. Ret (None, name, s))
              | Some (next', _) \<Rightarrow> rbind (iunlockput s ip) (\<lambda>s. namex_loop next' nameiparent name path s))))"
  by pat_completeness auto
termination
  by (relation "measure (\<lambda>(ip, np, name, path, s). length path)") (auto dest: skipelem_shorter)

definition namex :: "'a fsys_scheme \<Rightarrow> nat \<Rightarrow> uint8 list \<Rightarrow> bool \<Rightarrow> (nat option \<times> uint8 list \<times> 'a fsys_scheme) res" where
  "namex s cwd path nameiparent =
     rbind (if hd0 path = slash then iget s ROOTDEV ROOTINO else Ret (idup s cwd)) (\<lambda>(ip, s).
       namex_loop ip nameiparent [] path s)"

definition namei :: "'a fsys_scheme \<Rightarrow> nat \<Rightarrow> uint8 list \<Rightarrow> (nat option \<times> 'a fsys_scheme) res" where
  "namei s cwd path = rbind (namex s cwd path False) (\<lambda>(ip, _, s). Ret (ip, s))"

definition nameiparent :: "'a fsys_scheme \<Rightarrow> nat \<Rightarrow> uint8 list \<Rightarrow> (nat option \<times> uint8 list \<times> 'a fsys_scheme) res" where
  "nameiparent s cwd path = namex s cwd path True"

declare readi_loop.simps [simp del] writei_loop.simps [simp del] namex_loop.simps [simp del]

end
