(* ===== verification/Fs_Paths.thy ===== *)
theory Fs_Paths
  imports Fs
begin

text \<open>
  Path names: iterating \<^verbatim>\<open>skipelem\<close> as \<^verbatim>\<open>namex\<close> does gives the non-empty parts between the slashes,
  each cut to the length of a directory name.
\<close>

section \<open>The elements of a path\<close>

text \<open>What the directory code reads of \<^verbatim>\<open>name\<close>: up to a NUL, at most \<open>DIRSIZ\<close> bytes.\<close>

definition elem_name :: "uint8 list \<Rightarrow> uint8 list" where
  "elem_name name = take DIRSIZ (cstr name)"

function path_elems :: "uint8 list \<Rightarrow> uint8 list list" where
  "path_elems path = (case skipelem path of None \<Rightarrow> [] | Some (name, rest) \<Rightarrow> elem_name name # path_elems rest)"
  by pat_completeness auto
termination
  by (relation "measure length") (auto dest: skipelem_shorter)

declare path_elems.simps [simp del]

text \<open>The reference: split at every slash, drop the empty parts, cut each part.\<close>

fun split_slash :: "uint8 list \<Rightarrow> uint8 list list" where
  "split_slash [] = [[]]"
| "split_slash (c # cs) = (if c = slash then [] # split_slash cs else (c # hd (split_slash cs)) # tl (split_slash cs))"

definition path_spec :: "uint8 list \<Rightarrow> uint8 list list" where
  "path_spec path = map (take DIRSIZ) (filter (\<lambda>e. e \<noteq> []) (split_slash (cstr path)))"

section \<open>Proofs\<close>

lemma slash_not_0 [simp]: "slash \<noteq> 0" "0 \<noteq> slash"
  by (simp_all add: slash_def)

lemma split_slash_not_Nil [simp]: "split_slash cs \<noteq> []"
  by (cases cs) auto

lemma split_slash_elem:
  "slash \<notin> set e \<Longrightarrow> split_slash (e @ slash # cs) = e # split_slash cs" "slash \<notin> set e \<Longrightarrow> split_slash e = [e]"
  by (induction e) auto

lemma cstr_dropWhile_slash: "cstr (dropWhile (\<lambda>c. c = slash) p) = dropWhile (\<lambda>c. c = slash) (cstr p)"
  by (induction p) auto

lemma path_spec_slashes: "path_spec (dropWhile (\<lambda>c. c = slash) p) = path_spec p"
  by (induction p) (auto simp: path_spec_def)

lemma cstr_no_nul: "0 \<notin> set e \<Longrightarrow> cstr (e @ t) = e @ cstr t"
  by (induction e) auto

lemma path_spec_elem:
  assumes "e \<noteq> []" "slash \<notin> set e" "0 \<notin> set e" "hd0 t = slash \<or> hd0 t = 0"
  shows "path_spec (e @ t) = take DIRSIZ e # path_spec t"
proof (cases "hd0 t = slash")
  case True
  then obtain t' where "t = slash # t'" by (cases t) auto
  then show ?thesis using assms by (simp add: path_spec_def cstr_no_nul split_slash_elem)
next
  case False
  then have "cstr t = []" using assms(4) cstr_hd(2) by simp
  then show ?thesis using assms by (simp add: path_spec_def cstr_no_nul split_slash_elem)
qed

lemma skipelem_cases:
  obtains "hd0 (dropWhile (\<lambda>c. c = slash) path) = 0" "skipelem path = None"
  | e t where "dropWhile (\<lambda>c. c = slash) path = e @ t" "e \<noteq> []" "slash \<notin> set e" "0 \<notin> set e" "hd0 t = slash \<or> hd0 t = 0"
    "skipelem path = Some (if length e \<ge> DIRSIZ then take DIRSIZ e else e @ [0], dropWhile (\<lambda>c. c = slash) t)"
proof -
  note ok = that
  let ?s = "dropWhile (\<lambda>c. c = slash) path" and ?P = "\<lambda>c. c \<noteq> slash \<and> c \<noteq> (0 :: uint8)"
  show thesis
  proof (cases "hd0 ?s = 0")
    case True
    then show thesis by (intro ok(1)) (simp_all add: skipelem_def)
  next
    case False
    then obtain c r where c: "?s = c # r" "c \<noteq> 0" by (cases ?s) auto
    define e t where "e = takeWhile ?P ?s" and "t = dropWhile ?P ?s"
    have "c \<noteq> slash" using hd_dropWhile [of "\<lambda>c. c = slash" path] c(1) by simp
    then have e: "e \<noteq> []" using c by (simp add: e_def)
    have "t \<noteq> [] \<Longrightarrow> \<not> ?P (hd t)" unfolding t_def by (rule hd_dropWhile)
    then have t: "hd0 t = slash \<or> hd0 t = 0" by (cases t) auto
    have n: "slash \<notin> set e" "0 \<notin> set e" unfolding e_def by (auto dest: set_takeWhileD)
    have "skipelem path = Some (if length e \<ge> DIRSIZ then take DIRSIZ e else e @ [0], dropWhile (\<lambda>c. c = slash) t)"
      using False unfolding skipelem_def e_def t_def Let_def by simp
    moreover have "?s = e @ t" unfolding e_def t_def by simp
    ultimately show thesis using ok(2) e n t by blast
  qed
qed

lemma elem_name_stored:
  assumes "0 \<notin> set e"
  shows "elem_name (if length e \<ge> DIRSIZ then take DIRSIZ e else e @ [0]) = take DIRSIZ e"
proof -
  have "cstr (take DIRSIZ e) = take DIRSIZ e" using cstr_no_nul [of "take DIRSIZ e" "[]"] assms by (auto dest: in_set_takeD)
  moreover have "cstr (e @ [0]) = e" using cstr_no_nul [OF assms, of "[0]"] by simp
  ultimately show ?thesis by (simp add: elem_name_def)
qed

text \<open>
  C32: Iterating \<^verbatim>\<open>skipelem\<close> over a path name gives exactly the non-empty parts between the slashes
  of the C string, each cut to the fourteen bytes of a directory name; leading, repeated and
  trailing slashes do not matter.
\<close>

theorem skipelem_splits_path: "path_elems path = path_spec path"
proof (induction path rule: path_elems.induct)
  case (1 path)
  show ?case
  proof (cases rule: skipelem_cases [of path])
    case 1
    then have "cstr (dropWhile (\<lambda>c. c = slash) path) = []" using cstr_hd(2) by blast
    then have "path_spec path = []" using path_spec_slashes [of path] by (simp add: path_spec_def)
    then show ?thesis using 1 by (simp add: path_elems.simps)
  next
    case (2 e t)
    have "path_spec path = take DIRSIZ e # path_spec (dropWhile (\<lambda>c. c = slash) t)"
      using path_spec_slashes [of path] path_spec_slashes [of t] path_spec_elem [OF 2(2-5)] 2(1) by simp
    then show ?thesis
      using 1 [OF 2(6)] 2(6) elem_name_stored [OF 2(4)] path_elems.simps [of path] by simp
  qed
qed

end
