(* ===== verification/Fs_Table.thy ===== *)
theory Fs_Table
  imports Fs "HOL-Library.Multiset"
begin

text \<open>
  The inode table.  It refines a multiset of references to inodes: \<^verbatim>\<open>iget\<close> and \<^verbatim>\<open>idup\<close> add a
  reference, \<^verbatim>\<open>iput\<close> drops one, and all other operations leave the references as they are.
\<close>

section \<open>What the layers below leave alone\<close>

definition keeps_fs :: "'a logsys_scheme \<Rightarrow> 'a logsys_scheme \<Rightarrow> bool" where
  "keeps_fs s s' \<longleftrightarrow> logsys.more s' = logsys.more s"

lemma keeps_fs_simps: "keeps_fs s s' \<Longrightarrow> inodes s' = inodes s" "keeps_fs s s' \<Longrightarrow> sb s' = sb s" "keeps_fs s s' \<Longrightarrow> fsys.more s' = fsys.more s"
  for s s' :: "'a fsys_scheme"
  by (cases s; cases s'; simp add: keeps_fs_def)+

lemma keeps_fs_refl [simp]: "keeps_fs s s"
  by (simp add: keeps_fs_def)

lemma keeps_fs_trans: "keeps_fs s s' \<Longrightarrow> keeps_fs s' s'' \<Longrightarrow> keeps_fs s s''"
  by (simp add: keeps_fs_def)

lemma more_set_data [simp]: "logsys.more (set_data s i d) = logsys.more s"
  by (simp add: set_data_def set_buf_def)

lemma bread_keeps: "bread s dev b = Ret (i, s') \<Longrightarrow> keeps_fs s s'"
  by (auto simp: bread_def bget_def acquiresleep_def virtio_disk_rw_def set_buf_def keeps_fs_def Let_def rbind_def
      split: option.splits if_splits res.splits)

lemma brelse_keeps: "brelse s i = Ret s' \<Longrightarrow> keeps_fs s s'"
  by (auto simp: brelse_def set_buf_def keeps_fs_def Let_def split: if_splits)

lemma log_write_keeps: "log_write s i = Ret s' \<Longrightarrow> keeps_fs s s'"
  by (auto simp: log_write_def bpin_def set_buf_def keeps_fs_def Let_def split: if_splits)

lemmas cache_keeps = bread_keeps brelse_keeps log_write_keeps

lemma bzero_keeps: "bzero s dev b = Ret s' \<Longrightarrow> keeps_fs s s'"
  unfolding bzero_def by (auto simp: rbind_Ret_iff keeps_fs_def dest!: cache_keeps)

lemma balloc_loop_keeps: "balloc_loop bs dev s = Ret (b, s') \<Longrightarrow> keeps_fs s s'"
proof (induction bs arbitrary: s)
  case (Cons x bs)
  then show ?case
    by (auto simp: rbind_Ret_iff keeps_fs_def split: option.splits dest!: cache_keeps bzero_keeps)
qed simp

lemma balloc_keeps: "balloc s dev = Ret (b, s') \<Longrightarrow> keeps_fs s s'"
  unfolding balloc_def by (rule balloc_loop_keeps)

lemma bfree_keeps: "bfree s dev b = Ret s' \<Longrightarrow> keeps_fs s s'"
  unfolding bfree_def by (auto simp: rbind_Ret_iff keeps_fs_def Let_def split: if_splits dest!: cache_keeps)

lemma iupdate_keeps: "iupdate s ip = Ret s' \<Longrightarrow> keeps_fs s s'"
  unfolding iupdate_def by (auto simp: rbind_Ret_iff keeps_fs_def dest!: cache_keeps)

lemmas block_keeps = cache_keeps bzero_keeps balloc_keeps bfree_keeps iupdate_keeps

section \<open>References\<close>

definition irefs :: "'a fsys_scheme \<Rightarrow> (nat \<times> nat) multiset" where
  "irefs s = (\<Sum>x\<leftarrow>inodes s. replicate_mset (nat (i_ref x)) (i_dev x, i_inum x))"

definition live :: "'a fsys_scheme \<Rightarrow> nat \<Rightarrow> bool" where
  "live s ip \<longleftrightarrow> ip < NINODE \<and> i_ref (ino s ip) > 0"

text \<open>
  The table has its fixed size, every entry has thirteen block addresses and a count that is not
  negative, and no two entries in use stand for the same inode.
\<close>

definition itable_inv :: "'a fsys_scheme \<Rightarrow> bool" where
  "itable_inv s \<longleftrightarrow> length (inodes s) = NINODE \<and>
     (\<forall>ip < NINODE. 0 \<le> i_ref (ino s ip) \<and> length (i_addrs (ino s ip)) = NDIRECT + 1) \<and>
     (\<forall>ip jp. live s ip \<longrightarrow> live s jp \<longrightarrow> i_dev (ino s ip) = i_dev (ino s jp) \<longrightarrow> i_inum (ino s ip) = i_inum (ino s jp) \<longrightarrow> ip = jp)"

text \<open>The references of the entries, and what lies above the file system; operations that keep the shape may change the other fields.\<close>

definition ref_of :: "inode \<Rightarrow> nat \<times> nat \<times> int \<times> nat" where
  "ref_of x = (i_dev x, i_inum x, i_ref x, length (i_addrs x))"

definition shape :: "'a fsys_scheme \<Rightarrow> superblock \<times> (nat \<times> nat \<times> int \<times> nat) list \<times> 'a" where
  "shape s = (sb s, map ref_of (inodes s), fsys.more s)"

lemma keeps_shape: "keeps_fs s s' \<Longrightarrow> shape s' = shape s"
  by (simp add: shape_def keeps_fs_simps)

lemma shape_nth:
  assumes "shape s' = shape s"
  shows "length (inodes s') = length (inodes s)" "ip < length (inodes s) \<Longrightarrow> ref_of (ino s' ip) = ref_of (ino s ip)" "sb s' = sb s"
proof -
  have e: "map ref_of (inodes s') = map ref_of (inodes s)" using assms by (simp add: shape_def)
  show l: "length (inodes s') = length (inodes s)" using arg_cong [OF e, of length] by simp
  show "ip < length (inodes s) \<Longrightarrow> ref_of (ino s' ip) = ref_of (ino s ip)" using arg_cong [OF e, of "\<lambda>xs. xs ! ip"] l by simp
  show "sb s' = sb s" using assms by (simp add: shape_def)
qed

lemma irefs_alt: "irefs s = (\<Sum>k\<leftarrow>map ref_of (inodes s). replicate_mset (nat (fst (snd (snd k)))) (fst k, fst (snd k)))"
  by (simp add: irefs_def ref_of_def comp_def)

lemma shape_irefs: "shape s' = shape s \<Longrightarrow> irefs s' = irefs s"
  by (simp only: irefs_alt shape_def prod.inject)

lemma shape_inv:
  assumes "shape s' = shape s" "itable_inv s"
  shows "itable_inv s'"
proof -
  have l: "length (inodes s) = NINODE" "length (inodes s') = NINODE" using assms(2) shape_nth(1) [OF assms(1)] by (auto simp: itable_inv_def)
  have r: "i_dev (ino s' ip) = i_dev (ino s ip)" "i_inum (ino s' ip) = i_inum (ino s ip)"
    "i_ref (ino s' ip) = i_ref (ino s ip)" "length (i_addrs (ino s' ip)) = length (i_addrs (ino s ip))" if "ip < NINODE" for ip
    using shape_nth(2) [OF assms(1), of ip] l that by (simp_all add: ref_of_def)
  then have "live s' ip = live s ip" for ip by (auto simp: live_def)
  moreover have "live s ip \<Longrightarrow> ip < NINODE" for ip by (simp add: live_def)
  ultimately show ?thesis using assms(2) r l unfolding itable_inv_def by simp
qed

lemma shape_set_data [simp]: "shape (set_data s i d) = shape s"
  by (rule keeps_shape) (simp add: keeps_fs_def)

lemma shape_set_inode [simp]:
  assumes "ref_of x = ref_of (ino s ip)"
  shows "shape (set_inode s ip x) = shape s"
proof (cases "ip < length (inodes s)")
  case True
  then have "(map ref_of (inodes s))[ip := ref_of x] = map ref_of (inodes s)" using assms by (metis length_map list_update_id nth_map)
  then show ?thesis by (simp add: shape_def set_inode_def map_update)
qed (simp add: shape_def set_inode_def list_update_beyond)

lemma ref_of_upd [simp]:
  "length as = length (i_addrs x) \<Longrightarrow> ref_of (x\<lparr>i_addrs := as\<rparr>) = ref_of x" "ref_of (x\<lparr>i_type := t\<rparr>) = ref_of x"
  "ref_of (x\<lparr>i_size := n\<rparr>) = ref_of x" "ref_of (x\<lparr>i_locked := l\<rparr>) = ref_of x" "ref_of (x\<lparr>i_valid := v\<rparr>) = ref_of x"
  by (simp_all add: ref_of_def)

lemma set_inode_sel [simp]:
  "inodes (set_inode s ip x) = (inodes s)[ip := x]" "sb (set_inode s ip x) = sb s"
  by (simp_all add: set_inode_def)

section \<open>Operations that keep the references\<close>

lemmas block_shape = block_keeps [THEN keeps_shape]

lemma bmap_shape: "bmap s ip bn = Ret (a, s') \<Longrightarrow> shape s' = shape s"
  unfolding bmap_def by (auto simp: rbind_Ret_iff Let_def split: if_splits dest!: block_shape)

lemma itrunc_direct_shape: "itrunc_direct is ip s = Ret s' \<Longrightarrow> shape s' = shape s"
proof (induction "is" arbitrary: s)
  case (Cons i "is")
  then show ?case by (auto simp: rbind_Ret_iff split: if_splits dest!: block_shape)
qed simp

lemma itrunc_indirect_shape: "itrunc_indirect js dev bp s = Ret s' \<Longrightarrow> shape s' = shape s"
proof (induction js arbitrary: s)
  case (Cons j js)
  then show ?case by (fastforce simp: rbind_Ret_iff Let_def split: if_splits dest!: block_shape)
qed simp

lemma itrunc_shape: "itrunc s ip = Ret s' \<Longrightarrow> shape s' = shape s"
  unfolding itrunc_def
  by (auto simp: rbind_Ret_iff Let_def split: if_splits dest!: block_shape itrunc_direct_shape itrunc_indirect_shape)

lemma readi_loop_shape: "readi_loop sink ip off n tot acc s = Ret (r, bs, s') \<Longrightarrow> shape s' = shape s"
proof (induction sink ip off n tot acc s rule: readi_loop.induct)
  case (1 sink ip off n tot acc s)
  show ?case
  proof (cases "tot < n")
    case True
    obtain a s1 where b: "bmap s ip (off div BSIZE) = Ret (a, s1)"
      using "1.prems" True by (subst (asm) readi_loop.simps) (auto simp: rbind_Ret_iff)
    show ?thesis
    proof (cases "a = 0")
      case False
      obtain bp s2 s3 where c: "bread s1 (i_dev (ino s1 ip)) a = Ret (bp, s2)" "brelse s2 bp = Ret s3"
        using "1.prems" True b False by (subst (asm) readi_loop.simps) (auto simp: rbind_Ret_iff Let_def)
      have "shape s3 = shape s" using block_shape(1) [OF c(1)] block_shape(2) [OF c(2)] bmap_shape [OF b] by simp
      then show ?thesis
        using "1.prems" "1.IH" [OF True b, of a s1] True b False c by (subst (asm) readi_loop.simps) (auto simp: Let_def split: if_splits)
    qed (use "1.prems" True b bmap_shape [OF b] in \<open>subst (asm) readi_loop.simps, auto\<close>)
  qed (use "1.prems" in \<open>subst (asm) readi_loop.simps, auto\<close>)
qed

lemma writei_loop_shape: "writei_loop src ip off n tot s = Ret (t, off', s') \<Longrightarrow> shape s' = shape s"
proof (induction src ip off n tot s rule: writei_loop.induct)
  case (1 src ip off n tot s)
  show ?case
  proof (cases "tot < n")
    case True
    obtain a s1 where b: "bmap s ip (off div BSIZE) = Ret (a, s1)"
      using "1.prems" True by (subst (asm) writei_loop.simps) (auto simp: rbind_Ret_iff)
    show ?thesis
    proof (cases "a = 0")
      case False
      obtain bp s2 where c: "bread s1 (i_dev (ino s1 ip)) a = Ret (bp, s2)"
        using "1.prems" True b False by (subst (asm) writei_loop.simps) (auto simp: rbind_Ret_iff)
      define m where "m = min (n - tot) (BSIZE - off mod BSIZE)"
      obtain bs ok where o: "src tot m = (bs, ok)" by (cases "src tot m")
      define s3 where "s3 = set_data s2 bp (take (off mod BSIZE) (data_of s2 bp) @ bs @ drop (off mod BSIZE + length bs) (data_of s2 bp))"
      have h: "shape s3 = shape s" using block_shape(1) [OF c] bmap_shape [OF b] by (simp add: s3_def)
      have e: "writei_loop src ip off n tot s =
          (if \<not> ok then rbind (brelse s3 bp) (\<lambda>s. Ret (tot, off, s))
           else rbind (log_write s3 bp) (\<lambda>s. rbind (brelse s bp) (\<lambda>s. writei_loop src ip (off + m) n (tot + m) s)))"
        using True b False c o by (subst writei_loop.simps) (simp add: Let_def m_def s3_def)
      show ?thesis
      proof (cases ok)
        case ok: True
        then obtain s4 s5 where d: "log_write s3 bp = Ret s4" "brelse s4 bp = Ret s5" "writei_loop src ip (off + m) n (tot + m) s5 = Ret (t, off', s')"
          using "1.prems" e by (auto simp: rbind_Ret_iff)
        have "shape s' = shape s5"
          by (rule "1.IH" [OF True b refl False c refl m_def refl refl o [symmetric] s3_def _ d]) (simp add: ok)
        then show ?thesis using block_shape(2) [OF d(2)] block_shape(3) [OF d(1)] h by simp
      next
        case False
        then obtain s4 where d: "brelse s3 bp = Ret s4" "s' = s4" using "1.prems" e by (auto simp: rbind_Ret_iff)
        then show ?thesis using block_shape(2) [OF d(1)] h by simp
      qed
    qed (use "1.prems" True b bmap_shape [OF b] in \<open>subst (asm) writei_loop.simps, auto\<close>)
  qed (use "1.prems" in \<open>subst (asm) writei_loop.simps, auto\<close>)
qed

lemma readi_shape: "readi s ip sink off n = Ret (r, bs, s') \<Longrightarrow> shape s' = shape s"
  by (auto simp: readi_def Let_def split: if_splits dest: readi_loop_shape)

lemma writei_shape: "writei s ip src off n = Ret (r, s') \<Longrightarrow> shape s' = shape s"
  by (auto simp: writei_def Let_def rbind_Ret_iff split: if_splits dest!: writei_loop_shape block_shape)

lemma get_dinode_ref [simp]: "length (i_addrs x) = NDIRECT + 1 \<Longrightarrow> ref_of (get_dinode d p x) = ref_of x"
  by (simp add: get_dinode_def ref_of_def)

lemma ilock_shape:
  assumes "ilock s ip = Ret s'" "itable_inv s" "ip < NINODE"
  shows "shape s' = shape s"
proof -
  define s1 where "s1 = set_inode s ip ((ino s ip)\<lparr>i_locked := True\<rparr>)"
  have a: "acquire_inode s ip = Ret s1" using assms(1) by (auto simp: ilock_def acquire_inode_def s1_def split: if_splits)
  have h1: "shape s1 = shape s" by (simp add: s1_def)
  show ?thesis
  proof (cases "i_valid (ino s1 ip)")
    case True
    then show ?thesis using assms(1) a h1 by (auto simp: ilock_def split: if_splits)
  next
    case False
    obtain bp s2 s3 where b: "bread s1 (i_dev (ino s1 ip)) (IBLOCK (i_inum (ino s1 ip)) (sb s1)) = Ret (bp, s2)"
      "brelse (set_inode s2 ip (get_dinode (data_of s2 bp) (dip (i_inum (ino s2 ip))) (ino s2 ip))) bp = Ret s3"
      "s' = set_inode s3 ip ((ino s3 ip)\<lparr>i_valid := True\<rparr>)"
      using assms(1) a False by (auto simp: ilock_def rbind_Ret_iff Let_def split: if_splits)
    have h2: "shape s2 = shape s" using block_shape(1) [OF b(1)] h1 by simp
    have "length (i_addrs (ino s2 ip)) = NDIRECT + 1" using shape_inv [OF h2 assms(2)] assms(3) by (simp add: itable_inv_def)
    then show ?thesis using h2 b(3) block_shape(2) [OF b(2)] by simp
  qed
qed

lemma iunlock_shape: "iunlock s ip = Ret s' \<Longrightarrow> shape s' = shape s"
  by (auto simp: iunlock_def split: if_splits)

section \<open>Operations that change the references\<close>

lemma sum_list_update_add:
  fixes f :: "'a \<Rightarrow> 'b :: comm_monoid_add"
  shows "i < length xs \<Longrightarrow> (\<Sum>x\<leftarrow>xs[i := y]. f x) + f (xs ! i) = (\<Sum>x\<leftarrow>xs. f x) + f y"
proof (induction xs arbitrary: i)
  case (Cons x xs)
  show ?case
  proof (cases i)
    case (Suc j)
    then show ?thesis using Cons.IH [of j] Cons.prems by (simp add: add.assoc)
  qed (simp add: ac_simps)
qed simp

definition ref_mset :: "inode \<Rightarrow> (nat \<times> nat) multiset" where
  "ref_mset x = replicate_mset (nat (i_ref x)) (i_dev x, i_inum x)"

lemma irefs_set_inode: "ip < length (inodes s) \<Longrightarrow> irefs (set_inode s ip x) + ref_mset (ino s ip) = irefs s + ref_mset x"
  using sum_list_update_add [of ip "inodes s" ref_mset x] by (simp add: irefs_def ref_mset_def)

lemma irefs_elem: "itable_inv s \<Longrightarrow> r \<in># irefs s \<longleftrightarrow> (\<exists>ip. live s ip \<and> (i_dev (ino s ip), i_inum (ino s ip)) = r)"
proof -
  assume inv: "itable_inv s"
  have "r \<in># irefs s \<longleftrightarrow> (\<exists>x \<in> set (inodes s). i_ref x > 0 \<and> r = (i_dev x, i_inum x))"
    unfolding irefs_def by (force simp: in_replicate_mset not_le split: if_splits)
  also have "\<dots> \<longleftrightarrow> (\<exists>ip < length (inodes s). i_ref (ino s ip) > 0 \<and> r = (i_dev (ino s ip), i_inum (ino s ip)))"
    by (metis in_set_conv_nth)
  also have "\<dots> \<longleftrightarrow> (\<exists>ip. live s ip \<and> (i_dev (ino s ip), i_inum (ino s ip)) = r)"
    using inv by (auto simp: live_def itable_inv_def)
  finally show ?thesis .
qed

lemma set_inode_inv:
  assumes "itable_inv s" "ip < NINODE" "0 \<le> i_ref x" "length (i_addrs x) = NDIRECT + 1"
    "\<And>jp. live s jp \<Longrightarrow> jp \<noteq> ip \<Longrightarrow> 0 < i_ref x \<Longrightarrow> (i_dev (ino s jp), i_inum (ino s jp)) \<noteq> (i_dev x, i_inum x)"
  shows "itable_inv (set_inode s ip x)"
proof -
  have l: "length (inodes s) = NINODE" using assms(1) by (simp add: itable_inv_def)
  have n: "ino (set_inode s ip x) jp = (if jp = ip then x else ino s jp)" for jp using assms(2) l by (simp add: nth_list_update)
  then have v: "live (set_inode s ip x) jp = (if jp = ip then 0 < i_ref x else live s jp)" for jp using assms(2) by (simp add: live_def)
  show ?thesis
    unfolding itable_inv_def v n using assms(1-4) assms(5) [unfolded prod.inject] l
    by (auto simp: itable_inv_def split: if_splits) metis+
qed

lemma iget_found:
  assumes "itable_inv s" "ip < NINODE" "i_ref (ino s ip) > 0"
  defines "t \<equiv> set_inode s ip ((ino s ip)\<lparr>i_ref := i_ref (ino s ip) + 1\<rparr>)"
  shows "itable_inv t" "irefs t = add_mset (i_dev (ino s ip), i_inum (ino s ip)) (irefs s)" "live t ip"
    "i_dev (ino t ip) = i_dev (ino s ip)" "i_inum (ino t ip) = i_inum (ino s ip)"
proof -
  have l: "length (inodes s) = NINODE" using assms(1) by (simp add: itable_inv_def)
  have li: "live s ip" using assms(2,3) by (simp add: live_def)
  show "itable_inv t" unfolding t_def
    by (rule set_inode_inv [OF assms(1,2)]) (use assms li in \<open>auto simp: itable_inv_def\<close>)
  have "nat (i_ref (ino s ip) + 1) = Suc (nat (i_ref (ino s ip)))" using assms(3) by simp
  then show "irefs t = add_mset (i_dev (ino s ip), i_inum (ino s ip)) (irefs s)"
    using irefs_set_inode [of ip s "(ino s ip)\<lparr>i_ref := i_ref (ino s ip) + 1\<rparr>"] assms(2) l by (simp add: t_def ref_mset_def)
  show "live t ip" "i_dev (ino t ip) = i_dev (ino s ip)" "i_inum (ino t ip) = i_inum (ino s ip)"
    using assms(2,3) l by (simp_all add: t_def live_def)
qed

lemma iget_spec:
  assumes "itable_inv s"
  shows "case iget s dev inum of
      Ret (ip, s') \<Rightarrow> itable_inv s' \<and> irefs s' = add_mset (dev, inum) (irefs s) \<and> live s' ip \<and> i_dev (ino s' ip) = dev \<and> i_inum (ino s' ip) = inum
    | Panic e \<Rightarrow> (dev, inum) \<notin># irefs s \<and> card (set_mset (irefs s)) = NINODE"
proof -
  let ?P = "\<lambda>i. i_ref (ino s i) > 0 \<and> i_dev (ino s i) = dev \<and> i_inum (ino s i) = inum"
  have l: "length (inodes s) = NINODE" using assms by (simp add: itable_inv_def)
  show ?thesis
  proof (cases "find ?P [0..<NINODE]")
    case (Some ip)
    then have "ip < NINODE" "?P ip" using find_SomeD [OF Some] by simp_all
    then show ?thesis using Some iget_found [OF assms, of ip] by (simp add: iget_def)
  next
    case None
    then have no: "(i_dev (ino s jp), i_inum (ino s jp)) \<noteq> (dev, inum)" if "live s jp" for jp
      using that by (auto simp: find_None_iff live_def)
    show ?thesis
    proof (cases "find (\<lambda>i. i_ref (ino s i) = 0) [0..<NINODE]")
      case none: None
      then have "i_ref (ino s ip) \<noteq> 0" if "ip < NINODE" for ip using that by (auto simp: find_None_iff)
      then have lv: "live s ip" if "ip < NINODE" for ip using that assms by (force simp: live_def itable_inv_def)
      have "set_mset (irefs s) = (\<lambda>ip. (i_dev (ino s ip), i_inum (ino s ip))) ` {..<NINODE}"
        using irefs_elem [OF assms] lv by (auto simp: live_def image_iff)
      moreover have "inj_on (\<lambda>ip. (i_dev (ino s ip), i_inum (ino s ip))) {..<NINODE}"
        using assms lv by (auto simp: inj_on_def itable_inv_def)
      ultimately have "card (set_mset (irefs s)) = NINODE" by (simp add: card_image)
      moreover have "(dev, inum) \<notin># irefs s" using no irefs_elem [OF assms] by blast
      ultimately show ?thesis using None none by (simp add: iget_def)
    next
      case (Some ip)
      then have ip: "ip < NINODE" "i_ref (ino s ip) = 0" using find_SomeD [OF Some] by simp_all
      let ?x = "(ino s ip)\<lparr>i_dev := dev, i_inum := inum, i_ref := 1, i_valid := False\<rparr>"
      have "itable_inv (set_inode s ip ?x)"
        by (rule set_inode_inv [OF assms ip(1)]) (use assms ip no in \<open>auto simp: itable_inv_def\<close>)
      moreover have "irefs (set_inode s ip ?x) = add_mset (dev, inum) (irefs s)"
        using irefs_set_inode [of ip s ?x] ip l by (simp add: ref_mset_def)
      ultimately show ?thesis using None Some ip l by (simp add: iget_def live_def)
    qed
  qed
qed

lemma iput_free_shape:
  assumes "rbind (acquire_inode s ip) (\<lambda>s. rbind (itrunc s ip) (\<lambda>s. rbind (iupdate (set_inode s ip ((ino s ip)\<lparr>i_type := 0\<rparr>)) ip) (\<lambda>s.
     Ret (set_inode s ip ((ino s ip)\<lparr>i_valid := False, i_locked := False\<rparr>))))) = Ret s'"
  shows "shape s' = shape s"
  using assms unfolding acquire_inode_def by (auto simp: rbind_Ret_iff split: if_splits dest!: itrunc_shape block_shape)

lemma iput_spec:
  assumes "itable_inv s" "live s ip" "iput s ip = Ret s'"
  shows "itable_inv s'" "add_mset (i_dev (ino s ip), i_inum (ino s ip)) (irefs s') = irefs s"
proof -
  obtain s1 where s1: "shape s1 = shape s" "s' = set_inode s1 ip ((ino s1 ip)\<lparr>i_ref := i_ref (ino s1 ip) - 1\<rparr>)"
    using assms(3) unfolding iput_def by (rule rbind_RetE) (auto dest: iput_free_shape split: if_splits)
  have ip: "ip < NINODE" "0 < i_ref (ino s ip)" "length (inodes s) = NINODE" using assms(1,2) by (simp_all add: live_def itable_inv_def)
  have inv: "itable_inv s1" by (rule shape_inv [OF s1(1) assms(1)])
  have e: "i_dev (ino s1 ip) = i_dev (ino s ip)" "i_inum (ino s1 ip) = i_inum (ino s ip)" "i_ref (ino s1 ip) = i_ref (ino s ip)"
    using shape_nth(2) [OF s1(1), of ip] ip by (simp_all add: ref_of_def)
  have lv: "live s1 ip" using ip e by (simp add: live_def)
  show "itable_inv s'" unfolding s1(2)
    by (rule set_inode_inv [OF inv ip(1)]) (use inv lv ip e in \<open>auto simp: itable_inv_def\<close>)
  have "nat (i_ref (ino s ip)) = Suc (nat (i_ref (ino s ip) - 1))" using ip(2) by simp
  then show "add_mset (i_dev (ino s ip), i_inum (ino s ip)) (irefs s') = irefs s"
    using irefs_set_inode [of ip s1 "(ino s1 ip)\<lparr>i_ref := i_ref (ino s1 ip) - 1\<rparr>"] shape_nth(1) [OF s1(1)] shape_irefs [OF s1(1)] ip e
    unfolding s1(2) by (simp add: ref_mset_def)
qed

section \<open>Properties\<close>

text \<open>
  C31: The inode table refines a multiset of references.  \<^verbatim>\<open>iget\<close> adds a reference to the inode it
  is asked for and returns an entry for it, and panics only when fifty other inodes are in use; \<^verbatim>\<open>idup\<close>
  adds a reference and \<^verbatim>\<open>iput\<close> drops one, whether or not it frees the inode on disk; the table stays
  well formed, with one entry per inode in use.
\<close>

theorem itable_refines_references:
  assumes "itable_inv s"
  shows "(case iget s dev inum of
      Ret (ip, s') \<Rightarrow> itable_inv s' \<and> irefs s' = add_mset (dev, inum) (irefs s) \<and> live s' ip \<and> i_dev (ino s' ip) = dev \<and> i_inum (ino s' ip) = inum
    | Panic e \<Rightarrow> (dev, inum) \<notin># irefs s \<and> card (set_mset (irefs s)) = NINODE) \<and>
    (live s ip \<longrightarrow> itable_inv (snd (idup s ip)) \<and> irefs (snd (idup s ip)) = add_mset (i_dev (ino s ip), i_inum (ino s ip)) (irefs s)) \<and>
    (live s ip \<and> iput s ip = Ret s' \<longrightarrow> itable_inv s' \<and> add_mset (i_dev (ino s ip), i_inum (ino s ip)) (irefs s') = irefs s)"
  using iget_spec [OF assms, of dev inum] iget_found [OF assms, of ip] iput_spec [OF assms, of ip s']
  by (simp add: idup_def live_def)

definition empty_table :: "unit fsys_scheme" where
  "empty_table = \<lparr>bufs = [], mru = [], disk = \<lambda>_. [], dwrites = [], lg_start = 0, lg_outstanding = 0, lg_committing = False, lg_dev = 1, lg_n = 0, lg_block = [],
     sb = get_sb (replicate BSIZE 0),
     inodes = replicate NINODE \<lparr>i_dev = 0, i_inum = 0, i_ref = 0, i_locked = False, i_valid = False, i_type = 0, i_major = 0, i_minor = 0, i_nlink = 0, i_size = 0, i_addrs = replicate (NDIRECT + 1) 0\<rparr>\<rparr>"

lemma empty_table_inv: "itable_inv empty_table"
  by (auto simp: itable_inv_def empty_table_def live_def)

theorem itable_refines_references_witness:
  "\<exists>ip s'. iget empty_table 1 5 = Ret (ip, s') \<and> irefs s' = {#(1, 5)#} \<and> i_inum (ino s' ip) = 5"
proof -
  have i: "irefs empty_table = {#}" by (simp add: irefs_def empty_table_def NINODE_def eval_nat_numeral)
  show ?thesis
    using itable_refines_references [OF empty_table_inv, where dev = 1 and inum = 5 and ip = 0 and s' = empty_table, THEN conjunct1] i
    by (cases "iget empty_table 1 5") (auto simp: NINODE_def)
qed

end
