(* ===== verification/Fs_Alloc.thy ===== *)
theory Fs_Alloc
  imports Fs_Table
begin

text \<open>
  The block allocator of \<^verbatim>\<open>kernel/fs.c\<close>.  It refines a set of free blocks: \<^verbatim>\<open>balloc\<close> takes the
  smallest one and clears it, \<^verbatim>\<open>bfree\<close> puts one back.
\<close>

section \<open>Reading and changing one block\<close>

text \<open>\<open>room k s hs\<close>: an operation in progress that holds the blocks \<open>hs\<close> may still change \<open>k\<close> blocks.\<close>

definition room :: "nat \<Rightarrow> 'a logsys_scheme \<Rightarrow> nat set \<Rightarrow> bool" where
  "room k s hs \<longleftrightarrow> lg_n s + int k + int (card hs) \<le> LOGBLOCKS \<and> 1 \<le> lg_outstanding s"

lemma room_mono: "room k s hs \<Longrightarrow> j \<le> k \<Longrightarrow> room j s hs"
  by (simp add: room_def)

lemma room_card:
  assumes "op_inv hs s" "room (Suc k) s hs"
  shows "card (insert b (set (logged s) \<union> hs)) \<le> NBUF" "lg_n s < LOGBLOCKS" "1 \<le> lg_outstanding s"
proof -
  have n: "lg_n s = int (length (logged s))" by (rule op_inv_len [OF assms(1)])
  have f: "finite hs" using assms(1) by (simp add: op_inv_def)
  have "card (insert b (set (logged s) \<union> hs)) \<le> Suc (card (set (logged s) \<union> hs))" using f by (simp add: card_insert_if)
  also have "\<dots> \<le> Suc (card (set (logged s)) + card hs)" using card_Un_le [of "set (logged s)" hs] by simp
  also have "\<dots> \<le> Suc (length (logged s) + card hs)" using card_length [of "logged s"] by simp
  finally show "card (insert b (set (logged s) \<union> hs)) \<le> NBUF" using assms(2) n unfolding room_def LOGBLOCKS_def MAXOPBLOCKS_def NBUF_def by linarith
  show "lg_n s < LOGBLOCKS" "1 \<le> lg_outstanding s" using assms(2) by (auto simp: room_def)
qed

lemma op_clean:
  assumes "op_inv hs s" "b \<notin> hs" "b \<notin> set (logged s)"
  shows "view (lg_dev s) s b = disk s b"
  by (rule unreferenced_clean) (use assms in \<open>auto simp: op_inv_def\<close>)

lemma frame_dev: "op_frame s s' \<Longrightarrow> lg_dev s' = lg_dev s" "op_frame s s' \<Longrightarrow> lg_start s' = lg_start s"
  "op_frame s s' \<Longrightarrow> lg_outstanding s' = lg_outstanding s" "op_frame s s' \<Longrightarrow> disk s' = disk s"
  by (simp_all add: op_frame_def)

lemma frame_keeps: "op_frame s s' \<Longrightarrow> keeps_fs s s'"
  by (simp add: op_frame_def keeps_fs_def)

definition keeps_held :: "nat \<Rightarrow> nat set \<Rightarrow> 'a bcache_scheme \<Rightarrow> 'a bcache_scheme \<Rightarrow> bool" where
  "keeps_held dev hs s s' \<longleftrightarrow> (\<forall>c \<in> hs. \<forall>j. holds dev s c j \<longrightarrow> holds dev s' c j)"

lemma op_read:
  assumes "op_inv hs s" "b \<notin> hs" "room (Suc k) s hs"
  obtains i s1 s2 where "bread s (lg_dev s) b = Ret (i, s1)" "data_of s1 i = view (lg_dev s) s b" "op_frame s s1" "brelse s1 i = Ret s2"
    "op_inv hs s2" "view (lg_dev s) s2 = view (lg_dev s) s" "logged s2 = logged s" "op_frame s s2" "room (Suc k) s2 hs" "keeps_held (lg_dev s) hs s s2"
    "holds (lg_dev s) s1 b i" "op_inv (insert b hs) s1" "logged s1 = logged s"  "view (lg_dev s) s1 = view (lg_dev s) s"
    "keeps_held (lg_dev s) hs s s1"
proof -
  note ok = that
  obtain i s1 where r: "bread s (lg_dev s) b = Ret (i, s1)" "op_inv (insert b hs) s1" "holds (lg_dev s) s1 b i" "b_data (bufs s1 ! i) = view (lg_dev s) s b"
    "view (lg_dev s) s1 = view (lg_dev s) s" "logged s1 = logged s" "op_frame s s1" "\<And>c j. holds (lg_dev s) s c j \<Longrightarrow> c \<in> hs \<Longrightarrow> holds (lg_dev s) s1 c j"
    by (rule op_bread [OF assms(1,2) room_card(1) [OF assms(1,3)]]) blast
  note f1 = frame_dev [OF r(7)]
  have cl: "b \<in> set (logged s1) \<or> view (lg_dev s1) s1 b = disk s1 b" using op_clean [OF assms(1,2)] r(5,6) f1 by auto
  obtain s2 where z: "brelse s1 i = Ret s2" "op_inv (insert b hs - {b}) s2" "view (lg_dev s1) s2 = view (lg_dev s1) s1" "logged s2 = logged s1" "op_frame s1 s2"
    "\<And>c j. holds (lg_dev s1) s1 c j \<Longrightarrow> c \<noteq> b \<Longrightarrow> holds (lg_dev s1) s2 c j"
    by (rule op_brelse [OF r(2) _ _ cl]) (use r(3) f1 in auto)
  have hs: "insert b hs - {b} = hs" using assms(2) by auto
  have k1: "keeps_held (lg_dev s) hs s s1" using r(8) by (simp add: keeps_held_def)
  have k2: "keeps_held (lg_dev s) hs s s2" using k1 z(6) f1 assms(2) unfolding keeps_held_def by metis
  have lg: "lg_n s2 = lg_n s" using op_inv_len [OF z(2)] op_inv_len [OF assms(1)] z(4) r(6) by simp
  show thesis
  proof (rule ok [OF r(1) _ r(7) z(1) _ _ _ _ _ k2 r(3,2,6,5) k1])
    show "room (Suc k) s2 hs" using assms(3) lg frame_dev(3) [OF z(5)] f1 by (simp add: room_def)
  qed (use z r hs f1 op_frame_trans in \<open>auto simp: data_of_def\<close>)
qed

lemma op_modify:
  assumes "op_inv hs s" "holds (lg_dev s) s b i" "b \<in> hs" "room k s hs" "\<not> in_log (lg_start s) b" "b < 2 ^ 32"
  obtains s' where "rbind (log_write (set_data s i d) i) (\<lambda>s. brelse s i) = Ret s'" "op_inv (hs - {b}) s'"
    "view (lg_dev s) s' = (view (lg_dev s) s)(b := d)" "op_frame s s'" "room k s' (hs - {b})" "keeps_held (lg_dev s) (hs - {b}) s s'"
    "set (logged s') = insert b (set (logged s))"
proof -
  note ok = that
  have f: "finite hs" using assms(1) by (simp add: op_inv_def)
  then have c: "card hs = Suc (card (hs - {b}))" using assms(3) by (metis card.remove)
  have n: "lg_n s < LOGBLOCKS" "1 \<le> lg_outstanding s" using assms(4) c by (auto simp: room_def)
  let ?t = "set_data s i d"
  note sd = op_set_data [OF assms(1,2), where d = d]
  note f1 = frame_dev [OF sd(3)]
  have p: "holds (lg_dev ?t) ?t b i" "lg_n ?t < LOGBLOCKS" "1 \<le> lg_outstanding ?t" "\<not> in_log (lg_start ?t) b"
    using sd(4) f1 n assms(5) by simp_all
  obtain t where w: "log_write ?t i = Ret t" "op_inv hs t" "view (lg_dev ?t) t = view (lg_dev ?t) ?t"
    "logged t = (if b \<in> set (logged ?t) then logged ?t else logged ?t @ [b])" "op_frame ?t t" "\<And>c j. holds (lg_dev ?t) ?t c j \<Longrightarrow> holds (lg_dev ?t) t c j" "lg_n t = int (length (logged t))"
    by (rule op_log_write [OF sd(1) p assms(6)]) blast
  note f2 = frame_dev [OF w(5)]
  have bl: "b \<in> set (logged t)" using w(4) by auto
  have q: "holds (lg_dev t) t b i" using w(6) sd(4) f1 f2 by simp
  obtain s' where z: "brelse t i = Ret s'" "op_inv (hs - {b}) s'" "view (lg_dev t) s' = view (lg_dev t) t" "logged s' = logged t" "op_frame t s'"
    "\<And>c j. holds (lg_dev t) t c j \<Longrightarrow> c \<noteq> b \<Longrightarrow> holds (lg_dev t) s' c j"
    by (rule op_brelse [OF w(2) q assms(3)]) (use bl in blast)+
  have fr: "op_frame s s'" using op_frame_trans [OF op_frame_trans [OF sd(3) w(5)] z(5)] .
  have le: "lg_n s' \<le> lg_n s + 1"
    using op_inv_len [OF z(2)] op_inv_len [OF assms(1)] z(4) w(4) sd(6) by (auto split: if_splits)
  show thesis
  proof (rule ok [OF _ z(2) _ fr])
    show "rbind (log_write ?t i) (\<lambda>s. brelse s i) = Ret s'" using w(1) z(1) by simp
    show "view (lg_dev s) s' = (view (lg_dev s) s)(b := d)" using z(3) w(3) sd(2) f1 f2 by simp
    show "room k s' (hs - {b})" using assms(4) le c frame_dev(3) [OF fr] by (simp add: room_def)
    show "keeps_held (lg_dev s) (hs - {b}) s s'" using sd(5) w(6) z(6) f1 f2 unfolding keeps_held_def by (metis DiffD2 singletonI)
    show "set (logged s') = insert b (set (logged s))" using z(4) w(4) sd(6) by auto
  qed
qed

text \<open>What \<open>op_update\<close> promises of the state after a block was read, changed to \<open>d\<close>, logged and released.\<close>

definition updated :: "nat set \<Rightarrow> nat \<Rightarrow> nat \<Rightarrow> block \<Rightarrow> 'a logsys_scheme \<Rightarrow> 'a logsys_scheme \<Rightarrow> bool" where
  "updated hs k b d s s' \<longleftrightarrow> op_inv hs s' \<and> view (lg_dev s) s' = (view (lg_dev s) s)(b := d) \<and> op_frame s s' \<and> room k s' hs \<and> keeps_held (lg_dev s) hs s s'"

lemma op_update:
  assumes "op_inv hs s" "b \<notin> hs" "room (Suc k) s hs" "\<not> in_log (lg_start s) b" "b < 2 ^ 32"
  obtains i s1 where "bread s (lg_dev s) b = Ret (i, s1)" "data_of s1 i = view (lg_dev s) s b" "op_frame s s1"
    "\<And>d. \<exists>s'. rbind (log_write (set_data s1 i d) i) (\<lambda>s. brelse s i) = Ret s' \<and> updated hs k b d s s'"
proof -
  note ok = that
  obtain i s1 where r: "bread s (lg_dev s) b = Ret (i, s1)" "data_of s1 i = view (lg_dev s) s b" "op_frame s s1" "holds (lg_dev s) s1 b i" "op_inv (insert b hs) s1"
    "logged s1 = logged s" "view (lg_dev s) s1 = view (lg_dev s) s" "keeps_held (lg_dev s) hs s s1"
    by (rule op_read [OF assms(1-3)]) blast
  note f1 = frame_dev [OF r(3)]
  have hs: "insert b hs - {b} = hs" using assms(2) by auto
  have fin: "finite hs" using assms(1) by (simp add: op_inv_def)
  have ln: "lg_n s1 = lg_n s" using op_inv_len [OF r(5)] op_inv_len [OF assms(1)] r(6) by simp
  have rm: "room k s1 (insert b hs)" using assms(3) ln f1 fin assms(2) by (simp add: room_def)
  have "\<exists>s'. rbind (log_write (set_data s1 i d) i) (\<lambda>s. brelse s i) = Ret s' \<and> updated hs k b d s s'" for d
  proof -
    obtain s' where w: "rbind (log_write (set_data s1 i d) i) (\<lambda>s. brelse s i) = Ret s'" "op_inv hs s'"
      "view (lg_dev s1) s' = (view (lg_dev s1) s1)(b := d)" "op_frame s1 s'" "room k s' hs" "keeps_held (lg_dev s1) hs s1 s'"
      by (rule op_modify [OF r(5) _ _ rm, of b i d]) (use r(4) f1 assms(4,5) hs in auto)
    have "keeps_held (lg_dev s) hs s s'" using r(8) w(6) f1 by (simp add: keeps_held_def)
    then show ?thesis using w op_frame_trans [OF r(3) w(4)] r(7) f1 by (auto simp: updated_def)
  qed
  then show thesis by (rule ok [OF r(1-3)])
qed

section \<open>The bitmap\<close>

lemma bit_set_iff: "bit_set d bi \<longleftrightarrow> bit (d ! (bi div 8)) (bi mod 8)"
  by (simp add: bit_set_def bit_iff_and_push_bit_not_eq_0)

lemma bit_mask8: "m < 8 \<Longrightarrow> bit (2 ^ n :: uint8) m \<longleftrightarrow> m = n"
  by (auto simp: bit_exp_iff)

lemma byte_index: "bi < 8 * length d \<Longrightarrow> bi div 8 < length d"
  by (simp add: less_mult_imp_div_less mult.commute)

lemma bit_set_mark:
  assumes "bi < 8 * length d"
  shows "bit_set (mark_bit d bi) bj \<longleftrightarrow> bj = bi \<or> bit_set d bj"
proof (cases "bj div 8 = bi div 8")
  case True
  then have "bj = bi \<longleftrightarrow> bj mod 8 = bi mod 8" by (metis div_mult_mod_eq)
  then show ?thesis using True byte_index [OF assms] by (auto simp: bit_set_iff mark_bit_def bit_or_iff bit_mask8)
next
  case False
  then show ?thesis by (auto simp: bit_set_iff mark_bit_def)
qed

lemma bit_set_clear:
  assumes "bi < 8 * length d"
  shows "bit_set (clear_bit d bi) bj \<longleftrightarrow> bj \<noteq> bi \<and> bit_set d bj"
proof (cases "bj div 8 = bi div 8")
  case True
  then have "bj = bi \<longleftrightarrow> bj mod 8 = bi mod 8" by (metis div_mult_mod_eq)
  then show ?thesis using True byte_index [OF assms] by (auto simp: bit_set_iff clear_bit_def bit_and_iff bit_not_iff bit_mask8)
next
  case False
  then show ?thesis by (auto simp: bit_set_iff clear_bit_def)
qed

lemma length_bits [simp]: "length (mark_bit d bi) = length d" "length (clear_bit d bi) = length d"
  by (simp_all add: mark_bit_def clear_bit_def)

definition used :: "'a fsys_scheme \<Rightarrow> nat \<Rightarrow> bool" where
  "used s b \<longleftrightarrow> bit_set (view (lg_dev s) s (BBLOCK b (sb s))) (b mod BPB)"

definition free_blocks :: "'a fsys_scheme \<Rightarrow> nat set" where
  "free_blocks s = {b. b < sb_size (sb s) \<and> \<not> used s b}"

text \<open>
  The layout that \<^verbatim>\<open>mkfs\<close> builds: the bitmap lies in whole blocks outside the log, and the boot block,
  the log and the bitmap are in use.
\<close>

definition alloc_inv :: "'a fsys_scheme \<Rightarrow> bool" where
  "alloc_inv s \<longleftrightarrow> sb_size (sb s) < 2 ^ 32 \<and> sb_size (sb s) div BPB + sb_bmapstart (sb s) < 2 ^ 32 \<and>
     (\<forall>c < sb_size (sb s). \<not> in_log (lg_start s) (BBLOCK c (sb s)) \<and> length (view (lg_dev s) s (BBLOCK c (sb s))) = BSIZE) \<and>
     (\<forall>b \<in> free_blocks s. 0 < b \<and> \<not> in_log (lg_start s) b \<and> (\<forall>c < sb_size (sb s). b \<noteq> BBLOCK c (sb s)))"

text \<open>The caller holds no bitmap block and no free block.\<close>

definition holds_other :: "nat set \<Rightarrow> 'a fsys_scheme \<Rightarrow> bool" where
  "holds_other hs s \<longleftrightarrow> hs \<inter> free_blocks s = {} \<and> (\<forall>c < sb_size (sb s). BBLOCK c (sb s) \<notin> hs)"

lemma BBLOCK_eq:
  assumes "alloc_inv s" "c < sb_size (sb s)"
  shows "BBLOCK c (sb s) = c div BPB + sb_bmapstart (sb s)" "BBLOCK c (sb s) < 2 ^ 32"
proof -
  have "c div BPB \<le> sb_size (sb s) div BPB" using assms(2) by (simp add: div_le_mono)
  then show "BBLOCK c (sb s) = c div BPB + sb_bmapstart (sb s)" using assms(1) by (simp add: BBLOCK_def alloc_inv_def)
  show "BBLOCK c (sb s) < 2 ^ 32" by (simp add: BBLOCK_def)
qed

lemma used_frame: "op_frame s s' \<Longrightarrow> view (lg_dev s) s' = view (lg_dev s) s \<Longrightarrow> used s' = used s \<and> free_blocks s' = free_blocks s \<and> sb s' = sb s"
  using frame_dev(1) [of s s'] keeps_fs_simps(2) [OF frame_keeps, of s s'] by (auto simp: used_def free_blocks_def fun_eq_iff)

lemma alloc_frame:
  assumes "op_frame s s'" "view (lg_dev s) s' = view (lg_dev s) s"
  shows "alloc_inv s' = alloc_inv s" "holds_other hs s' = holds_other hs s"
  using used_frame [OF assms] frame_dev [OF assms(1)] assms(2) by (simp_all add: alloc_inv_def holds_other_def)

section \<open>Freeing\<close>

lemma bit_same_block:
  assumes "alloc_inv s" "b < sb_size (sb s)" "c < sb_size (sb s)" "BBLOCK c (sb s) = BBLOCK b (sb s)" "c mod BPB = b mod BPB"
  shows "c = b"
  using assms(4,5) BBLOCK_eq(1) [OF assms(1,2)] BBLOCK_eq(1) [OF assms(1,3)] by (metis add_right_cancel div_mult_mod_eq)

lemma BPB_less: "c mod BPB < BPB" "BPB = 8 * BSIZE" "0 < BPB"
  by (simp_all add: BPB_def BSIZE_def)

lemma bfree_spec:
  assumes "op_inv hs s" "alloc_inv s" "holds_other hs s" "room (Suc k) s hs" "b < sb_size (sb s)" "used s b"
    "0 < b" "\<not> in_log (lg_start s) b" "\<And>c. c < sb_size (sb s) \<Longrightarrow> b \<noteq> BBLOCK c (sb s)"
  obtains s' where "bfree s (lg_dev s) b = Ret s'" "op_inv hs s'" "alloc_inv s'" "free_blocks s' = insert b (free_blocks s)" "room k s' hs" "op_frame s s'"
    "keeps_held (lg_dev s) hs s s'" "\<And>c. (\<forall>x < sb_size (sb s). c \<noteq> BBLOCK x (sb s)) \<Longrightarrow> view (lg_dev s) s' c = view (lg_dev s) s c"
proof -
  note ok = that
  let ?m = "BBLOCK b (sb s)" and ?v = "view (lg_dev s) s"
  have m: "?m \<notin> hs" "\<not> in_log (lg_start s) ?m" "length (?v ?m) = BSIZE" using assms(2,3,5) by (auto simp: holds_other_def alloc_inv_def)
  obtain i s1 where r: "bread s (lg_dev s) ?m = Ret (i, s1)" "data_of s1 i = ?v ?m"
    "\<And>d. \<exists>s'. rbind (log_write (set_data s1 i d) i) (\<lambda>s. brelse s i) = Ret s' \<and> updated hs k ?m d s s'"
    by (rule op_update [OF assms(1) m(1) assms(4) m(2) BBLOCK_eq(2) [OF assms(2,5)]]) blast
  let ?d = "clear_bit (?v ?m) (b mod BPB)"
  obtain s' where w: "rbind (log_write (set_data s1 i ?d) i) (\<lambda>s. brelse s i) = Ret s'" "updated hs k ?m ?d s s'" using r(3) by blast
  have x: "op_inv hs s'" "room k s' hs" "keeps_held (lg_dev s) hs s s'" and fr: "op_frame s s'" and v: "view (lg_dev s) s' = ?v(?m := ?d)"
    using w(2) by (simp_all add: updated_def)
  have sb: "sb s' = sb s" using keeps_fs_simps(2) [OF frame_keeps [OF fr]] .
  have u: "used s' c \<longleftrightarrow> c \<noteq> b \<and> used s c" if "c < sb_size (sb s)" for c
    using bit_same_block [OF assms(2,5) that] m(3) BPB_less bit_set_clear [of "b mod BPB" "?v ?m" "c mod BPB"] frame_dev(1) [OF fr]
    by (auto simp: used_def sb v)
  have free: "free_blocks s' = insert b (free_blocks s)" using u assms(5) sb by (auto simp: free_blocks_def)
  show thesis
  proof (rule ok [OF _ x(1) _ free x(2) fr x(3)])
    show "bfree s (lg_dev s) b = Ret s'"
      using r(1,2) w(1) assms(6) by (simp add: bfree_def Let_def used_def)
    show "alloc_inv s'"
      using assms(2,7-9) free m(3) unfolding alloc_inv_def sb frame_dev(1,2) [OF fr] v by auto
    show "view (lg_dev s) s' c = ?v c" if "\<forall>x < sb_size (sb s). c \<noteq> BBLOCK x (sb s)" for c using that assms(5) v by auto
  qed
qed

section \<open>Allocating\<close>

lemma bzero_spec:
  assumes "op_inv hs s" "b \<notin> hs" "room (Suc k) s hs" "\<not> in_log (lg_start s) b" "b < 2 ^ 32"
  obtains s' where "bzero s (lg_dev s) b = Ret s'" "updated hs k b (replicate BSIZE 0) s s'"
proof -
  obtain i s1 where r: "bread s (lg_dev s) b = Ret (i, s1)"
    "\<And>d. \<exists>s'. rbind (log_write (set_data s1 i d) i) (\<lambda>s. brelse s i) = Ret s' \<and> updated hs k b d s s'"
    by (rule op_update [OF assms]) blast
  then show thesis using that by (auto simp: bzero_def)
qed

lemma find_map: "find P (map f xs) = map_option f (find (P \<circ> f) xs)"
  by (induction xs) auto

lemma find_append: "find P (xs @ ys) = (case find P xs of Some x \<Rightarrow> Some x | None \<Rightarrow> find P ys)"
  by (induction xs) auto

lemma upt_blocks: "0 < B \<Longrightarrow> concat (map (\<lambda>x. [x..<x + min B (n - x)]) (map (\<lambda>k. k * B) [0..<m])) = [0..<min n (m * B)]" for B :: nat
proof (induction m)
  case (Suc m)
  have "[m * B..<m * B + min B (n - m * B)] = [min n (m * B)..<min n (Suc m * B)]"
  proof (cases "m * B \<le> n")
    case True
    then have "m * B + min B (n - m * B) = min n (Suc m * B)" "min n (m * B) = m * B" by auto
    then show ?thesis by simp
  qed simp
  moreover have "[0..<min n (m * B)] @ [min n (m * B)..<min n (Suc m * B)] = [0..<min n (Suc m * B)]"
    using upt_add_eq_append [of 0 "min n (m * B)" "min n (Suc m * B) - min n (m * B)"] by (simp add: min_def)
  ultimately show ?case using Suc by simp
qed simp

lemma bitmap_upt: "concat (map (\<lambda>x. [x..<x + min BPB (n - x)]) (bitmap_starts n)) = [0..<n]"
proof -
  have "n \<le> (n + BPB - 1) div BPB * BPB" 
    using dividend_less_times_div [OF BPB_less(3), of "n + BPB - 1"] BPB_less(3) by (simp only: mult.commute [of BPB])
  then show ?thesis using upt_blocks [OF BPB_less(3), of n "(n + BPB - 1) div BPB"] by (simp add: bitmap_starts_def min_def)
qed

text \<open>What \<^verbatim>\<open>balloc\<close> leaves behind: nothing when there is no free block, else block \<open>b\<close> is marked and cleared.\<close>

definition alloc_result :: "nat set \<Rightarrow> nat \<Rightarrow> 'a fsys_scheme \<Rightarrow> nat option \<Rightarrow> 'a fsys_scheme \<Rightarrow> bool" where
  "alloc_result hs k s r s' \<longleftrightarrow> op_inv hs s' \<and> op_frame s s' \<and> room k s' hs \<and> keeps_held (lg_dev s) hs s s' \<and>
     view (lg_dev s) s' = (case r of None \<Rightarrow> view (lg_dev s) s
       | Some b \<Rightarrow> (view (lg_dev s) s)(BBLOCK b (sb s) := mark_bit (view (lg_dev s) s (BBLOCK b (sb s))) (b mod BPB), b := replicate BSIZE 0))"

lemma in_bitmap_block:
  assumes "BPB dvd x" "bi < BPB"
  shows "BBLOCK (x + bi) sp = BBLOCK x sp" "(x + bi) mod BPB = bi"
  using assms by (auto simp: BBLOCK_def elim!: dvdE)

lemma free_bit_find:
  assumes "BPB dvd x" "x < sb_size (sb s)"
  shows "map_option (\<lambda>bi. x + bi) (free_bit (view (lg_dev s) s (BBLOCK x (sb s))) (sb_size (sb s) - x)) =
    find (\<lambda>b. \<not> used s b) [x..<x + min BPB (sb_size (sb s) - x)]"
proof -
  let ?m = "min BPB (sb_size (sb s) - x)"
  have "[x..<x + ?m] = map (\<lambda>bi. x + bi) [0..<?m]" by (simp add: map_add_upt add.commute [of x])
  then have "find (\<lambda>b. \<not> used s b) [x..<x + ?m] = map_option (\<lambda>bi. x + bi) (find ((\<lambda>b. \<not> used s b) \<circ> (\<lambda>bi. x + bi)) [0..<?m])" by (simp only: find_map)
  moreover have "find ((\<lambda>b. \<not> used s b) \<circ> (\<lambda>bi. x + bi)) [0..<?m] = find (\<lambda>bi. \<not> bit_set (view (lg_dev s) s (BBLOCK x (sb s))) bi) [0..<?m]"
    by (rule find_cong) (use in_bitmap_block [OF assms(1)] in \<open>auto simp: used_def\<close>)
  ultimately show ?thesis by (simp add: free_bit_def)
qed

lemma balloc_loop_spec:
  assumes "op_inv hs s" "alloc_inv s" "holds_other hs s" "room (Suc (Suc k)) s hs" "\<forall>x \<in> set bs. BPB dvd x \<and> x < sb_size (sb s)"
  shows "\<exists>r s'. r = find (\<lambda>b. \<not> used s b) (concat (map (\<lambda>x. [x..<x + min BPB (sb_size (sb s) - x)]) bs)) \<and>
     balloc_loop bs (lg_dev s) s = Ret (case r of None \<Rightarrow> 0 | Some b \<Rightarrow> b, s') \<and> alloc_result hs k s r s'"
  using assms
proof (induction bs arbitrary: s)
  case Nil
  then show ?case using room_mono [OF Nil.prems(4), of k] by (simp add: alloc_result_def keeps_held_def)
next
  case (Cons x bs)
  let ?m = "BBLOCK x (sb s)" and ?v = "view (lg_dev s) s" and ?n = "sb_size (sb s)"
  have x: "BPB dvd x" "x < ?n" using Cons.prems(5) by auto
  have m: "?m \<notin> hs" "\<not> in_log (lg_start s) ?m" "length (?v ?m) = BSIZE" using Cons.prems(2,3) x by (auto simp: holds_other_def alloc_inv_def)
  show ?case
  proof (cases "free_bit (?v ?m) (?n - x)")
    case None
    obtain i s1 s2 where r: "bread s (lg_dev s) ?m = Ret (i, s1)" "data_of s1 i = ?v ?m" "op_frame s s1" "brelse s1 i = Ret s2" "op_inv hs s2" "view (lg_dev s) s2 = ?v"
      "op_frame s s2" "room (Suc (Suc k)) s2 hs" "keeps_held (lg_dev s) hs s s2"
      by (rule op_read [OF Cons.prems(1) m(1) Cons.prems(4)]) blast
    note u = used_frame [OF r(7,6)] and a = alloc_frame [OF r(7,6)] and f = frame_dev [OF r(7)]
    obtain r' s' where ih: "r' = find (\<lambda>b. \<not> used s2 b) (concat (map (\<lambda>x. [x..<x + min BPB (sb_size (sb s2) - x)]) bs))"
      "balloc_loop bs (lg_dev s2) s2 = Ret (case r' of None \<Rightarrow> 0 | Some b \<Rightarrow> b, s')" "alloc_result hs k s2 r' s'"
      using Cons.IH [OF r(5), unfolded a, OF Cons.prems(2,3) r(8)] Cons.prems(5) u by auto
    have sb1: "sb s1 = sb s" using keeps_fs_simps(2) [OF frame_keeps [OF r(3)]] .
    have "balloc_loop (x # bs) (lg_dev s) s = Ret (case r' of None \<Rightarrow> 0 | Some b \<Rightarrow> b, s')" using r(1,2,4) ih(2) None sb1 f by simp
    moreover have "alloc_result hs k s r' s'"
      using ih(3) r(6,7,9) f u op_frame_trans [OF r(7), of s'] by (cases r') (auto simp: alloc_result_def keeps_held_def)
    moreover have "find (\<lambda>b. \<not> used s b) [x..<x + min BPB (?n - x)] = None" using free_bit_find [OF x] None by simp
    ultimately show ?thesis using ih(1) u by (auto simp: find_append)
  next
    case (Some bi)
    have "bi \<in> set [0..<min BPB (?n - x)]" using find_SomeD [OF Some [unfolded free_bit_def]] by blast
    then have bi: "bi < BPB" "x + bi < ?n" by auto
    have fnd: "find (\<lambda>b. \<not> used s b) [x..<x + min BPB (?n - x)] = Some (x + bi)" using free_bit_find [OF x] Some by simp
    then have fb: "x + bi \<in> free_blocks s" using find_SomeD [OF fnd] bi by (simp add: free_blocks_def)
    have b: "x + bi \<notin> hs" "\<not> in_log (lg_start s) (x + bi)" "x + bi < 2 ^ 32" "x + bi \<noteq> ?m"
      using fb Cons.prems(2,3) x(2) bi by (auto simp: holds_other_def alloc_inv_def)
    obtain i s1 where r: "bread s (lg_dev s) ?m = Ret (i, s1)" "data_of s1 i = ?v ?m" "op_frame s s1"
      "\<And>d. \<exists>s'. rbind (log_write (set_data s1 i d) i) (\<lambda>s. brelse s i) = Ret s' \<and> updated hs (Suc k) ?m d s s'"
      by (rule op_update [OF Cons.prems(1) m(1) Cons.prems(4) m(2) BBLOCK_eq(2) [OF Cons.prems(2) x(2)]]) blast
    obtain s2 s3 where w: "log_write (set_data s1 i (mark_bit (?v ?m) bi)) i = Ret s2" "brelse s2 i = Ret s3" "updated hs (Suc k) ?m (mark_bit (?v ?m) bi) s s3"
      using r(4) [of "mark_bit (?v ?m) bi"] by (auto simp: rbind_Ret_iff)
    have w3: "op_inv hs s3" "room (Suc k) s3 hs" "op_frame s s3" using w(3) by (simp_all add: updated_def)
    note f = frame_dev [OF w3(3)]
    obtain s' where z: "bzero s3 (lg_dev s3) (x + bi) = Ret s'" "updated hs k (x + bi) (replicate BSIZE 0) s3 s'"
      by (rule bzero_spec [OF w3(1) b(1) w3(2) _ b(3)]) (use b(2) f in auto)
    have sb1: "sb s1 = sb s" using keeps_fs_simps(2) [OF frame_keeps [OF r(3)]] .
    have "balloc_loop (x # bs) (lg_dev s) s = Ret (x + bi, s')" using r(1,2) w(1,2) z(1) Some sb1 f by simp
    moreover have "alloc_result hs k s (Some (x + bi)) s'"
      using w(3) z(2) f op_frame_trans [OF w3(3), of s'] in_bitmap_block [OF x(1) bi(1)]
      by (auto simp: alloc_result_def updated_def keeps_held_def)
    ultimately show ?thesis using fnd by (auto simp: find_append)
  qed
qed

end
