(* ===== verification/Fs_Alloc_Props.thy ===== *)
theory Fs_Alloc_Props
  imports Fs_Alloc Log_Crash
begin

text \<open>
  The allocator refines a set of free blocks.
\<close>

section \<open>The set of free blocks\<close>

lemma balloc_spec:
  assumes "op_inv hs s" "alloc_inv s" "holds_other hs s" "room (Suc (Suc k)) s hs"
  defines "r \<equiv> find (\<lambda>b. \<not> used s b) [0..<sb_size (sb s)]"
  shows "\<exists>s'. balloc s (lg_dev s) = Ret (case r of None \<Rightarrow> 0 | Some b \<Rightarrow> b, s') \<and> alloc_result hs k s r s'"
proof -
  let ?n = "sb_size (sb s)"
  have "\<forall>x \<in> set (bitmap_starts ?n). BPB dvd x \<and> x < ?n"
  proof -
    have "k * BPB < ?n" if "k < (?n + BPB - 1) div BPB" for k
    proof -
      have "(k + 1) * BPB \<le> (?n + BPB - 1) div BPB * BPB" by (rule mult_le_mono1) (use that in simp)
      also have "\<dots> \<le> ?n + BPB - 1" by simp
      finally show ?thesis using BPB_less(3) by simp
    qed
    then show ?thesis by (auto simp: bitmap_starts_def)
  qed
  then show ?thesis using balloc_loop_spec [OF assms(1-4), of "bitmap_starts ?n"] unfolding bitmap_upt r_def balloc_def by blast
qed

lemma find_upt_Min:
  "find P [0..<n] = (if {b. b < n \<and> P b} = {} then None else Some (Min {b. b < n \<and> P b}))" for n :: nat
proof (cases "find P [0..<n]")
  case None
  then show ?thesis by (auto simp: find_None_iff)
next
  case (Some b)
  then obtain i where i: "i < n" "P i" "b = i" "\<And>j. j < i \<Longrightarrow> \<not> P j" by (auto simp: find_Some_iff)
  then have "Min {b. b < n \<and> P b} = i" by (intro Min_eqI) (auto simp: not_less [symmetric])
  then show ?thesis using Some i by auto
qed

lemma alloc_result_inv:
  assumes "alloc_inv s" "holds_other hs s" "b \<in> free_blocks s" "alloc_result hs k s (Some b) s'"
  shows "alloc_inv s'" "free_blocks s' = free_blocks s - {b}" "holds_other hs s'" "view (lg_dev s) s' b = replicate BSIZE 0"
    "\<And>c. c \<noteq> b \<Longrightarrow> (\<forall>x < sb_size (sb s). c \<noteq> BBLOCK x (sb s)) \<Longrightarrow> view (lg_dev s) s' c = view (lg_dev s) s c"
proof -
  let ?m = "BBLOCK b (sb s)" and ?v = "view (lg_dev s) s"
  have b: "b < sb_size (sb s)" "0 < b" "\<forall>x < sb_size (sb s). b \<noteq> BBLOCK x (sb s)" using assms(1,3) by (auto simp: free_blocks_def alloc_inv_def)
  have fr: "op_frame s s'" and v: "view (lg_dev s) s' = ?v(?m := mark_bit (?v ?m) (b mod BPB), b := replicate BSIZE 0)"
    using assms(4) by (simp_all add: alloc_result_def)
  have sb: "sb s' = sb s" using keeps_fs_simps(2) [OF frame_keeps [OF fr]] .
  have l: "length (?v ?m) = BSIZE" using assms(1) b(1) by (simp add: alloc_inv_def)
  have u: "used s' c \<longleftrightarrow> c = b \<or> used s c" if "c < sb_size (sb s)" for c
    using bit_same_block [OF assms(1) b(1) that] l BPB_less bit_set_mark [of "b mod BPB" "?v ?m" "c mod BPB"] frame_dev(1) [OF fr] b that
    by (auto simp: used_def sb v)
  show f: "free_blocks s' = free_blocks s - {b}" using u sb by (auto simp: free_blocks_def)
  show "alloc_inv s'" using assms(1) f l unfolding alloc_inv_def sb frame_dev(1,2) [OF fr] v by auto
  show "holds_other hs s'" using assms(2) f sb by (auto simp: holds_other_def)
  show "view (lg_dev s) s' b = replicate BSIZE 0"
    "\<And>c. c \<noteq> b \<Longrightarrow> (\<forall>x < sb_size (sb s). c \<noteq> BBLOCK x (sb s)) \<Longrightarrow> view (lg_dev s) s' c = ?v c"
    using b(1) by (auto simp: v)
qed

lemma bfree_free_panics:
  assumes "op_inv hs s" "alloc_inv s" "holds_other hs s" "room (Suc k) s hs" "b \<in> free_blocks s"
  shows "bfree s (lg_dev s) b = Panic ''freeing free block''"
proof -
  let ?m = "BBLOCK b (sb s)"
  have "?m \<notin> hs" using assms(3,5) by (auto simp: holds_other_def free_blocks_def)
  then obtain i s1 where "bread s (lg_dev s) ?m = Ret (i, s1)" "data_of s1 i = view (lg_dev s) s ?m"
    by (rule op_read [OF assms(1) _ assms(4)]) blast
  then show ?thesis using assms(5) by (simp add: bfree_def Let_def free_blocks_def used_def)
qed

section \<open>Property\<close>

text \<open>
  C33: Inside a transaction with room for it, the block allocator refines a set of free blocks.
  \<^verbatim>\<open>balloc\<close> returns 0 and changes nothing when the set is empty; otherwise it takes its smallest
  block, which then is filled with zeros, and leaves all other blocks outside the bitmap as they were.
  \<^verbatim>\<open>bfree\<close> puts a block in use back, and panics on a free one.  The layout of the disk is kept.
\<close>

theorem allocator_refines_free_set:
  assumes "op_inv hs s" "alloc_inv s" "holds_other hs s" "room (Suc (Suc k)) s hs"
  shows "(if free_blocks s = {} then \<exists>s'. balloc s (lg_dev s) = Ret (0, s') \<and> view (lg_dev s) s' = view (lg_dev s) s \<and> op_inv hs s'
      else let b = Min (free_blocks s) in \<exists>s'. balloc s (lg_dev s) = Ret (b, s') \<and> op_inv hs s' \<and> alloc_inv s' \<and> room k s' hs \<and>
        free_blocks s' = free_blocks s - {b} \<and> view (lg_dev s) s' b = replicate BSIZE 0 \<and>
        (\<forall>c. c \<noteq> b \<and> (\<forall>x < sb_size (sb s). c \<noteq> BBLOCK x (sb s)) \<longrightarrow> view (lg_dev s) s' c = view (lg_dev s) s c)) \<and>
    (\<forall>b \<in> free_blocks s. bfree s (lg_dev s) b = Panic ''freeing free block'') \<and>
    (\<forall>b. 0 < b \<and> b < sb_size (sb s) \<and> used s b \<and> \<not> in_log (lg_start s) b \<and> (\<forall>c < sb_size (sb s). b \<noteq> BBLOCK c (sb s)) \<longrightarrow>
      (\<exists>s'. bfree s (lg_dev s) b = Ret s' \<and> op_inv hs s' \<and> alloc_inv s' \<and> free_blocks s' = insert b (free_blocks s)))"
proof -
  have room1: "room (Suc k) s hs" using room_mono [OF assms(4)] by simp
  have fin: "finite (free_blocks s)" by (simp add: free_blocks_def)
  have fnd: "find (\<lambda>b. \<not> used s b) [0..<sb_size (sb s)] = (if free_blocks s = {} then None else Some (Min (free_blocks s)))"
    unfolding free_blocks_def by (rule find_upt_Min)
  obtain s' where s': "balloc s (lg_dev s) = Ret (if free_blocks s = {} then 0 else Min (free_blocks s), s')"
    "alloc_result hs k s (if free_blocks s = {} then None else Some (Min (free_blocks s))) s'"
    using balloc_spec [OF assms] unfolding fnd by (auto split: if_splits)
  have 1: "free_blocks s = {} \<Longrightarrow> \<exists>s'. balloc s (lg_dev s) = Ret (0, s') \<and> view (lg_dev s) s' = view (lg_dev s) s \<and> op_inv hs s'"
    using s' by (auto simp: alloc_result_def)
  have 2: "\<exists>s'. balloc s (lg_dev s) = Ret (b, s') \<and> op_inv hs s' \<and> alloc_inv s' \<and> room k s' hs \<and>
        free_blocks s' = free_blocks s - {b} \<and> view (lg_dev s) s' b = replicate BSIZE 0 \<and>
        (\<forall>c. c \<noteq> b \<and> (\<forall>x < sb_size (sb s). c \<noteq> BBLOCK x (sb s)) \<longrightarrow> view (lg_dev s) s' c = view (lg_dev s) s c)"
    if "free_blocks s \<noteq> {}" "b = Min (free_blocks s)" for b
  proof -
    have r: "alloc_result hs k s (Some b) s'" "b \<in> free_blocks s" using s' that Min_in [OF fin] by simp_all
    then show ?thesis using s'(1) that alloc_result_inv [OF assms(2,3) r(2,1)] by (auto simp: alloc_result_def)
  qed
  have 3: "\<exists>s'. bfree s (lg_dev s) b = Ret s' \<and> op_inv hs s' \<and> alloc_inv s' \<and> free_blocks s' = insert b (free_blocks s)"
    if "0 < b" "b < sb_size (sb s)" "used s b" "\<not> in_log (lg_start s) b" "\<forall>c < sb_size (sb s). b \<noteq> BBLOCK c (sb s)" for b
    by (rule bfree_spec [OF assms(1-3) room1 that(2,3,1,4)]) (use that(5) in blast)+
  show ?thesis using 1 2 3 bfree_free_panics [OF assms(1-3) room1] by (simp add: Let_def)
qed

section \<open>A file system just after boot\<close>

definition boot_fs :: "(nat \<Rightarrow> block) \<Rightarrow> fsys" where
  "boot_fs d = \<lparr>bufs = replicate NBUF zero_buf, mru = rev [0..<NBUF], disk = d, dwrites = [], lg_start = 2, lg_outstanding = 1,
     lg_committing = False, lg_dev = 1, lg_n = 0, lg_block = replicate 30 0,
     sb = \<lparr>sb_magic = FSMAGIC, sb_size = 48, sb_nblocks = 2, sb_ninodes = 200, sb_nlog = 31, sb_logstart = 2, sb_inodestart = 33, sb_bmapstart = 45\<rparr>,
     inodes = inodes empty_table\<rparr>"

lemma boot_fs_inv:
  assumes "\<And>b. length (d b) = BSIZE" "get32 (d 2) 0 = 0"
  shows "op_inv {} (boot_fs d)" "view 1 (boot_fs d) = d"
proof -
  let ?s = "boot_fs d"
  have b: "bufs ?s = replicate NBUF zero_buf" "mru ?s = rev [0..<NBUF]" "disk ?s = d" "lg_dev ?s = 1" by (simp_all add: boot_fs_def)
  have no: "\<not> is_buf ?s 1 c i" for c i using b(1) by (auto simp: is_buf_def zero_buf_def)
  have inv: "bc_inv 1 ?s" using no b(1,2) by (auto simp: bc_inv_def zero_buf_def)
  have v: "view 1 ?s c = d c" "refs 1 ?s c = 0" "\<not> held 1 ?s c" for c using view_nobuf [OF inv] no b(3) by auto
  show "view 1 ?s = d" using v by (simp add: fun_eq_iff)
  have "refs 1 ?s = (\<lambda>_. 0)" using v by (simp add: fun_eq_iff)
  then show "op_inv {} ?s" using inv v assms unfolding op_inv_def b(4) by (simp add: boot_fs_def LOGBLOCKS_def MAXOPBLOCKS_def)
qed

definition bitmap_disk :: "nat \<Rightarrow> block" where
  "bitmap_disk b = (if b = 45 then replicate 5 255 @ [63] @ replicate 1018 0 else replicate BSIZE 0)"

lemma bitmap_disk_free: "free_blocks (boot_fs bitmap_disk) = {46, 47}"
proof -
  have l: "length (bitmap_disk b) = BSIZE" "get32 (bitmap_disk 2) 0 = 0" for b by (simp_all add: bitmap_disk_def BSIZE_def get32_def)
  have u: "used (boot_fs bitmap_disk) c \<longleftrightarrow> bit_set (bitmap_disk 45) c" if "c < 48" for c
    using that boot_fs_inv(2) [of bitmap_disk, OF l] by (simp add: used_def boot_fs_def BBLOCK_def BPB_def BSIZE_def)
  have "\<forall>c \<in> set [0..<48]. bit_set (replicate 5 255 @ [63] @ replicate 1018 0) c = (c < 46)" by code_simp
  then have "\<forall>c < 48. bit_set (bitmap_disk 45) c = (c < 46)" by (simp add: bitmap_disk_def)
  then show ?thesis using u by (force simp: free_blocks_def boot_fs_def)
qed

lemma bitmap_disk_inv:
  "op_inv {} (boot_fs bitmap_disk)" "alloc_inv (boot_fs bitmap_disk)" "holds_other {} (boot_fs bitmap_disk)" "room (Suc (Suc 3)) (boot_fs bitmap_disk) {}"
proof -
  have l: "length (bitmap_disk b) = BSIZE" "get32 (bitmap_disk 2) 0 = 0" for b by (simp_all add: bitmap_disk_def BSIZE_def get32_def)
  have bb: "BBLOCK c (sb (boot_fs bitmap_disk)) = 45" if "c < 48" for c using that by (simp add: boot_fs_def BBLOCK_def BPB_def BSIZE_def)
  show "op_inv {} (boot_fs bitmap_disk)" by (rule boot_fs_inv(1) [of bitmap_disk, OF l])
  have f: "sb_size (sb (boot_fs bitmap_disk)) = 48" "lg_start (boot_fs bitmap_disk) = 2" "lg_dev (boot_fs bitmap_disk) = 1"
    "sb_bmapstart (sb (boot_fs bitmap_disk)) = 45" by (simp_all add: boot_fs_def)
  show "alloc_inv (boot_fs bitmap_disk)"
    unfolding alloc_inv_def bitmap_disk_free f boot_fs_inv(2) [of bitmap_disk, OF l] using bb l by (auto simp: in_log_def BPB_def BSIZE_def)
  show "holds_other {} (boot_fs bitmap_disk)" by (simp add: holds_other_def)
  show "room (Suc (Suc 3)) (boot_fs bitmap_disk) {}" by (simp add: room_def boot_fs_def LOGBLOCKS_def MAXOPBLOCKS_def)
qed

theorem allocator_refines_free_set_witness:
  "\<exists>s'. balloc (boot_fs bitmap_disk) 1 = Ret (46, s') \<and> free_blocks s' = {47} \<and> view 1 s' 46 = replicate BSIZE 0"
proof -
  have d: "lg_dev (boot_fs bitmap_disk) = 1" by (simp add: boot_fs_def)
  show ?thesis
    using allocator_refines_free_set [OF bitmap_disk_inv, THEN conjunct1] unfolding bitmap_disk_free d by (auto simp: Let_def)
qed

end
