(* ===== verification/Fs_Inodes.thy ===== *)
theory Fs_Inodes
  imports Fs_Alloc_Props
begin

text \<open>
  On-disk inodes: what \<^verbatim>\<open>iupdate\<close> writes is what a later \<^verbatim>\<open>ilock\<close> reads, and the other inodes of the
  block are not touched.
\<close>

section \<open>The fields of an on-disk inode\<close>

lemma length_put_addrs [simp]: "length (put_addrs as p d) = length d"
  by (induction as arbitrary: p d) auto

lemma get32_put_addrs:
  "p + 4 * length as \<le> length d \<Longrightarrow> k < length as \<Longrightarrow> get32 (put_addrs as p d) (p + 4 * k) = of_nat (as ! k)"
  "q + 4 \<le> p \<or> p + 4 * length as \<le> q \<Longrightarrow> get32 (put_addrs as p d) q = get32 d q"
  "q + 2 \<le> p \<or> p + 4 * length as \<le> q \<Longrightarrow> get16 (put_addrs as p d) q = get16 d q"
proof -
  show other: "q + 4 \<le> p \<or> p + 4 * length as \<le> q \<Longrightarrow> get32 (put_addrs as p d) q = get32 d q" for as p q d
    by (induction as arbitrary: p d) auto
  show "q + 2 \<le> p \<or> p + 4 * length as \<le> q \<Longrightarrow> get16 (put_addrs as p d) q = get16 d q"
    by (induction as arbitrary: p d) auto
  show "p + 4 * length as \<le> length d \<Longrightarrow> k < length as \<Longrightarrow> get32 (put_addrs as p d) (p + 4 * k) = of_nat (as ! k)"
  proof (induction as arbitrary: p d k)
    case (Cons a as)
    show ?case
    proof (cases k)
      case 0
      then show ?thesis using Cons.prems other [of p "p + 4" as "put32 d p (of_nat a)"] by simp
    next
      case (Suc j)
      then show ?thesis using Cons.IH [of "p + 4" "put32 d p (of_nat a)" j] Cons.prems by (simp add: add.assoc)
    qed
  qed simp
qed

definition same_fields :: "inode \<Rightarrow> inode \<Rightarrow> bool" where
  "same_fields x y \<longleftrightarrow> i_type x = i_type y \<and> i_major x = i_major y \<and> i_minor x = i_minor y \<and> i_nlink x = i_nlink y \<and> i_size x = i_size y \<and> i_addrs x = i_addrs y"

definition good_addrs :: "inode \<Rightarrow> bool" where
  "good_addrs x \<longleftrightarrow> length (i_addrs x) = NDIRECT + 1 \<and> (\<forall>a \<in> set (i_addrs x). a < 2 ^ 32)"

lemma length_put_dinode [simp]: "length (put_dinode d p x) = length d"
  by (simp add: put_dinode_def)

lemma get_put_dinode:
  assumes "p + dinode_size \<le> length d" "good_addrs x"
  shows "same_fields (get_dinode (put_dinode d p x) p y) x"
proof -
  have l: "length (i_addrs x) = 13" using assms(2) by (simp add: good_addrs_def NDIRECT_def)
  have a: "unat (of_nat (i_addrs x ! k) :: uint32) = i_addrs x ! k" if "k < 13" for k
    using assms(2) that l by (auto simp: good_addrs_def unat_of_nat)
  have "map (\<lambda>k. unat (get32 (put_dinode d p x) (p + 12 + 4 * k))) [0..<13] = i_addrs x"
    by (rule nth_equalityI) (use l a assms(1) get32_put_addrs(1) [of "p + 12" "i_addrs x"] in \<open>simp_all add: put_dinode_def dinode_size_def\<close>)
  then show ?thesis
    using assms(1) l by (simp add: same_fields_def get_dinode_def put_dinode_def get32_put_addrs NDIRECT_def dinode_size_def)
qed

lemma get_put_dinode_other:
  assumes "q + dinode_size \<le> p \<or> p + dinode_size \<le> q" "good_addrs x"
  shows "get_dinode (put_dinode d p x) q y = get_dinode d q y"
proof -
  have l: "length (i_addrs x) = 13" using assms(2) by (simp add: good_addrs_def NDIRECT_def)
  have "map (\<lambda>k. unat (get32 (put_dinode d p x) (q + 12 + 4 * k))) [0..<13] = map (\<lambda>k. unat (get32 d (q + 12 + 4 * k))) [0..<13]"
    using assms(1) l by (auto simp: put_dinode_def get32_put_addrs dinode_size_def)
  moreover have "get16 (put_dinode d p x) q = get16 d q" "get16 (put_dinode d p x) (q + 2) = get16 d (q + 2)"
    "get16 (put_dinode d p x) (q + 4) = get16 d (q + 4)" "get16 (put_dinode d p x) (q + 6) = get16 d (q + 6)"
    "get32 (put_dinode d p x) (q + 8) = get32 d (q + 8)"
    using assms(1) l by (auto simp: put_dinode_def get32_put_addrs dinode_size_def)
  ultimately show ?thesis unfolding get_dinode_def NDIRECT_def by simp
qed

lemma dip_bounds: "dip n + dinode_size \<le> BSIZE" "dip m \<noteq> dip n \<Longrightarrow> dip m + dinode_size \<le> dip n \<or> dip n + dinode_size \<le> dip m"
proof -
  have "n mod IPB < IPB" for n by (simp add: IPB_def BSIZE_def dinode_size_def)
  then have b: "n mod IPB < 16" for n by (simp add: IPB_def BSIZE_def dinode_size_def)
  show "dip n + dinode_size \<le> BSIZE" using b [of n] by (simp add: dip_def dinode_size_def BSIZE_def)
  show "dip m \<noteq> dip n \<Longrightarrow> dip m + dinode_size \<le> dip n \<or> dip n + dinode_size \<le> dip m" by (auto simp: dip_def dinode_size_def)
qed

text \<open>The inode with a number, as it stands on the disk seen through the cache.\<close>

definition disk_inode :: "'a fsys_scheme \<Rightarrow> nat \<Rightarrow> inode \<Rightarrow> inode" where
  "disk_inode s inum y = get_dinode (view (lg_dev s) s (IBLOCK inum (sb s))) (dip inum) y"

section \<open>Writing and reading back\<close>

lemma iupdate_spec:
  assumes "op_inv hs s" "room (Suc k) s hs" "i_dev (ino s ip) = lg_dev s" "IBLOCK (i_inum (ino s ip)) (sb s) \<notin> hs"
    "\<not> in_log (lg_start s) (IBLOCK (i_inum (ino s ip)) (sb s))"
  obtains s' where "iupdate s ip = Ret s'"
    "updated hs k (IBLOCK (i_inum (ino s ip)) (sb s)) (put_dinode (view (lg_dev s) s (IBLOCK (i_inum (ino s ip)) (sb s))) (dip (i_inum (ino s ip))) (ino s ip)) s s'"
proof -
  note ok = that
  let ?b = "IBLOCK (i_inum (ino s ip)) (sb s)"
  have b: "?b < 2 ^ 32" by (simp add: IBLOCK_def)
  obtain i s1 where r: "bread s (lg_dev s) ?b = Ret (i, s1)" "data_of s1 i = view (lg_dev s) s ?b" "op_frame s s1"
    "\<And>d. \<exists>s'. rbind (log_write (set_data s1 i d) i) (\<lambda>s. brelse s i) = Ret s' \<and> updated hs k ?b d s s'"
    by (rule op_update [OF assms(1,4,2,5) b]) blast
  have "inodes s1 = inodes s" using keeps_fs_simps(1) [OF frame_keeps [OF r(3)]] .
  then show thesis using r ok assms(3) unfolding iupdate_def by auto
qed

lemma set_inode_cache [simp]:
  "view dev (set_inode s ip x) = view dev s" "holds dev (set_inode s ip x) b i = holds dev s b i" "op_inv hs (set_inode s ip x) = op_inv hs s"
  "room k (set_inode s ip x) hs = room k s hs" "lg_dev (set_inode s ip x) = lg_dev s" "lg_start (set_inode s ip x) = lg_start s"
  "lg_n (set_inode s ip x) = lg_n s" "lg_block (set_inode s ip x) = lg_block s" "disk (set_inode s ip x) = disk s"
proof -
  have c: "bufs (set_inode s ip x) = bufs s" "mru (set_inode s ip x) = mru s" "disk (set_inode s ip x) = disk s"
    "lg_dev (set_inode s ip x) = lg_dev s" "lg_start (set_inode s ip x) = lg_start s" "lg_n (set_inode s ip x) = lg_n s" "lg_block (set_inode s ip x) = lg_block s"
    "lg_outstanding (set_inode s ip x) = lg_outstanding s"
    by (simp_all add: set_inode_def)
  note co = cache_only [OF c(1-3)]
  show "view dev (set_inode s ip x) = view dev s" "holds dev (set_inode s ip x) b i = holds dev s b i" by (fact co(2), fact co(5))
  show "op_inv hs (set_inode s ip x) = op_inv hs s" unfolding op_inv_def co c by simp
  show "room k (set_inode s ip x) hs = room k s hs" unfolding room_def c by simp
qed (simp_all add: set_inode_def)

lemma ilock_spec:
  assumes "op_inv hs s" "room (Suc k) s hs" "ip < length (inodes s)" "i_dev (ino s ip) = lg_dev s" "IBLOCK (i_inum (ino s ip)) (sb s) \<notin> hs"
    "0 < i_ref (ino s ip)" "\<not> i_locked (ino s ip)" "\<not> i_valid (ino s ip)" "i_type (disk_inode s (i_inum (ino s ip)) y) \<noteq> 0"
  obtains s' where "ilock s ip = Ret s'" "op_inv hs s'" "view (lg_dev s) s' = view (lg_dev s) s"
    "ino s' ip = (disk_inode s (i_inum (ino s ip)) (ino s ip))\<lparr>i_locked := True, i_valid := True\<rparr>"
    "\<And>jp. jp \<noteq> ip \<Longrightarrow> ino s' jp = ino s jp"
proof -
  note ok = that
  define s0 where "s0 = set_inode s ip ((ino s ip)\<lparr>i_locked := True\<rparr>)"
  let ?b = "IBLOCK (i_inum (ino s ip)) (sb s)"
  have o0: "op_inv hs s0" "room (Suc k) s0 hs" "lg_dev s0 = lg_dev s" "sb s0 = sb s" "view (lg_dev s) s0 = view (lg_dev s) s" using assms(1,2) by (simp_all add: s0_def)
  have i0: "ino s0 ip = (ino s ip)\<lparr>i_locked := True\<rparr>" using assms(3) by (simp add: s0_def)
  obtain i s1 where r: "bread s0 (lg_dev s0) ?b = Ret (i, s1)" "data_of s1 i = view (lg_dev s0) s0 ?b" "op_frame s0 s1" "holds (lg_dev s0) s1 ?b i" "op_inv (insert ?b hs) s1"
    "logged s1 = logged s0" "view (lg_dev s0) s1 = view (lg_dev s0) s0"
    by (rule op_read [OF o0(1) assms(5) o0(2)]) blast
  note f1 = frame_dev [OF r(3)]
  have n1: "inodes s1 = inodes s0" using keeps_fs_simps(1) [OF frame_keeps [OF r(3)]] .
  define s1' where "s1' = set_inode s1 ip (get_dinode (data_of s1 i) (dip (i_inum (ino s1 ip))) (ino s1 ip))"
  have o1: "op_inv (insert ?b hs) s1'" "holds (lg_dev s1') s1' ?b i" "?b \<in> set (logged s1') \<or> view (lg_dev s1') s1' ?b = disk s1' ?b"
    using r(4-7) f1 op_clean [OF o0(1) assms(5)] by (auto simp: s1'_def)
  obtain s2 where z: "brelse s1' i = Ret s2" "op_inv (insert ?b hs - {?b}) s2" "view (lg_dev s1') s2 = view (lg_dev s1') s1'" "op_frame s1' s2"
    by (rule op_brelse [OF o1(1,2) _ o1(3)]) blast+
  have hs: "insert ?b hs - {?b} = hs" using assms(5) by auto
  have n2: "inodes s2 = inodes s1'" using keeps_fs_simps(1) [OF frame_keeps [OF z(4)]] .
  define s' where "s' = set_inode s2 ip ((ino s2 ip)\<lparr>i_valid := True\<rparr>)"
  have i2: "ino s' ip = (disk_inode s (i_inum (ino s ip)) (ino s ip))\<lparr>i_locked := True, i_valid := True\<rparr>"
    using assms(3) n2 n1 i0 r(2) o0(3,5) by (simp add: s'_def s1'_def s0_def disk_inode_def get_dinode_def)
  have t: "i_type (ino s' ip) \<noteq> 0" using assms(9) i2 by (simp add: disk_inode_def get_dinode_def)
  have e: "ilock s ip = (if i_type (ino s' ip) = 0 then Panic ''ilock: no type'' else Ret s')"
    using assms(4,6,7,8) r(1) z(1) i0 o0(3,4) unfolding ilock_def acquire_inode_def
    by (simp add: s0_def [symmetric] s1'_def [symmetric] Let_def del: set_inode_sel) (simp add: s'_def)
  show thesis
  proof (rule ok [OF _ _ _ i2])
    show "ilock s ip = Ret s'" using e t by simp
    show "op_inv hs s'" using z(2) by (simp add: s'_def hs)
    show "view (lg_dev s) s' = view (lg_dev s) s" using z(3) r(7) o0 f1 by (simp add: s'_def s1'_def)
    show "\<And>jp. jp \<noteq> ip \<Longrightarrow> ino s' jp = ino s jp" using n2 n1 by (simp add: s'_def s1'_def s0_def)
  qed
qed

section \<open>Property\<close>

text \<open>
  C34: An inode survives its trip to the disk.  Inside a transaction \<^verbatim>\<open>iupdate\<close> succeeds; every other
  inode on the disk stays as it was; and when the table later holds the inode in any entry that has
  not been read yet, \<^verbatim>\<open>ilock\<close> of that entry succeeds and gives back the type, device, link count, size
  and block addresses that were written.
\<close>

theorem iupdate_ilock_round_trip:
  assumes "op_inv hs s" "room (Suc (Suc k)) s hs" "i_dev (ino s ip) = lg_dev s" "good_addrs (ino s ip)" "i_type (ino s ip) \<noteq> 0"
    "IBLOCK (i_inum (ino s ip)) (sb s) \<notin> hs" "\<not> in_log (lg_start s) (IBLOCK (i_inum (ino s ip)) (sb s))"
    "length (view (lg_dev s) s (IBLOCK (i_inum (ino s ip)) (sb s))) = BSIZE"
    "jp < length (inodes s)" "i_dev x = lg_dev s" "i_inum x = i_inum (ino s ip)" "0 < i_ref x" "\<not> i_locked x" "\<not> i_valid x"
  shows "\<exists>s1 s2. iupdate s ip = Ret s1 \<and> op_inv hs s1 \<and> inodes s1 = inodes s \<and>
    (\<forall>n y. (IBLOCK n (sb s), dip n) \<noteq> (IBLOCK (i_inum (ino s ip)) (sb s), dip (i_inum (ino s ip))) \<longrightarrow> disk_inode s1 n y = disk_inode s n y) \<and>
    ilock (set_inode s1 jp x) jp = Ret s2 \<and> same_fields (ino s2 jp) (ino s ip)"
proof -
  let ?n = "i_inum (ino s ip)"
  let ?b = "IBLOCK ?n (sb s)"
  obtain s1 where u: "iupdate s ip = Ret s1" "updated hs (Suc k) ?b (put_dinode (view (lg_dev s) s ?b) (dip ?n) (ino s ip)) s s1"
    by (rule iupdate_spec [OF assms(1-3,6,7)]) blast
  have w: "op_inv hs s1" "view (lg_dev s) s1 = (view (lg_dev s) s)(?b := put_dinode (view (lg_dev s) s ?b) (dip ?n) (ino s ip))" "op_frame s s1" "room (Suc k) s1 hs"
    using u(2) by (simp_all add: updated_def)
  note f = frame_dev [OF w(3)]
  have k: "inodes s1 = inodes s" "sb s1 = sb s" using keeps_fs_simps [OF frame_keeps [OF w(3)]] by simp_all
  have other: "disk_inode s1 n y = disk_inode s n y" if "(IBLOCK n (sb s), dip n) \<noteq> (?b, dip ?n)" for n y
    using that w(2) f k get_put_dinode_other [OF _ assms(4)] dip_bounds(2) [of n ?n] by (auto simp: disk_inode_def)
  let ?t = "set_inode s1 jp x"
  have same: "same_fields (disk_inode ?t ?n y) (ino s ip)" for y
    using get_put_dinode [OF _ assms(4)] dip_bounds(1) [of ?n] assms(8) w(2) f k by (simp add: disk_inode_def)
  have it: "ino ?t jp = x" using assms(9) k by simp
  obtain s2 where l: "ilock ?t jp = Ret s2" "ino s2 jp = (disk_inode ?t ?n (ino ?t jp))\<lparr>i_locked := True, i_valid := True\<rparr>"
    by (rule ilock_spec [of hs ?t k jp x])
      (use w(1,4) assms(5,6,9-14) k f it same [of x] in \<open>auto simp: same_fields_def\<close>)
  have "same_fields (ino s2 jp) (ino s ip)" using l(2) same [of x] it by (simp add: same_fields_def)
  then show ?thesis using u(1) w(1) k(1) other l(1) by blast
qed

definition demo_file :: inode where
  "demo_file = \<lparr>i_dev = 1, i_inum = 5, i_ref = 1, i_locked = True, i_valid = True, i_type = T_FILE, i_major = 0, i_minor = 0, i_nlink = 1,
     i_size = 10, i_addrs = 46 # replicate 12 0\<rparr>"

theorem iupdate_ilock_round_trip_witness:
  "\<exists>s1 s2. iupdate (set_inode (boot_fs bitmap_disk) 0 demo_file) 0 = Ret s1 \<and>
    ilock (set_inode s1 3 (demo_file\<lparr>i_locked := False, i_valid := False, i_type := 9, i_addrs := []\<rparr>)) 3 = Ret s2 \<and> same_fields (ino s2 3) demo_file"
proof -
  let ?s = "set_inode (boot_fs bitmap_disk) 0 demo_file"
  have l: "length (bitmap_disk b) = BSIZE" "get32 (bitmap_disk 2) 0 = 0" for b by (simp_all add: bitmap_disk_def BSIZE_def get32_def)
  have f: "lg_dev (boot_fs bitmap_disk) = 1" "lg_start (boot_fs bitmap_disk) = 2" "sb (boot_fs bitmap_disk) = sb (boot_fs bitmap_disk)"
    "length (inodes (boot_fs bitmap_disk)) = 50" "sb_inodestart (sb (boot_fs bitmap_disk)) = 33"
    by (simp_all add: boot_fs_def empty_table_def NINODE_def)
  have i: "ino ?s 0 = demo_file" using f by simp
  have b: "IBLOCK 5 (sb ?s) = 33" using f by (simp add: IBLOCK_def IPB_def BSIZE_def dinode_size_def)
  show ?thesis
    using iupdate_ilock_round_trip [of "{}" ?s 3 0 3 "demo_file\<lparr>i_locked := False, i_valid := False, i_type := 9, i_addrs := []\<rparr>"]
      bitmap_disk_inv(1,4) f i b boot_fs_inv(2) [of bitmap_disk, OF l] l(1)
    by (auto simp: demo_file_def good_addrs_def NDIRECT_def in_log_def T_FILE_def)
qed

end
