(* ===== verification/File.thy ===== *)
theory File
  imports Fs Pipe
begin

text \<open>
  Open files, \<^verbatim>\<open>kernel/file.c\<close>, and the file side of pipes, \<^verbatim>\<open>pipealloc\<close> of \<^verbatim>\<open>kernel/pipe.c\<close>.  The
  file table, the pipes by the address of their page, and the descriptors and the current directory
  of the calling process extend the state of the file system.  The lock of the file table is not
  modelled, nor is the wait of \<^verbatim>\<open>begin_op\<close> for room in the log, which is \<open>Panic\<close> as for the sleep
  locks.  Copies to and from the caller's memory are arguments: \<open>sink i m\<close> tells whether \<open>m\<close> bytes can
  be copied out at offset \<open>i\<close> of the buffer, \<open>src i m\<close> gives the bytes copied in and whether all were.
  The device switch is an argument too: entry \<open>k\<close> is the device's function, or absent.
\<close>

section \<open>State\<close>

definition NFILE :: nat where "NFILE = 100"
definition NOFILE :: nat where "NOFILE = 16"
definition NDEV :: int where "NDEV = 10"

datatype fdtype = FD_NONE | FD_PIPE | FD_INODE | FD_DEVICE

record file_t =
  f_type :: fdtype
  f_ref :: int
  f_readable :: bool
  f_writable :: bool
  f_pipe :: nat
  f_ip :: nat
  f_off :: uint32
  f_major :: uint16

record filesys = fsys +
  ftable :: "file_t list"
  pipes :: "nat \<Rightarrow> pipe option"
  ofile :: "nat option list"
  cwd :: nat

abbreviation fil :: "'a filesys_scheme \<Rightarrow> nat \<Rightarrow> file_t" where
  "fil s f \<equiv> ftable s ! f"

definition set_file :: "'a filesys_scheme \<Rightarrow> nat \<Rightarrow> file_t \<Rightarrow> 'a filesys_scheme" where
  "set_file s f x = s\<lparr>ftable := (ftable s)[f := x]\<rparr>"

definition begin_op' :: "'a logsys_scheme \<Rightarrow> 'a logsys_scheme res" where
  "begin_op' s = (case begin_op s of None \<Rightarrow> Panic ''begin_op: waits for ever'' | Some s \<Rightarrow> Ret s)"

section \<open>kernel/file.c\<close>

definition filealloc :: "'a filesys_scheme \<Rightarrow> nat option \<times> 'a filesys_scheme" where
  "filealloc s =
     (case find (\<lambda>f. f_ref (fil s f) = 0) [0..<NFILE] of
        Some f \<Rightarrow> (Some f, set_file s f ((fil s f)\<lparr>f_ref := 1\<rparr>))
      | None \<Rightarrow> (None, s))"

definition filedup :: "'a filesys_scheme \<Rightarrow> nat \<Rightarrow> 'a filesys_scheme res" where
  "filedup s f =
     (if f_ref (fil s f) < 1 then Panic ''filedup'' else Ret (set_file s f ((fil s f)\<lparr>f_ref := f_ref (fil s f) + 1\<rparr>)))"

text \<open>A file whose pipe is gone would be a use of freed memory; the code has no check for it.\<close>

definition close_pipe :: "'a filesys_scheme \<Rightarrow> nat \<Rightarrow> bool \<Rightarrow> 'a filesys_scheme res" where
  "close_pipe s pi writable =
     (case pipes s pi of
        None \<Rightarrow> Panic ''pipeclose: no pipe''
      | Some p \<Rightarrow> let (p', freed) = pipeclose p writable in Ret (s\<lparr>pipes := (pipes s)(pi := if freed then None else Some p')\<rparr>))"

definition fileclose :: "'a filesys_scheme \<Rightarrow> nat \<Rightarrow> 'a filesys_scheme res" where
  "fileclose s f =
     (let ff = fil s f in
      if f_ref ff < 1 then Panic ''fileclose''
      else if f_ref ff - 1 > 0 then Ret (set_file s f (ff\<lparr>f_ref := f_ref ff - 1\<rparr>))
      else let s = set_file s f (ff\<lparr>f_ref := 0, f_type := FD_NONE\<rparr>) in
        if f_type ff = FD_PIPE then close_pipe s (f_pipe ff) (f_writable ff)
        else if f_type ff = FD_INODE \<or> f_type ff = FD_DEVICE then
          rbind (begin_op' s) (\<lambda>s. rbind (iput s (f_ip ff)) end_op)
        else Ret s)"

definition filestat :: "'a filesys_scheme \<Rightarrow> nat \<Rightarrow> (stat \<Rightarrow> bool) \<Rightarrow> (int \<times> 'a filesys_scheme) res" where
  "filestat s f copyout =
     (if f_type (fil s f) = FD_INODE \<or> f_type (fil s f) = FD_DEVICE then
        rbind (ilock s (f_ip (fil s f))) (\<lambda>s.
          let st = stati s (f_ip (fil s f)) in
          rbind (iunlock s (f_ip (fil s f))) (\<lambda>s. Ret (if copyout st then 0 else -1, s)))
      else Ret (-1, s))"

definition fileread ::
  "(int \<Rightarrow> (int \<Rightarrow> outcome \<times> uint8 list) option) \<Rightarrow> bool \<Rightarrow> 'a filesys_scheme \<Rightarrow> nat \<Rightarrow> (nat \<Rightarrow> nat \<Rightarrow> bool) \<Rightarrow> int \<Rightarrow>
   (outcome \<times> uint8 list \<times> 'a filesys_scheme) res" where
  "fileread devread killed s f sink n =
     (let ff = fil s f in
      if \<not> f_readable ff then Ret (Returned (-1), [], s)
      else case f_type ff of
        FD_PIPE \<Rightarrow>
          (case pipes s (f_pipe ff) of
             None \<Rightarrow> Panic ''fileread: no pipe''
           | Some p \<Rightarrow> let (r, p', _, out) = piperead killed (\<lambda>i. sink (nat i) 1) p n in
               Ret (r, out, s\<lparr>pipes := (pipes s)(f_pipe ff := Some p')\<rparr>))
      | FD_DEVICE \<Rightarrow>
          if sint (f_major ff) < 0 \<or> sint (f_major ff) \<ge> NDEV then Ret (Returned (-1), [], s)
          else (case devread (sint (f_major ff)) of
                  None \<Rightarrow> Ret (Returned (-1), [], s)
                | Some rd \<Rightarrow> let (r, out) = rd n in Ret (r, out, s))
      | FD_INODE \<Rightarrow>
          rbind (ilock s (f_ip ff)) (\<lambda>s.
          rbind (readi s (f_ip ff) (\<lambda>tot bs. sink tot (length bs)) (f_off ff) (of_int n)) (\<lambda>(r, out, s).
            let s = (if r > 0 then set_file s f ((fil s f)\<lparr>f_off := f_off (fil s f) + of_int r\<rparr>) else s) in
            rbind (iunlock s (f_ip ff)) (\<lambda>s. Ret (Returned r, out, s))))
      | FD_NONE \<Rightarrow> Panic ''fileread'')"

definition max_chunk :: int where "max_chunk = ((MAXOPBLOCKS - 1 - 1 - 2) div 2) * int BSIZE"

function filewrite_loop :: "(nat \<Rightarrow> nat \<Rightarrow> uint8 list \<times> bool) \<Rightarrow> nat \<Rightarrow> int \<Rightarrow> int \<Rightarrow> 'a filesys_scheme \<Rightarrow> (int \<times> 'a filesys_scheme) res" where
  "filewrite_loop src f i n s =
     (if i < n then
        let n1 = min (n - i) max_chunk in
        rbind (begin_op' s) (\<lambda>s.
        rbind (ilock s (f_ip (fil s f))) (\<lambda>s.
        rbind (writei s (f_ip (fil s f)) (\<lambda>tot m. src (nat i + tot) m) (f_off (fil s f)) (of_int n1)) (\<lambda>(r, s).
          let s = (if r > 0 then set_file s f ((fil s f)\<lparr>f_off := f_off (fil s f) + of_int r\<rparr>) else s) in
          rbind (iunlock s (f_ip (fil s f))) (\<lambda>s.
          rbind (end_op s) (\<lambda>s.
            if r \<noteq> n1 then Ret (i, s) else filewrite_loop src f (i + n1) n s)))))
      else Ret (i, s))"
  by pat_completeness auto
termination
  by (relation "measure (\<lambda>(src, f, i, n, s). nat (n - i))") (auto simp: max_chunk_def MAXOPBLOCKS_def BSIZE_def)

declare filewrite_loop.simps [simp del]

definition filewrite ::
  "(int \<Rightarrow> (int \<Rightarrow> outcome) option) \<Rightarrow> (int \<Rightarrow> bool) \<Rightarrow> 'a filesys_scheme \<Rightarrow> nat \<Rightarrow> (nat \<Rightarrow> nat \<Rightarrow> uint8 list \<times> bool) \<Rightarrow> int \<Rightarrow>
   (outcome \<times> 'a filesys_scheme) res" where
  "filewrite devwrite killed s f src n =
     (let ff = fil s f in
      if \<not> f_writable ff then Ret (Returned (-1), s)
      else case f_type ff of
        FD_PIPE \<Rightarrow>
          (case pipes s (f_pipe ff) of
             None \<Rightarrow> Panic ''filewrite: no pipe''
           | Some p \<Rightarrow>
               let (r, p', _) = pipewrite killed (\<lambda>i. let (bs, ok) = src (nat i) 1 in if ok then Some (hd bs) else None) p 0 n in
               Ret (r, s\<lparr>pipes := (pipes s)(f_pipe ff := Some p')\<rparr>))
      | FD_DEVICE \<Rightarrow>
          if sint (f_major ff) < 0 \<or> sint (f_major ff) \<ge> NDEV then Ret (Returned (-1), s)
          else (case devwrite (sint (f_major ff)) of None \<Rightarrow> Ret (Returned (-1), s) | Some wr \<Rightarrow> Ret (wr n, s))
      | FD_INODE \<Rightarrow>
          rbind (filewrite_loop src f 0 n s) (\<lambda>(i, s). Ret (Returned (if i = n then n else -1), s))
      | FD_NONE \<Rightarrow> Panic ''filewrite'')"

section \<open>pipealloc\<close>

text \<open>\<open>page\<close> is what \<^verbatim>\<open>kalloc\<close> returns: a page address with the bytes that lie in it, or nothing.\<close>

definition pipealloc :: "'a filesys_scheme \<Rightarrow> (nat \<times> uint8 list) option \<Rightarrow> ((nat \<times> nat) option \<times> 'a filesys_scheme) res" where
  "pipealloc s page =
     (case filealloc s of
        (None, s) \<Rightarrow> Ret (None, s)
      | (Some f0, s) \<Rightarrow>
          (case filealloc s of
             (None, s) \<Rightarrow> rbind (fileclose s f0) (\<lambda>s. Ret (None, s))
           | (Some f1, s) \<Rightarrow>
               (case page of
                  None \<Rightarrow> rbind (fileclose s f0) (\<lambda>s. rbind (fileclose s f1) (\<lambda>s. Ret (None, s)))
                | Some (pi, data) \<Rightarrow>
                    let s = s\<lparr>pipes := (pipes s)(pi := Some (pipe_init data))\<rparr>;
                        s = set_file s f0 ((fil s f0)\<lparr>f_type := FD_PIPE, f_readable := True, f_writable := False, f_pipe := pi\<rparr>);
                        s = set_file s f1 ((fil s f1)\<lparr>f_type := FD_PIPE, f_readable := False, f_writable := True, f_pipe := pi\<rparr>)
                    in Ret (Some (f0, f1), s))))"

end
