(* ===== verification/Sysfile.thy ===== *)
theory Sysfile
  imports File Fcntl
begin

text \<open>
  The file system calls of \<^verbatim>\<open>kernel/sysfile.c\<close>.  The arguments of a call are arguments of its function:
  a path that \<^verbatim>\<open>argstr\<close> could not fetch is \<open>None\<close>.  \<^verbatim>\<open>sys_exec\<close> is not modelled.
\<close>

definition argfd :: "'a filesys_scheme \<Rightarrow> int \<Rightarrow> nat option" where
  "argfd s fd = (if fd < 0 \<or> fd \<ge> int NOFILE then None else ofile s ! nat fd)"

definition fdalloc :: "'a filesys_scheme \<Rightarrow> nat \<Rightarrow> int \<times> 'a filesys_scheme" where
  "fdalloc s f =
     (case find (\<lambda>fd. ofile s ! fd = None) [0..<NOFILE] of
        Some fd \<Rightarrow> (int fd, s\<lparr>ofile := (ofile s)[fd := Some f]\<rparr>)
      | None \<Rightarrow> (-1, s))"

definition sys_dup :: "'a filesys_scheme \<Rightarrow> int \<Rightarrow> (int \<times> 'a filesys_scheme) res" where
  "sys_dup s fd =
     (case argfd s fd of
        None \<Rightarrow> Ret (-1, s)
      | Some f \<Rightarrow>
          let (fd, s) = fdalloc s f in
          if fd < 0 then Ret (-1, s) else rbind (filedup s f) (\<lambda>s. Ret (fd, s)))"

definition sys_read ::
  "(int \<Rightarrow> (int \<Rightarrow> outcome \<times> uint8 list) option) \<Rightarrow> bool \<Rightarrow> 'a filesys_scheme \<Rightarrow> int \<Rightarrow> (nat \<Rightarrow> nat \<Rightarrow> bool) \<Rightarrow> int \<Rightarrow>
   (outcome \<times> uint8 list \<times> 'a filesys_scheme) res" where
  "sys_read devread killed s fd sink n =
     (case argfd s fd of None \<Rightarrow> Ret (Returned (-1), [], s) | Some f \<Rightarrow> fileread devread killed s f sink n)"

definition sys_write ::
  "(int \<Rightarrow> (int \<Rightarrow> outcome) option) \<Rightarrow> (int \<Rightarrow> bool) \<Rightarrow> 'a filesys_scheme \<Rightarrow> int \<Rightarrow> (nat \<Rightarrow> nat \<Rightarrow> uint8 list \<times> bool) \<Rightarrow> int \<Rightarrow>
   (outcome \<times> 'a filesys_scheme) res" where
  "sys_write devwrite killed s fd src n =
     (case argfd s fd of None \<Rightarrow> Ret (Returned (-1), s) | Some f \<Rightarrow> filewrite devwrite killed s f src n)"

definition sys_close :: "'a filesys_scheme \<Rightarrow> int \<Rightarrow> (int \<times> 'a filesys_scheme) res" where
  "sys_close s fd =
     (case argfd s fd of
        None \<Rightarrow> Ret (-1, s)
      | Some f \<Rightarrow> rbind (fileclose (s\<lparr>ofile := (ofile s)[nat fd := None]\<rparr>) f) (\<lambda>s. Ret (0, s)))"

definition sys_fstat :: "'a filesys_scheme \<Rightarrow> int \<Rightarrow> (stat \<Rightarrow> bool) \<Rightarrow> (int \<times> 'a filesys_scheme) res" where
  "sys_fstat s fd copyout = (case argfd s fd of None \<Rightarrow> Ret (-1, s) | Some f \<Rightarrow> filestat s f copyout)"

text \<open>\<^verbatim>\<open>end_op(); return r;\<close>\<close>

definition leave :: "int \<Rightarrow> 'a logsys_scheme \<Rightarrow> (int \<times> 'a logsys_scheme) res" where
  "leave r s = rbind (end_op s) (\<lambda>s. Ret (r, s))"

definition add_nlink :: "'a fsys_scheme \<Rightarrow> nat \<Rightarrow> uint16 \<Rightarrow> 'a fsys_scheme" where
  "add_nlink s ip d = set_inode s ip ((ino s ip)\<lparr>i_nlink := i_nlink (ino s ip) + d\<rparr>)"

definition link_bad :: "'a filesys_scheme \<Rightarrow> nat \<Rightarrow> (int \<times> 'a filesys_scheme) res" where
  "link_bad s ip =
     rbind (ilock s ip) (\<lambda>s. rbind (iupdate (add_nlink s ip (-1)) ip) (\<lambda>s. rbind (iunlockput s ip) (leave (-1))))"

definition sys_link :: "'a filesys_scheme \<Rightarrow> uint8 list option \<Rightarrow> uint8 list option \<Rightarrow> (int \<times> 'a filesys_scheme) res" where
  "sys_link s old new =
     (case (old, new) of
        (Some old, Some new) \<Rightarrow>
          rbind (begin_op' s) (\<lambda>s.
          rbind (namei s (cwd s) old) (\<lambda>(ip, s).
            case ip of
              None \<Rightarrow> leave (-1) s
            | Some ip \<Rightarrow>
                rbind (ilock s ip) (\<lambda>s.
                  if i_type (ino s ip) = T_DIR then rbind (iunlockput s ip) (leave (-1))
                  else rbind (iupdate (add_nlink s ip 1) ip) (\<lambda>s.
                    rbind (iunlock s ip) (\<lambda>s.
                    rbind (nameiparent s (cwd s) new) (\<lambda>(dp, name, s).
                      case dp of
                        None \<Rightarrow> link_bad s ip
                      | Some dp \<Rightarrow>
                          rbind (ilock s dp) (\<lambda>s.
                          rbind (if i_dev (ino s dp) \<noteq> i_dev (ino s ip) then Ret (-1, s)
                                 else dirlink s dp name (i_inum (ino s ip))) (\<lambda>(r, s).
                            if r < 0 then rbind (iunlockput s dp) (\<lambda>s. link_bad s ip)
                            else rbind (iunlockput s dp) (\<lambda>s. rbind (iput s ip) (leave 0))))))))))
      | _ \<Rightarrow> Ret (-1, s))"

primrec isdirempty_loop :: "nat list \<Rightarrow> nat \<Rightarrow> 'a fsys_scheme \<Rightarrow> (bool \<times> 'a fsys_scheme) res" where
  "isdirempty_loop [] dp s = Ret (True, s)"
| "isdirempty_loop (off # offs) dp s =
     rbind (readi s dp accept (of_nat off) (of_nat dirent_size)) (\<lambda>(r, de, s).
       if r \<noteq> int dirent_size then Panic ''isdirempty: readi''
       else if get16 de 0 \<noteq> 0 then Ret (False, s)
       else isdirempty_loop offs dp s)"

definition isdirempty :: "'a fsys_scheme \<Rightarrow> nat \<Rightarrow> (bool \<times> 'a fsys_scheme) res" where
  "isdirempty s dp = isdirempty_loop (drop 2 (dir_offsets (unat (i_size (ino s dp))))) dp s"

definition dot :: "uint8 list" where "dot = [46]"
definition dotdot :: "uint8 list" where "dotdot = [46, 46]"

text \<open>The removal of the entry at \<open>off\<close>, once it is known to be allowed.\<close>

definition unlink_entry :: "'a filesys_scheme \<Rightarrow> nat \<Rightarrow> nat \<Rightarrow> nat \<Rightarrow> (int \<times> 'a filesys_scheme) res" where
  "unlink_entry s dp ip off =
     rbind (writei s dp (from_list (replicate dirent_size 0)) (of_nat off) (of_nat dirent_size)) (\<lambda>(r, s).
       if r \<noteq> int dirent_size then Panic ''unlink: writei''
       else rbind (if i_type (ino s ip) = T_DIR then iupdate (add_nlink s dp (-1)) dp else Ret s) (\<lambda>s.
            rbind (iunlockput s dp) (\<lambda>s.
            rbind (iupdate (add_nlink s ip (-1)) ip) (\<lambda>s.
            rbind (iunlockput s ip) (leave 0)))))"

definition sys_unlink :: "'a filesys_scheme \<Rightarrow> uint8 list option \<Rightarrow> (int \<times> 'a filesys_scheme) res" where
  "sys_unlink s path =
     (case path of
        None \<Rightarrow> Ret (-1, s)
      | Some path \<Rightarrow>
          rbind (begin_op' s) (\<lambda>s.
          rbind (nameiparent s (cwd s) path) (\<lambda>(dp, name, s).
            case dp of
              None \<Rightarrow> leave (-1) s
            | Some dp \<Rightarrow>
                rbind (ilock s dp) (\<lambda>s.
                  if namecmp name dot = 0 \<or> namecmp name dotdot = 0 then rbind (iunlockput s dp) (leave (-1))
                  else rbind (dirlookup s dp name) (\<lambda>(found, s).
                    case found of
                      None \<Rightarrow> rbind (iunlockput s dp) (leave (-1))
                    | Some (ip, off) \<Rightarrow>
                        rbind (ilock s ip) (\<lambda>s.
                          if sint (i_nlink (ino s ip)) < 1 then Panic ''unlink: nlink < 1''
                          else rbind (if i_type (ino s ip) = T_DIR then isdirempty s ip else Ret (True, s)) (\<lambda>(empty, s).
                            if \<not> empty then rbind (iunlockput s ip) (\<lambda>s. rbind (iunlockput s dp) (leave (-1)))
                            else unlink_entry s dp ip off)))))))"

text \<open>\<^verbatim>\<open>create\<close>: an existing inode, a new one with its entries, or the way out through \<^verbatim>\<open>fail\<close>.\<close>

definition create_fail :: "'a filesys_scheme \<Rightarrow> nat \<Rightarrow> nat \<Rightarrow> (nat option \<times> 'a filesys_scheme) res" where
  "create_fail s dp ip =
     rbind (iupdate (set_inode s ip ((ino s ip)\<lparr>i_nlink := 0\<rparr>)) ip) (\<lambda>s.
     rbind (iunlockput s ip) (\<lambda>s.
     rbind (iunlockput s dp) (\<lambda>s. Ret (None, s))))"

definition create_dots :: "'a filesys_scheme \<Rightarrow> nat \<Rightarrow> nat \<Rightarrow> (int \<times> 'a filesys_scheme) res" where
  "create_dots s dp ip =
     rbind (dirlink s ip dot (i_inum (ino s ip))) (\<lambda>(r, s).
       if r < 0 then Ret (r, s) else dirlink s ip dotdot (i_inum (ino s dp)))"

definition create :: "'a filesys_scheme \<Rightarrow> uint8 list \<Rightarrow> uint16 \<Rightarrow> uint16 \<Rightarrow> uint16 \<Rightarrow> (nat option \<times> 'a filesys_scheme) res" where
  "create s path type major minor =
     rbind (nameiparent s (cwd s) path) (\<lambda>(dp, name, s).
       case dp of
         None \<Rightarrow> Ret (None, s)
       | Some dp \<Rightarrow>
           rbind (ilock s dp) (\<lambda>s.
           rbind (dirlookup s dp name) (\<lambda>(found, s).
             case found of
               Some (ip, _) \<Rightarrow>
                 rbind (iunlockput s dp) (\<lambda>s.
                 rbind (ilock s ip) (\<lambda>s.
                   if type = T_FILE \<and> (i_type (ino s ip) = T_FILE \<or> i_type (ino s ip) = T_DEVICE) then Ret (Some ip, s)
                   else rbind (iunlockput s ip) (\<lambda>s. Ret (None, s))))
             | None \<Rightarrow>
                 rbind (ialloc s (i_dev (ino s dp)) type) (\<lambda>(ip, s).
                   case ip of
                     None \<Rightarrow> rbind (iunlockput s dp) (\<lambda>s. Ret (None, s))
                   | Some ip \<Rightarrow>
                       rbind (ilock s ip) (\<lambda>s.
                       rbind (iupdate (set_inode s ip ((ino s ip)\<lparr>i_major := major, i_minor := minor, i_nlink := 1\<rparr>)) ip) (\<lambda>s.
                       rbind (if type = T_DIR then create_dots s dp ip else Ret (0, s)) (\<lambda>(r, s).
                         if r < 0 then create_fail s dp ip
                         else rbind (dirlink s dp name (i_inum (ino s ip))) (\<lambda>(r, s).
                           if r < 0 then create_fail s dp ip
                           else rbind (if type = T_DIR then iupdate (add_nlink s dp 1) dp else Ret s) (\<lambda>s.
                                rbind (iunlockput s dp) (\<lambda>s. Ret (Some ip, s)))))))))))"

definition open_file :: "'a filesys_scheme \<Rightarrow> nat \<Rightarrow> int \<Rightarrow> (int \<times> 'a filesys_scheme) res" where
  "open_file s ip omode =
     (case filealloc s of
        (None, s) \<Rightarrow> rbind (iunlockput s ip) (leave (-1))
      | (Some f, s) \<Rightarrow>
          let (fd, s) = fdalloc s f in
          if fd < 0 then rbind (fileclose s f) (\<lambda>s. rbind (iunlockput s ip) (leave (-1)))
          else
            let x = (if i_type (ino s ip) = T_DEVICE then (fil s f)\<lparr>f_type := FD_DEVICE, f_major := i_major (ino s ip)\<rparr>
                     else (fil s f)\<lparr>f_type := FD_INODE, f_off := 0\<rparr>);
                s = set_file s f (x\<lparr>f_ip := ip, f_readable := omode AND O_WRONLY = 0, f_writable := omode AND O_WRONLY \<noteq> 0 \<or> omode AND O_RDWR \<noteq> 0\<rparr>) in
            rbind (if omode AND O_TRUNC \<noteq> 0 \<and> i_type (ino s ip) = T_FILE then itrunc s ip else Ret s) (\<lambda>s.
            rbind (iunlock s ip) (leave fd)))"

text \<open>The inode to open, locked, or nothing where the code leaves with -1.\<close>

definition open_inode :: "'a filesys_scheme \<Rightarrow> uint8 list \<Rightarrow> int \<Rightarrow> (nat option \<times> 'a filesys_scheme) res" where
  "open_inode s path omode =
     (if omode AND O_CREATE \<noteq> 0 then create s path T_FILE 0 0
      else rbind (namei s (cwd s) path) (\<lambda>(ip, s).
        case ip of
          None \<Rightarrow> Ret (None, s)
        | Some ip \<Rightarrow>
            rbind (ilock s ip) (\<lambda>s.
              if i_type (ino s ip) = T_DIR \<and> omode \<noteq> O_RDONLY then rbind (iunlockput s ip) (\<lambda>s. Ret (None, s))
              else Ret (Some ip, s))))"

definition sys_open :: "'a filesys_scheme \<Rightarrow> uint8 list option \<Rightarrow> int \<Rightarrow> (int \<times> 'a filesys_scheme) res" where
  "sys_open s path omode =
     (case path of
        None \<Rightarrow> Ret (-1, s)
      | Some path \<Rightarrow>
          rbind (begin_op' s) (\<lambda>s.
          rbind (open_inode s path omode) (\<lambda>(ip, s).
            case ip of
              None \<Rightarrow> leave (-1) s
            | Some ip \<Rightarrow>
                if i_type (ino s ip) = T_DEVICE \<and> (sint (i_major (ino s ip)) < 0 \<or> sint (i_major (ino s ip)) \<ge> NDEV)
                then rbind (iunlockput s ip) (leave (-1))
                else open_file s ip omode)))"

definition sys_mkdir :: "'a filesys_scheme \<Rightarrow> uint8 list option \<Rightarrow> (int \<times> 'a filesys_scheme) res" where
  "sys_mkdir s path =
     rbind (begin_op' s) (\<lambda>s.
       case path of
         None \<Rightarrow> leave (-1) s
       | Some path \<Rightarrow>
           rbind (create s path T_DIR 0 0) (\<lambda>(ip, s).
             case ip of None \<Rightarrow> leave (-1) s | Some ip \<Rightarrow> rbind (iunlockput s ip) (leave 0)))"

definition sys_mknod :: "'a filesys_scheme \<Rightarrow> uint8 list option \<Rightarrow> int \<Rightarrow> int \<Rightarrow> (int \<times> 'a filesys_scheme) res" where
  "sys_mknod s path major minor =
     rbind (begin_op' s) (\<lambda>s.
       case path of
         None \<Rightarrow> leave (-1) s
       | Some path \<Rightarrow>
           rbind (create s path T_DEVICE (of_int major) (of_int minor)) (\<lambda>(ip, s).
             case ip of None \<Rightarrow> leave (-1) s | Some ip \<Rightarrow> rbind (iunlockput s ip) (leave 0)))"

definition sys_chdir :: "'a filesys_scheme \<Rightarrow> uint8 list option \<Rightarrow> (int \<times> 'a filesys_scheme) res" where
  "sys_chdir s path =
     rbind (begin_op' s) (\<lambda>s.
       case path of
         None \<Rightarrow> leave (-1) s
       | Some path \<Rightarrow>
           rbind (namei s (cwd s) path) (\<lambda>(ip, s).
             case ip of
               None \<Rightarrow> leave (-1) s
             | Some ip \<Rightarrow>
                 rbind (ilock s ip) (\<lambda>s.
                   if i_type (ino s ip) \<noteq> T_DIR then rbind (iunlockput s ip) (leave (-1))
                   else rbind (iunlock s ip) (\<lambda>s.
                        rbind (iput s (cwd s)) (\<lambda>s.
                        rbind (end_op s) (\<lambda>s. Ret (0, s\<lparr>cwd := ip\<rparr>)))))))"

text \<open>\<open>copyout k fd\<close> tells whether descriptor \<open>fd\<close> could be stored as entry \<open>k\<close> of the caller's array.\<close>

definition sys_pipe :: "'a filesys_scheme \<Rightarrow> (nat \<times> uint8 list) option \<Rightarrow> (nat \<Rightarrow> int \<Rightarrow> bool) \<Rightarrow> (int \<times> 'a filesys_scheme) res" where
  "sys_pipe s page copyout =
     rbind (pipealloc s page) (\<lambda>(files, s).
       case files of
         None \<Rightarrow> Ret (-1, s)
       | Some (rfile, wfile) \<Rightarrow>
           let (fd0, s) = fdalloc s rfile in
           if fd0 < 0 then rbind (fileclose s rfile) (\<lambda>s. rbind (fileclose s wfile) (\<lambda>s. Ret (-1, s)))
           else let (fd1, s) = fdalloc s wfile in
             if fd1 < 0 then
               rbind (fileclose (s\<lparr>ofile := (ofile s)[nat fd0 := None]\<rparr>) rfile) (\<lambda>s. rbind (fileclose s wfile) (\<lambda>s. Ret (-1, s)))
             else if \<not> copyout 0 fd0 \<or> \<not> copyout 1 fd1 then
               rbind (fileclose (s\<lparr>ofile := (ofile s)[nat fd0 := None, nat fd1 := None]\<rparr>) rfile) (\<lambda>s. rbind (fileclose s wfile) (\<lambda>s. Ret (-1, s)))
             else Ret (0, s))"

end
