(* ===== verification/File_Frame.thy ===== *)
theory File_Frame
  imports Sysfile Fs_Table
begin

text \<open>
  The file system, the log and the cache leave the file table, the pipes and the descriptors alone:
  \<open>extra\<close> is everything above the file system, and every operation below keeps it.
\<close>

abbreviation extra :: "'a fsys_scheme \<Rightarrow> 'a" where
  "extra s \<equiv> fsys.more s"

lemma shape_extra: "shape s' = shape s \<Longrightarrow> extra s' = extra s"
  by (simp add: shape_def)

lemma extra_set_inode [simp]: "extra (set_inode s ip x) = extra s"
  by (simp add: set_inode_def)

lemma extra_set_data [simp]: "extra (set_data s i d) = extra s"
  by (simp add: set_data_def set_buf_def)

lemmas block_extra = block_shape [THEN shape_extra]
lemmas shape_extras = bmap_shape [THEN shape_extra] itrunc_shape [THEN shape_extra] readi_shape [THEN shape_extra] writei_shape [THEN shape_extra]
  iunlock_shape [THEN shape_extra]

section \<open>Inodes and directories\<close>

lemma iget_extra: "iget s dev inum = Ret (ip, s') \<Longrightarrow> extra s' = extra s"
  by (auto simp: iget_def split: option.splits)

lemma ialloc_loop_extra: "ialloc_loop is dev type s = Ret (ip, s') \<Longrightarrow> extra s' = extra s"
proof (induction "is" arbitrary: s)
  case (Cons i "is")
  show ?case using Cons.prems by (auto simp: rbind_Ret_iff split: if_splits dest!: block_extra iget_extra Cons.IH)
qed simp

lemma ialloc_extra: "ialloc s dev type = Ret (ip, s') \<Longrightarrow> extra s' = extra s"
  unfolding ialloc_def by (rule ialloc_loop_extra)

lemma ilock_extra: "ilock s ip = Ret s' \<Longrightarrow> extra s' = extra s"
  by (auto simp: ilock_def acquire_inode_def rbind_Ret_iff Let_def split: if_splits dest!: block_extra)

lemma iput_extra: "iput s ip = Ret s' \<Longrightarrow> extra s' = extra s"
  by (auto simp: iput_def acquire_inode_def rbind_Ret_iff split: if_splits dest!: block_extra shape_extras)

lemma iunlockput_extra: "iunlockput s ip = Ret s' \<Longrightarrow> extra s' = extra s"
  by (auto simp: iunlockput_def rbind_Ret_iff dest!: iput_extra shape_extras)

lemmas inode_extra = iget_extra ialloc_extra ilock_extra iput_extra iunlockput_extra shape_extras block_extra

lemma dirlookup_loop_extra: "dirlookup_loop offs dp name s = Ret (r, s') \<Longrightarrow> extra s' = extra s"
proof (induction offs arbitrary: s)
  case (Cons off offs)
  show ?case using Cons.prems by (auto simp: rbind_Ret_iff split: if_splits dest!: inode_extra Cons.IH)
qed simp

lemma dirlookup_extra: "dirlookup s dp name = Ret (r, s') \<Longrightarrow> extra s' = extra s"
  by (auto simp: dirlookup_def split: if_splits dest: dirlookup_loop_extra)

lemma empty_dirent_extra: "empty_dirent offs off dp s = Ret (r, s') \<Longrightarrow> extra s' = extra s"
proof (induction offs arbitrary: s off)
  case (Cons off offs)
  show ?case using Cons.prems by (auto simp: rbind_Ret_iff split: if_splits dest!: inode_extra Cons.IH)
qed simp

lemma dirlink_extra: "dirlink s dp name inum = Ret (r, s') \<Longrightarrow> extra s' = extra s"
  by (auto simp: dirlink_def rbind_Ret_iff split: option.splits dest!: dirlookup_extra empty_dirent_extra inode_extra)

lemma namex_loop_extra: "namex_loop ip np name path s = Ret (r, name', s') \<Longrightarrow> extra s' = extra s"
proof (induction ip np name path s rule: namex_loop.induct)
  case (1 ip np name path s)
  show ?case
  proof (cases "skipelem path")
    case None
    then show ?thesis using "1.prems"
      by (subst (asm) namex_loop.simps) (auto simp: rbind_Ret_iff split: if_splits dest!: inode_extra)
  next
    case (Some a)
    obtain elem rest where a: "a = (elem, rest)" by (cases a)
    obtain s1 where l: "ilock s ip = Ret s1" using "1.prems" Some a by (subst (asm) namex_loop.simps) (auto simp: rbind_Ret_iff)
    have e1: "extra s1 = extra s" by (rule ilock_extra [OF l])
    show ?thesis
    proof (cases "i_type (ino s1 ip) \<noteq> T_DIR \<or> np \<and> hd0 rest = 0")
      case True
      then show ?thesis using "1.prems" Some a l e1
        by (subst (asm) namex_loop.simps) (auto simp: rbind_Ret_iff split: if_splits dest!: inode_extra)
    next
      case False
      obtain found s2 where d: "dirlookup s1 ip elem = Ret (found, s2)"
        using "1.prems" Some a l False by (subst (asm) namex_loop.simps) (auto simp: rbind_Ret_iff)
      have e2: "extra s2 = extra s" using dirlookup_extra [OF d] e1 by simp
      show ?thesis
      proof (cases found)
        case None
        then show ?thesis using "1.prems" Some a l False d e2
          by (subst (asm) namex_loop.simps) (auto simp: rbind_Ret_iff split: if_splits dest!: inode_extra)
      next
        case f: (Some b)
        obtain nx off where b: "b = (nx, off)" by (cases b)
        obtain s3 where u: "iunlockput s2 ip = Ret s3" "namex_loop nx np elem rest s3 = Ret (r, name', s')"
          using "1.prems" Some a l False d f b by (subst (asm) namex_loop.simps) (auto simp: rbind_Ret_iff)
        have "extra s' = extra s3"
          by (rule "1.IH" [OF Some a [symmetric] l _ _ d refl f b [symmetric] u]) (use False in auto)
        then show ?thesis using iunlockput_extra [OF u(1)] e2 by simp
      qed
    qed
  qed
qed

lemma namex_extra: "namex s c path np = Ret (r, name, s') \<Longrightarrow> extra s' = extra s"
  by (auto simp: namex_def idup_def rbind_Ret_iff split: if_splits dest!: namex_loop_extra inode_extra)

lemma namei_extra: "namei s c path = Ret (r, s') \<Longrightarrow> extra s' = extra s"
  by (auto simp: namei_def rbind_Ret_iff dest!: namex_extra)

lemma nameiparent_extra: "nameiparent s c path = Ret (r, name, s') \<Longrightarrow> extra s' = extra s"
  by (auto simp: nameiparent_def dest!: namex_extra)

lemmas fs_extra = inode_extra dirlookup_extra dirlink_extra namei_extra nameiparent_extra

section \<open>Transactions\<close>

lemma begin_op_keeps: "begin_op' s = Ret s' \<Longrightarrow> keeps_fs s s'"
  by (auto simp: begin_op'_def begin_op_def keeps_fs_def split: if_splits option.splits)

lemma bwrite_keeps: "bwrite s i = Ret s' \<Longrightarrow> keeps_fs s s'"
  by (auto simp: bwrite_def virtio_disk_rw_def keeps_fs_def Let_def split: if_splits)

lemma more_bunpin [simp]: "logsys.more (bunpin s i) = logsys.more s"
  by (simp add: bunpin_def set_buf_def)

lemmas disk_keeps = cache_keeps bwrite_keeps

lemma install_block_keeps: "install_block s rec t = Ret s' \<Longrightarrow> keeps_fs s s'"
  unfolding install_block_def Let_def by (auto simp: rbind_Ret_iff keeps_fs_def dest!: disk_keeps split: if_splits)

lemma log_block_keeps: "log_block s t = Ret s' \<Longrightarrow> keeps_fs s s'"
  unfolding log_block_def Let_def by (auto simp: rbind_Ret_iff keeps_fs_def dest!: disk_keeps)

lemma install_loop_keeps: "install_loop rec ts s = Ret s' \<Longrightarrow> keeps_fs s s'"
  by (induction ts arbitrary: s) (auto simp: rbind_Ret_iff dest!: install_block_keeps intro: keeps_fs_trans)

lemma write_log_loop_keeps: "write_log_loop ts s = Ret s' \<Longrightarrow> keeps_fs s s'"
  by (induction ts arbitrary: s) (auto simp: rbind_Ret_iff dest!: log_block_keeps intro: keeps_fs_trans)

lemma write_head_keeps: "write_head s = Ret s' \<Longrightarrow> keeps_fs s s'"
  unfolding write_head_def Let_def by (auto simp: rbind_Ret_iff keeps_fs_def dest!: disk_keeps)

lemma commit_keeps: "commit s = Ret s' \<Longrightarrow> keeps_fs s s'"
  unfolding commit_def write_log_def install_trans_def
  by (auto simp: rbind_Ret_iff keeps_fs_def split: if_splits dest!: write_log_loop_keeps install_loop_keeps write_head_keeps)

lemma end_op_keeps: "end_op s = Ret s' \<Longrightarrow> keeps_fs s s'"
  unfolding end_op_def Let_def by (auto simp: rbind_Ret_iff keeps_fs_def split: if_splits dest!: commit_keeps)

lemma begin_op_extra: "begin_op' s = Ret s' \<Longrightarrow> extra s' = extra s"
  by (rule keeps_fs_simps(3) [OF begin_op_keeps])

lemma end_op_extra: "end_op s = Ret s' \<Longrightarrow> extra s' = extra s"
  by (rule keeps_fs_simps(3) [OF end_op_keeps])

lemma leave_extra: "leave r s = Ret (q, s') \<Longrightarrow> q = r \<and> extra s' = extra s"
  by (auto simp: leave_def rbind_Ret_iff dest: end_op_extra)

lemmas op_extra = begin_op_extra end_op_extra fs_extra

section \<open>System calls\<close>

lemma add_nlink_extra [simp]: "extra (add_nlink s ip d) = extra s"
  by (simp add: add_nlink_def)

lemma create_fail_extra: "create_fail s dp ip = Ret (r, s') \<Longrightarrow> extra s' = extra s"
  unfolding create_fail_def by (auto simp: rbind_Ret_iff dest!: op_extra)

lemma create_dots_extra: "create_dots s dp ip = Ret (r, s') \<Longrightarrow> extra s' = extra s"
  unfolding create_dots_def by (auto simp: rbind_Ret_iff split: if_splits dest!: op_extra)

lemma create_extra: "create s path type major minor = Ret (r, s') \<Longrightarrow> extra s' = extra s"
  unfolding create_def
  by (auto simp: rbind_Ret_iff split: if_splits option.splits dest!: op_extra create_fail_extra create_dots_extra)

lemma open_inode_extra: "open_inode s path omode = Ret (r, s') \<Longrightarrow> extra s' = extra s"
  unfolding open_inode_def by (auto simp: rbind_Ret_iff split: if_splits option.splits dest!: op_extra create_extra)

end
