(* ===== verification/File_Props.thy ===== *)
theory File_Props
  imports File_Frame Fs_Alloc_Props
begin

text \<open>
  Reference counts of open files: through every system call, on its failing paths too, the count of
  a file is the number of descriptors that name it.
\<close>

section \<open>Exact counts\<close>

text \<open>\<open>others f\<close> is the number of references to file \<open>f\<close> from elsewhere: the descriptors of other
  processes, and the call in progress.\<close>

definition file_inv :: "(nat \<Rightarrow> int) \<Rightarrow> 'a filesys_scheme \<Rightarrow> bool" where
  "file_inv others s \<longleftrightarrow> length (ftable s) = NFILE \<and> length (ofile s) = NOFILE \<and>
     (\<forall>f. Some f \<in> set (ofile s) \<longrightarrow> f < NFILE) \<and>
     (\<forall>f < NFILE. f_ref (fil s f) = int (count_list (ofile s) (Some f)) + others f)"

definition bump :: "int \<Rightarrow> nat \<Rightarrow> (nat \<Rightarrow> int) \<Rightarrow> nat \<Rightarrow> int" where
  "bump d f others = others(f := others f + d)"

lemma bump_simps [simp]: "bump 1 f (bump (-1) f others) = others" "bump (-1) f (bump 1 f others) = others"
  by (simp_all add: bump_def)

lemma extra_fields: "extra (s :: 'a filesys_scheme) = filesys_ext (ftable s) (pipes s) (ofile s) (cwd s) (filesys.more s)"
  by (cases s) simp

lemma extra_files:
  assumes "extra (s' :: 'a filesys_scheme) = extra s"
  shows "ftable s' = ftable s" "ofile s' = ofile s" "cwd s' = cwd s" "pipes s' = pipes s"
  using assms unfolding extra_fields by simp_all

lemma file_inv_extra: "extra (s' :: 'a filesys_scheme) = extra s \<Longrightarrow> file_inv others s' = file_inv others s"
  using extra_files [of s' s] by (simp add: file_inv_def)

lemma set_file_sel [simp]: "ftable (set_file s f x) = (ftable s)[f := x]" "ofile (set_file s f x) = ofile s"
  by (simp_all add: set_file_def)

lemma count_update:
  assumes "i < length xs"
  shows "count_list (xs[i := y]) z + (if xs ! i = z then 1 else 0) = count_list xs z + (if y = z then 1 else 0)"
  using assms
proof (induction xs arbitrary: i)
  case (Cons x xs)
  show ?case
  proof (cases i)
    case (Suc j)
    then show ?thesis using Cons.IH [of j] Cons.prems by (simp split: if_splits)
  qed simp
qed simp

lemma file_inv_set:
  assumes "file_inv others s" "f < NFILE" "f_ref x = f_ref (fil s f) + d"
  shows "file_inv (bump d f others) (set_file s f x)"
  using assms by (auto simp: file_inv_def nth_list_update bump_def)

lemma file_inv_set_same: "file_inv others s \<Longrightarrow> f < NFILE \<Longrightarrow> f_ref x = f_ref (fil s f) \<Longrightarrow> file_inv others (set_file s f x)"
  using file_inv_set [of others s f x 0] by (simp add: bump_def)

lemma file_inv_pipes [simp]: "file_inv others (s\<lparr>pipes := p\<rparr>) = file_inv others s"
  by (simp add: file_inv_def)

section \<open>Operations on files and descriptors\<close>

lemma filealloc_cases:
  assumes "file_inv others s"
  obtains "filealloc s = (None, s)"
  | f s' where "filealloc s = (Some f, s')" "f < NFILE" "file_inv (bump 1 f others) s'" "ofile s' = ofile s" "f_ref (fil s f) = 0"
proof (cases "find (\<lambda>f. f_ref (fil s f) = 0) [0..<NFILE]")
  case None
  then show thesis using that(1) by (simp add: filealloc_def)
next
  case (Some f)
  then have f: "f < NFILE" "f_ref (fil s f) = 0" using find_SomeD [OF Some] by simp_all
  have "file_inv (bump 1 f others) (set_file s f ((fil s f)\<lparr>f_ref := 1\<rparr>))" by (rule file_inv_set [OF assms f(1)]) (simp add: f)
  then show thesis using that(2) Some f by (simp add: filealloc_def)
qed

lemma fdalloc_cases:
  assumes "file_inv others s" "f < NFILE"
  obtains "fdalloc s f = (-1, s)" "None \<notin> set (ofile s)"
  | i s' where "fdalloc s f = (int i, s')" "i < NOFILE" "file_inv (bump (-1) f others) s'" "ofile s ! i = None" "ofile s' = (ofile s)[i := Some f]" "ftable s' = ftable s"
    "\<And>j. j < i \<Longrightarrow> ofile s ! j \<noteq> None"
proof (cases "find (\<lambda>fd. ofile s ! fd = None) [0..<NOFILE]")
  case None
  have l: "length (ofile s) = NOFILE" using assms by (simp add: file_inv_def)
  have "None \<notin> set (ofile s)" using None l by (force simp: find_None_iff in_set_conv_nth)
  then show thesis using that(1) None by (simp add: fdalloc_def)
next
  case (Some i)
  then have i: "i < NOFILE" "ofile s ! i = None" "\<And>j. j < i \<Longrightarrow> ofile s ! j \<noteq> None" by (auto simp: find_Some_iff)
  have l: "i < length (ofile s)" using assms i by (simp add: file_inv_def)
  have c: "int (count_list ((ofile s)[i := Some f]) (Some g)) = int (count_list (ofile s) (Some g)) + (if g = f then 1 else 0)" for g
    using count_update [OF l, of "Some f" "Some g"] i(2) by auto
  have "file_inv (bump (-1) f others) (s\<lparr>ofile := (ofile s)[i := Some f]\<rparr>)"
    using assms c by (auto simp: file_inv_def bump_def dest: set_update_subset_insert [THEN subsetD])
  then show thesis using that(2) Some i by (simp add: fdalloc_def)
qed

lemma drop_fd:
  assumes "file_inv others s" "i < NOFILE" "ofile s ! i = Some f"
  shows "file_inv (bump 1 f others) (s\<lparr>ofile := (ofile s)[i := None]\<rparr>)" "f < NFILE"
proof -
  have l: "i < length (ofile s)" using assms by (simp add: file_inv_def)
  then have "Some f \<in> set (ofile s)" using assms(3) nth_mem by force
  then show "f < NFILE" using assms(1) by (simp add: file_inv_def)
  have c: "int (count_list ((ofile s)[i := None]) (Some g)) = int (count_list (ofile s) (Some g)) - (if g = f then 1 else 0)" for g
    using count_update [OF l, of None "Some g"] assms(3) by (auto split: if_splits)
  show "file_inv (bump 1 f others) (s\<lparr>ofile := (ofile s)[i := None]\<rparr>)"
    using assms c by (auto simp: file_inv_def bump_def dest: set_update_subset_insert [THEN subsetD])
qed

lemma fileclose_spec:
  assumes "file_inv others s" "f < NFILE" "fileclose s f = Ret s'"
  shows "file_inv (bump (-1) f others) s'" "ofile s' = ofile s" "cwd s' = cwd s"
proof -
  let ?ff = "fil s f"
  have r: "1 \<le> f_ref ?ff" using assms(3) by (auto simp: fileclose_def Let_def split: if_splits)
  have "file_inv (bump (-1) f others) s' \<and> ofile s' = ofile s \<and> cwd s' = cwd s"
  proof (cases "f_ref ?ff - 1 > 0")
    case True
    then have "s' = set_file s f (?ff\<lparr>f_ref := f_ref ?ff - 1\<rparr>)" using assms(3) r by (auto simp: fileclose_def Let_def)
    then show ?thesis using file_inv_set [OF assms(1,2), of "?ff\<lparr>f_ref := f_ref ?ff - 1\<rparr>" "-1"] by (simp add: set_file_def)
  next
    case False
    define t where "t = set_file s f (?ff\<lparr>f_ref := 0, f_type := FD_NONE\<rparr>)"
    have t: "file_inv (bump (-1) f others) t" "ofile t = ofile s" "cwd t = cwd s"
      using file_inv_set [OF assms(1,2), of "?ff\<lparr>f_ref := 0, f_type := FD_NONE\<rparr>" "-1"] False r by (simp_all add: t_def set_file_def)
    have "fileclose s f = (if f_type ?ff = FD_PIPE then close_pipe t (f_pipe ?ff) (f_writable ?ff)
        else if f_type ?ff = FD_INODE \<or> f_type ?ff = FD_DEVICE then rbind (begin_op' t) (\<lambda>s. rbind (iput s (f_ip ?ff)) end_op) else Ret t)"
      using r False by (simp add: fileclose_def Let_def t_def)
    then consider (pipe) "close_pipe t (f_pipe ?ff) (f_writable ?ff) = Ret s'"
      | (inode) "rbind (begin_op' t) (\<lambda>s. rbind (iput s (f_ip ?ff)) end_op) = Ret s'" | (none) "s' = t"
      unfolding assms(3) by (auto split: if_splits)
    then show ?thesis
    proof cases
      case pipe
      then obtain p where "s' = t\<lparr>pipes := p\<rparr>" by (auto simp: close_pipe_def Let_def split: option.splits prod.splits)
      then show ?thesis using t by simp
    next
      case inode
      then have "extra s' = extra t" by (auto simp: rbind_Ret_iff dest!: op_extra)
      then show ?thesis using t extra_files [of s' t] file_inv_extra [of s' t] by simp
    qed (use t in simp)
  qed
  then show "file_inv (bump (-1) f others) s'" "ofile s' = ofile s" "cwd s' = cwd s" by auto
qed

section \<open>System calls\<close>

lemma argfd_Some: "argfd s fd = Some f \<Longrightarrow> nat fd < NOFILE \<and> 0 \<le> fd \<and> ofile s ! nat fd = Some f"
  by (auto simp: argfd_def split: if_splits)

lemma sys_dup_spec:
  assumes "file_inv others s" "sys_dup s fd = Ret (r, s')"
  shows "file_inv others s'" "r < 0 \<Longrightarrow> r = -1 \<and> ofile s' = ofile s"
proof -
  have "file_inv others s' \<and> (r < 0 \<longrightarrow> r = -1 \<and> ofile s' = ofile s)"
  proof (cases "argfd s fd")
    case None
    then show ?thesis using assms by (simp add: sys_dup_def)
  next
    case (Some f)
    note a = argfd_Some [OF Some]
    have f: "f < NFILE" using drop_fd(2) [OF assms(1)] a by blast
    show ?thesis
    proof (cases rule: fdalloc_cases [OF assms(1) f])
      case 1
      then show ?thesis using assms Some by (simp add: sys_dup_def)
    next
      case (2 i s1)
      then have s': "s' = set_file s1 f ((fil s1 f)\<lparr>f_ref := f_ref (fil s1 f) + 1\<rparr>)" "r = int i"
        using assms(2) Some by (auto simp: sys_dup_def filedup_def split: if_splits)
      then show ?thesis using file_inv_set [OF 2(3) f, of "(fil s1 f)\<lparr>f_ref := f_ref (fil s1 f) + 1\<rparr>" 1] by simp
    qed
  qed
  then show "file_inv others s'" "r < 0 \<Longrightarrow> r = -1 \<and> ofile s' = ofile s" by auto
qed

lemma sys_close_spec:
  assumes "file_inv others s" "sys_close s fd = Ret (r, s')"
  shows "file_inv others s'" "r < 0 \<Longrightarrow> r = -1 \<and> ofile s' = ofile s"
proof -
  have "file_inv others s' \<and> (r < 0 \<longrightarrow> r = -1 \<and> ofile s' = ofile s)"
  proof (cases "argfd s fd")
    case None
    then show ?thesis using assms by (simp add: sys_close_def)
  next
    case (Some f)
    note a = argfd_Some [OF Some]
    have c: "fileclose (s\<lparr>ofile := (ofile s)[nat fd := None]\<rparr>) f = Ret s'" "r = 0" using assms(2) Some by (auto simp: sys_close_def rbind_Ret_iff)
    have d: "file_inv (bump 1 f others) (s\<lparr>ofile := (ofile s)[nat fd := None]\<rparr>)" "f < NFILE" using drop_fd [OF assms(1)] a by blast+
    show ?thesis using fileclose_spec(1) [OF d c(1)] c(2) by simp
  qed
  then show "file_inv others s'" "r < 0 \<Longrightarrow> r = -1 \<and> ofile s' = ofile s" by auto
qed

lemma open_file_spec:
  assumes "file_inv others s" "open_file s ip omode = Ret (r, s')"
  shows "file_inv others s' \<and> (r < 0 \<longrightarrow> r = -1 \<and> ofile s' = ofile s)"
proof (cases rule: filealloc_cases [OF assms(1)])
  case 1
  then have "r = -1" "extra s' = extra s" using assms(2) by (auto simp: open_file_def rbind_Ret_iff dest!: op_extra leave_extra)
  then show ?thesis using assms(1) extra_files [of s' s] file_inv_extra [of s' s] by simp
next
  case (2 f s1)
  show ?thesis
  proof (cases rule: fdalloc_cases [OF 2(3,2)])
    case a: 1
    then obtain s2 where c: "fileclose s1 f = Ret s2" "r = -1" "extra s' = extra s2"
      using assms(2) 2(1) by (auto simp: open_file_def rbind_Ret_iff dest!: op_extra leave_extra)
    show ?thesis using fileclose_spec [OF 2(3,2) c(1)] c extra_files [of s' s2] file_inv_extra [of s' s2] 2(4) by simp
  next
    case a: (2 i s2)
    define x where "x = (if i_type (ino s2 ip) = T_DEVICE then (fil s2 f)\<lparr>f_type := FD_DEVICE, f_major := i_major (ino s2 ip)\<rparr>
         else (fil s2 f)\<lparr>f_type := FD_INODE, f_off := 0\<rparr>)\<lparr>f_ip := ip, f_readable := omode AND O_WRONLY = 0, f_writable := omode AND O_WRONLY \<noteq> 0 \<or> omode AND O_RDWR \<noteq> 0\<rparr>"
    define t where "t = set_file s2 f x"
    have "open_file s ip omode = rbind (if omode AND O_TRUNC \<noteq> 0 \<and> i_type (ino t ip) = T_FILE then itrunc t ip else Ret t) (\<lambda>s. rbind (iunlock s ip) (leave (int i)))"
      using 2(1) a(1) by (simp add: open_file_def Let_def t_def x_def)
    then have "rbind (if omode AND O_TRUNC \<noteq> 0 \<and> i_type (ino t ip) = T_FILE then itrunc t ip else Ret t) (\<lambda>s. rbind (iunlock s ip) (leave (int i))) = Ret (r, s')"
      using assms(2) by simp
    then have "r = int i \<and> extra s' = extra t" by (auto simp: rbind_Ret_iff split: if_splits dest!: op_extra leave_extra)
    then have x: "f_ref x = f_ref (fil s2 f)" "r = int i" "extra s' = extra (set_file s2 f x)" by (simp_all add: x_def t_def)
    have "file_inv (bump (-1) f (bump 1 f others)) (set_file s2 f x)" by (rule file_inv_set_same [OF a(3) 2(2) x(1)])
    then show ?thesis using x file_inv_extra [of s' "set_file s2 f x"] by simp
  qed
qed

lemma sys_open_spec:
  assumes "file_inv others s" "sys_open s path omode = Ret (r, s')"
  shows "file_inv others s' \<and> (r < 0 \<longrightarrow> r = -1 \<and> ofile s' = ofile s)"
proof -
  have "(extra s' = extra s \<and> r = -1) \<or> (\<exists>t ip. extra t = extra s \<and> open_file t ip omode = Ret (r, s'))"
    using assms(2) unfolding sys_open_def
    by (auto simp: rbind_Ret_iff split: option.splits if_splits dest!: op_extra open_inode_extra leave_extra)
  then show ?thesis
  proof
    assume "\<exists>t ip. extra t = extra s \<and> open_file t ip omode = Ret (r, s')"
    then obtain t ip where t: "extra t = extra s" "open_file t ip omode = Ret (r, s')" by blast
    show ?thesis using open_file_spec [OF _ t(2)] file_inv_extra [OF t(1)] extra_files [OF t(1)] assms(1) by simp
  qed (use assms(1) extra_files [of s' s] file_inv_extra [of s' s] in simp)
qed

lemma bump_commute: "bump d f (bump e g others) = bump e g (bump d f others)"
  by (auto simp: bump_def fun_eq_iff)

lemma pipealloc_spec:
  assumes "file_inv others s" "pipealloc s page = Ret (r, s')"
  shows "ofile s' = ofile s \<and> (case r of None \<Rightarrow> file_inv others s'
    | Some (f0, f1) \<Rightarrow> f0 < NFILE \<and> f1 < NFILE \<and> file_inv (bump 1 f1 (bump 1 f0 others)) s')"
proof (cases rule: filealloc_cases [OF assms(1)])
  case 1
  then show ?thesis using assms by (simp add: pipealloc_def)
next
  case (2 f0 s0)
  show ?thesis
  proof (cases rule: filealloc_cases [OF 2(3)])
    case a: 1
    then have c: "fileclose s0 f0 = Ret s'" "r = None" using assms(2) 2(1) by (auto simp: pipealloc_def rbind_Ret_iff)
    show ?thesis using fileclose_spec [OF 2(3,2) c(1)] 2(4) c(2) by simp
  next
    case a: (2 f1 s1)
    show ?thesis
    proof (cases page)
      case None
      then obtain s2 where c: "fileclose s1 f0 = Ret s2" "fileclose s2 f1 = Ret s'" "r = None"
        using assms(2) 2(1) a(1) by (auto simp: pipealloc_def rbind_Ret_iff)
      have "file_inv (bump 1 f1 others) s2" "ofile s2 = ofile s"
        using fileclose_spec [OF a(3) 2(2) c(1)] 2(4) a(4) by (simp_all add: bump_commute [of "-1" f0])
      then show ?thesis using fileclose_spec [OF _ a(2) c(2)] c(3) by fastforce
    next
      case (Some pd)
      obtain pi data where pd: "pd = (pi, data)" by (cases pd)
      define t where "t = s1\<lparr>pipes := (pipes s1)(pi := Some (pipe_init data))\<rparr>"
      define t0 where "t0 = set_file t f0 ((fil t f0)\<lparr>f_type := FD_PIPE, f_readable := True, f_writable := False, f_pipe := pi\<rparr>)"
      have s': "s' = set_file t0 f1 ((fil t0 f1)\<lparr>f_type := FD_PIPE, f_readable := False, f_writable := True, f_pipe := pi\<rparr>)" "r = Some (f0, f1)"
        using assms(2) 2(1) a(1) Some pd by (auto simp: pipealloc_def Let_def t_def t0_def)
      have "file_inv (bump 1 f1 (bump 1 f0 others)) t" using a(3) by (simp add: t_def)
      then have "file_inv (bump 1 f1 (bump 1 f0 others)) t0" unfolding t0_def by (rule file_inv_set_same [OF _ 2(2)]) simp
      then have "file_inv (bump 1 f1 (bump 1 f0 others)) s'" unfolding s'(1) by (rule file_inv_set_same [OF _ a(2)]) simp
      then show ?thesis using s' 2(2,4) a(2,4) by (simp add: t0_def t_def)
    qed
  qed
qed

lemma close_both:
  assumes "file_inv (bump 1 g (bump 1 f others)) s" "f < NFILE" "g < NFILE" "rbind (fileclose s f) (\<lambda>s. rbind (fileclose s g) (\<lambda>s. Ret (-1, s))) = Ret (r, s')"
  shows "file_inv others s'" "ofile s' = ofile s" "r = -1"
proof -
  obtain s1 where c: "fileclose s f = Ret s1" "fileclose s1 g = Ret s'" "r = -1" using assms(4) by (auto simp: rbind_Ret_iff)
  have 1: "file_inv (bump 1 g others) s1" "ofile s1 = ofile s" using fileclose_spec [OF assms(1,2) c(1)] by (simp_all add: bump_commute [of "-1" f])
  show "file_inv others s'" "ofile s' = ofile s" using fileclose_spec [OF 1(1) assms(3) c(2)] 1(2) by simp_all
  show "r = -1" by (fact c(3))
qed

lemma sys_pipe_spec:
  assumes "file_inv others s" "sys_pipe s page copyout = Ret (r, s')"
  shows "file_inv others s' \<and> (r < 0 \<longrightarrow> r = -1 \<and> ofile s' = ofile s)"
proof -
  obtain q s1 where p: "pipealloc s page = Ret (q, s1)" using assms(2) by (auto simp: sys_pipe_def rbind_Ret_iff)
  note ps = pipealloc_spec [OF assms(1) p]
  show ?thesis
  proof (cases q)
    case None
    then show ?thesis using assms(2) p ps by (simp add: sys_pipe_def)
  next
    case (Some fg)
    obtain f g where fg: "fg = (f, g)" by (cases fg)
    have a: "f < NFILE" "g < NFILE" "file_inv (bump 1 g (bump 1 f others)) s1" "ofile s1 = ofile s" using ps Some fg by simp_all
    show ?thesis
    proof (cases rule: fdalloc_cases [OF a(3,1)])
      case 1
      then show ?thesis using assms(2) p Some fg close_both [OF a(3,1,2), of r s'] a(4) by (simp add: sys_pipe_def)
    next
      case (2 i s2)
      have i: "i < length (ofile s1)" using 2(2) a(3) by (simp add: file_inv_def)
      have inv2: "file_inv (bump 1 g others) s2" using 2(3) by (simp add: bump_commute [of "-1" f])
      show ?thesis
      proof (cases rule: fdalloc_cases [OF inv2 a(2)])
        case b: 1
        let ?t = "s2\<lparr>ofile := (ofile s2)[i := None]\<rparr>"
        have e: "rbind (fileclose ?t f) (\<lambda>s. rbind (fileclose s g) (\<lambda>s. Ret (-1, s))) = Ret (r, s')"
          using assms(2) p Some fg 2(1) b(1) by (simp add: sys_pipe_def)
        have "file_inv (bump 1 g (bump 1 f others)) ?t"
          using drop_fd(1) [OF inv2 2(2), of f] 2(5) i by (simp add: bump_commute [of 1 f])
        then show ?thesis using close_both [OF _ a(1,2) e] 2(4,5) a(4) i by (simp add: list_update_same_conv)
      next
        case b: (2 j s3)
        have j: "j \<noteq> i" using b(4) 2(5) i by auto
        have inv3: "file_inv others s3" using b(3) by simp
        show ?thesis
        proof (cases "copyout 0 (int i) \<and> copyout 1 (int j)")
          case True
          then show ?thesis using assms(2) p Some fg 2(1) b(1) inv3 by (simp add: sys_pipe_def)
        next
          case False
          let ?t = "s3\<lparr>ofile := (ofile s3)[i := None]\<rparr>"
          let ?u = "?t\<lparr>ofile := (ofile ?t)[j := None]\<rparr>"
          have e: "rbind (fileclose ?u f) (\<lambda>s. rbind (fileclose s g) (\<lambda>s. Ret (-1, s))) = Ret (r, s')"
            using assms(2) p Some fg 2(1) b(1) False by (auto simp: sys_pipe_def)
          have o3: "ofile s3 = (ofile s1)[i := Some f, j := Some g]" "j < length (ofile s1)" "ofile s1 ! j = None"
            using b(2,4,5) 2(5) a(3) j by (simp_all add: file_inv_def)
          have "file_inv (bump 1 f others) ?t" by (rule drop_fd(1) [OF inv3 2(2)]) (use o3 i j in simp)
          then have "file_inv (bump 1 g (bump 1 f others)) ?u" by (rule drop_fd(1) [OF _ b(2)]) (use o3 i j in simp)
          moreover have "ofile ?u = ofile s1" using o3 2(4) i j by (auto simp: nth_list_update intro!: nth_equalityI)
          ultimately show ?thesis using close_both [OF _ a(1,2) e] a(4) by simp
        qed
      qed
    qed
  qed
qed

section \<open>Property\<close>

text \<open>
  C35: The reference count of every open file stays equal to the number of descriptors that name it,
  of the caller and of the other processes, through \<^verbatim>\<open>dup\<close>, \<^verbatim>\<open>close\<close>, \<^verbatim>\<open>open\<close> and \<^verbatim>\<open>pipe\<close>, on every
  path out of them, and a call that fails with -1 leaves the caller's descriptors as they were.  \<^verbatim>\<open>dup\<close>
  of a valid descriptor with room in the table never panics and returns the lowest free descriptor.
\<close>

theorem file_references_exact:
  assumes "file_inv others s" "\<And>f. 0 \<le> others f"
  shows "(sys_dup s fd = Ret (r, s') \<or> sys_close s fd = Ret (r, s') \<or> sys_open s path omode = Ret (r, s') \<or> sys_pipe s page copyout = Ret (r, s') \<longrightarrow>
      file_inv others s' \<and> (r < 0 \<longrightarrow> r = -1 \<and> ofile s' = ofile s)) \<and>
    (argfd s fd = Some f \<and> None \<in> set (ofile s) \<longrightarrow>
      (\<exists>i s'. sys_dup s fd = Ret (int i, s') \<and> i < NOFILE \<and> ofile s' = (ofile s)[i := Some f] \<and> ofile s ! i = None \<and> (\<forall>j < i. ofile s ! j \<noteq> None)))"
proof -
  have d: "\<exists>i s'. sys_dup s fd = Ret (int i, s') \<and> i < NOFILE \<and> ofile s' = (ofile s)[i := Some f] \<and> ofile s ! i = None \<and> (\<forall>j < i. ofile s ! j \<noteq> None)"
    if a: "argfd s fd = Some f" "None \<in> set (ofile s)"
  proof -
    have f: "f < NFILE" using drop_fd(2) [OF assms(1)] argfd_Some [OF a(1)] by blast
    obtain i s1 where i: "fdalloc s f = (int i, s1)" "i < NOFILE" "file_inv (bump (-1) f others) s1" "ofile s ! i = None" "ofile s1 = (ofile s)[i := Some f]" "ftable s1 = ftable s"
      "\<And>j. j < i \<Longrightarrow> ofile s ! j \<noteq> None"
      by (rule fdalloc_cases [OF assms(1) f]) (use a(2) in blast)+
    have "nat fd < length (ofile s)" "ofile s ! nat fd = Some f" using argfd_Some [OF a(1)] assms(1) by (simp_all add: file_inv_def)
    then have "Some f \<in> set (ofile s)" by (metis nth_mem)
    then have "0 < count_list (ofile s) (Some f)" by (simp add: count_list_0_iff zero_less_iff_neq_zero)
    then have "1 \<le> f_ref (fil s f)" using assms f unfolding file_inv_def by (smt (verit, ccfv_threshold) of_nat_0_less_iff)
    then have "sys_dup s fd = Ret (int i, set_file s1 f ((fil s1 f)\<lparr>f_ref := f_ref (fil s1 f) + 1\<rparr>))"
      using a(1) i(1,6) by (simp add: sys_dup_def filedup_def)
    then show ?thesis using i(2,4,5,7) by auto
  qed
  have "file_inv others s' \<and> (r < 0 \<longrightarrow> r = -1 \<and> ofile s' = ofile s)"
    if "sys_dup s fd = Ret (r, s') \<or> sys_close s fd = Ret (r, s') \<or> sys_open s path omode = Ret (r, s') \<or> sys_pipe s page copyout = Ret (r, s')"
    using that sys_dup_spec [OF assms(1), of fd r s'] sys_close_spec [OF assms(1), of fd r s'] sys_open_spec [OF assms(1), of path omode r s']
      sys_pipe_spec [OF assms(1), of page copyout r s'] by argo
  then show ?thesis using d by simp
qed

definition demo_files :: "unit filesys_scheme" where
  "demo_files = fsys.extend (boot_fs bitmap_disk)
     (filesys.fields ((replicate NFILE \<lparr>f_type = FD_NONE, f_ref = 0, f_readable = False, f_writable = False, f_pipe = 0, f_ip = 0, f_off = 0, f_major = 0\<rparr>)
        [3 := \<lparr>f_type = FD_DEVICE, f_ref = 1, f_readable = True, f_writable = True, f_pipe = 0, f_ip = 0, f_off = 0, f_major = 1\<rparr>])
      (\<lambda>_. None) (Some 3 # replicate 15 None) 0)"

lemma demo_files_inv: "file_inv (\<lambda>_. 0) demo_files"
proof -
  have "ftable demo_files = (replicate NFILE \<lparr>f_type = FD_NONE, f_ref = 0, f_readable = False, f_writable = False, f_pipe = 0, f_ip = 0, f_off = 0, f_major = 0\<rparr>)
        [3 := \<lparr>f_type = FD_DEVICE, f_ref = 1, f_readable = True, f_writable = True, f_pipe = 0, f_ip = 0, f_off = 0, f_major = 1\<rparr>]"
    "ofile demo_files = Some 3 # replicate 15 None"
    by (simp_all add: demo_files_def fsys.extend_def filesys.fields_def)
  moreover have "count_list (replicate 15 None) (Some f) = 0" for f :: nat by (simp add: count_list_0_iff)
  ultimately show ?thesis by (auto simp: file_inv_def NFILE_def NOFILE_def nth_list_update)
qed

theorem file_references_exact_witness: "\<exists>s'. sys_dup demo_files 0 = Ret (1, s') \<and> ofile s' = Some 3 # Some 3 # replicate 14 None"
proof -
  have o: "ofile demo_files = Some 3 # None # replicate 14 None"
    by (simp add: demo_files_def fsys.extend_def filesys.fields_def eval_nat_numeral)
  then have a: "argfd demo_files 0 = Some 3" by (simp add: argfd_def NOFILE_def)
  obtain i s' where i: "sys_dup demo_files 0 = Ret (int i, s')" "i < NOFILE" "ofile s' = (ofile demo_files)[i := Some 3]" "ofile demo_files ! i = None" "\<forall>j < i. ofile demo_files ! j \<noteq> None"
    using file_references_exact [OF demo_files_inv, where fd = 0 and f = 3, THEN conjunct2] a o by auto
  have "i = 1"
  proof (rule ccontr)
    assume "i \<noteq> 1"
    then have "i = 0 \<or> 1 < i" by auto
    then show False using i(4,5) o by (auto dest: spec [of _ 1])
  qed
  then show ?thesis using i(1,3) o by auto
qed

end
