(* ===== verification/User_Copy.thy ===== *)
theory User_Copy
  imports Demand_Paging
begin

text \<open>
  The routines of \<^verbatim>\<open>vm.c\<close> that move bytes between the kernel and a user address space: \<^verbatim>\<open>copyout\<close>,
  \<^verbatim>\<open>copyin\<close> and \<^verbatim>\<open>copyinstr\<close>.  The kernel buffer is a list of bytes.  A page that is not mapped is loaded
  by the page-fault handler, which works on the current process \<open>p\<close> whatever the page table is.
\<close>

text \<open>The frame of a user page, loading the page when it is not mapped; 0 stands for the returns of \<^verbatim>\<open>-1\<close>.\<close>

definition user_frame ::
  "file_reader \<Rightarrow> 'a machine_scheme \<Rightarrow> proc \<Rightarrow> uint64 \<Rightarrow> uint64 \<Rightarrow> bool \<Rightarrow> (uint64 \<times> 'a machine_scheme \<times> proc) res" where
  "user_frame rd s p pagetable va0 is_write =
     rbind (walkaddr s pagetable va0) (\<lambda>pa0.
       if pa0 = 0 then
         rbind (demand_page_load_new rd s p va0 is_write False) (\<lambda>(r, s, p).
           if r \<noteq> 0 then Ret (0, s, p)
           else rbind (walkaddr s pagetable va0) (\<lambda>pa0. Ret (pa0, s, p)))
       else Ret (pa0, s, p))"

text \<open>The bytes of the page of \<open>va\<close> from \<open>va\<close> on, at most \<open>len\<close>.\<close>

definition chunk :: "uint64 \<Rightarrow> nat \<Rightarrow> nat" where
  "chunk va len = min (unat (PGSIZE - (va - PGROUNDDOWN va))) len"

lemma page_offset_less: "unat (va - PGROUNDDOWN va) < 4096"
  using in_page_iff [of "PGROUNDDOWN va" va] by (simp add: PGROUNDDOWN_align word_less_nat_alt)

lemma chunk_eq: "chunk va len = min (4096 - unat (va - PGROUNDDOWN va)) len"
proof -
  have "va - PGROUNDDOWN va \<le> PGSIZE" using page_offset_less [of va] by (simp add: word_le_nat_alt PGSIZE_def)
  then show ?thesis by (simp add: chunk_def unat_sub PGSIZE_def)
qed

lemma chunk_pos: "0 < len \<Longrightarrow> 0 < chunk va len"
  using page_offset_less [of va] by (simp add: chunk_eq)

lemma chunk_le: "chunk va len \<le> len"
  by (simp add: chunk_def)

function copyout ::
  "file_reader \<Rightarrow> 'a machine_scheme \<Rightarrow> proc \<Rightarrow> uint64 \<Rightarrow> uint64 \<Rightarrow> uint8 list \<Rightarrow> (int \<times> 'a machine_scheme \<times> proc) res" where
  "copyout rd s p pagetable dstva src =
     (if src = [] then Ret (0, s, p)
      else let va0 = PGROUNDDOWN dstva in
        if va0 \<ge> MAXVA then Ret (-1, s, p)
        else rbind (user_frame rd s p pagetable va0 True) (\<lambda>(pa0, s, p).
          if pa0 = 0 then Ret (-1, s, p)
          else rbind (walk s pagetable va0 False) (\<lambda>(pte, s).
            if load64 (mem s) pte AND PTE_W = 0 then Ret (-1, s, p)
            else let n = chunk dstva (length src) in
              copyout rd (s\<lparr>mem := store_bytes (mem s) (pa0 + (dstva - va0)) (take n src)\<rparr>) p pagetable (va0 + PGSIZE) (drop n src))))"
  by pat_completeness auto
termination
  by (relation "measure (\<lambda>(rd, s, p, pagetable, dstva, src). length src)") (auto simp: chunk_pos)

declare copyout.simps [simp del]

text \<open>The result holds the bytes that were stored in the kernel buffer.\<close>

function copyin ::
  "file_reader \<Rightarrow> 'a machine_scheme \<Rightarrow> proc \<Rightarrow> uint64 \<Rightarrow> uint64 \<Rightarrow> nat \<Rightarrow> (int \<times> uint8 list \<times> 'a machine_scheme \<times> proc) res" where
  "copyin rd s p pagetable srcva len =
     (if len = 0 then Ret (0, [], s, p)
      else let va0 = PGROUNDDOWN srcva in
        if va0 \<ge> MAXVA then Ret (-1, [], s, p)
        else rbind (user_frame rd s p pagetable va0 False) (\<lambda>(pa0, s, p).
          if pa0 = 0 then Ret (-1, [], s, p)
          else let n = chunk srcva len; bs = load_bytes (mem s) (pa0 + (srcva - va0)) n in
            rbind (copyin rd s p pagetable (va0 + PGSIZE) (len - n)) (\<lambda>(r, rest, s, p). Ret (r, bs @ rest, s, p))))"
  by pat_completeness auto
termination
  by (relation "measure (\<lambda>(rd, s, p, pagetable, srcva, len). len)") (auto simp: chunk_pos)

declare copyin.simps [simp del]

text \<open>
  The inner loop of \<^verbatim>\<open>copyinstr\<close> copies the bytes of one page up to and with the first zero byte; the
  flag tells whether there was one.
\<close>

fun copy_until_null :: "uint8 list \<Rightarrow> bool \<times> uint8 list" where
  "copy_until_null [] = (False, [])"
| "copy_until_null (b # bs) = (if b = 0 then (True, [0]) else case copy_until_null bs of (z, cs) \<Rightarrow> (z, b # cs))"

function copyinstr ::
  "file_reader \<Rightarrow> 'a machine_scheme \<Rightarrow> proc \<Rightarrow> uint64 \<Rightarrow> uint64 \<Rightarrow> nat \<Rightarrow> (int \<times> uint8 list \<times> 'a machine_scheme \<times> proc) res" where
  "copyinstr rd s p pagetable srcva max_len =
     (if max_len = 0 then Ret (-1, [], s, p)
      else let va0 = PGROUNDDOWN srcva in
        if va0 \<ge> MAXVA then Ret (-1, [], s, p)
        else rbind (user_frame rd s p pagetable va0 False) (\<lambda>(pa0, s, p).
          if pa0 = 0 then Ret (-1, [], s, p)
          else let n = chunk srcva max_len in
            case copy_until_null (load_bytes (mem s) (pa0 + (srcva - va0)) n) of (got_null, bs) \<Rightarrow>
              if got_null then Ret (0, bs, s, p)
              else rbind (copyinstr rd s p pagetable (va0 + PGSIZE) (max_len - n)) (\<lambda>(r, rest, s, p). Ret (r, bs @ rest, s, p))))"
  by pat_completeness auto
termination
  by (relation "measure (\<lambda>(rd, s, p, pagetable, srcva, len). len)") (auto simp: chunk_pos)

declare copyinstr.simps [simp del]

end
