(* ===== verification/User_Copy_Props.thy ===== *)
theory User_Copy_Props
  imports User_Copy Pager_Props Transition_System
begin

text \<open>
  The user bytes a process sees and what \<^verbatim>\<open>copyout\<close>, \<^verbatim>\<open>copyin\<close> and \<^verbatim>\<open>copyinstr\<close> do to them.
\<close>

section \<open>User bytes\<close>

definition uaddr :: "memory \<Rightarrow> uint64 \<Rightarrow> uint64 \<Rightarrow> uint64" where
  "uaddr m root va = PTE2PA (pte_of m root va) + (va - PGROUNDDOWN va)"

definition ubyte :: "'a kmem_scheme \<Rightarrow> uint64 \<Rightarrow> uint64 \<Rightarrow> uint8 option" where
  "ubyte s root va = (if user_pte (pte_of (mem s) root va) then Some (mem s (uaddr (mem s) root va)) else None)"

definition span :: "uint64 \<Rightarrow> nat \<Rightarrow> uint64 \<Rightarrow> bool" where
  "span va n x \<longleftrightarrow> unat va \<le> unat x \<and> unat x < unat va + n"

lemma unat_page_split: "unat va = unat (PGROUNDDOWN va) + unat (va - PGROUNDDOWN va)"
proof -
  have "PGROUNDDOWN va \<le> va" by (simp add: PGROUNDDOWN_def word_and_le2)
  then show ?thesis by (simp add: unat_sub word_le_nat_alt)
qed

lemma aligned_PGROUNDDOWN [simp]: "aligned 12 (PGROUNDDOWN va)"
  by (simp add: PGROUNDDOWN_align)

lemma page_of_uaddr:
  assumes "aligned 12 (PTE2PA (pte_of m root va))"
  shows "PGROUNDDOWN (uaddr m root va) = PTE2PA (pte_of m root va)"
  using page_of_offset [OF assms page_offset_less [of va]] by (simp add: uaddr_def)

lemma same_page_offset:
  assumes "PGROUNDDOWN x = PGROUNDDOWN va" "unat (x - PGROUNDDOWN x) = unat (va - PGROUNDDOWN va) + k"
  shows "unat x = unat va + k"
  using unat_page_split [of x] unat_page_split [of va] assms by simp

lemma store_user_byte:
  assumes "aligned 12 pa" "unat off + length bs \<le> 4096"
  shows "store_bytes m (pa + off) bs y =
    (if PGROUNDDOWN y = pa \<and> unat off \<le> unat (y - pa) \<and> unat (y - pa) < unat off + length bs
     then bs ! (unat (y - pa) - unat off) else m y)"
proof -
  let ?k = "unat (y - (pa + off))"
  have c: "store_bytes m (pa + off) bs y = (if ?k < length bs then bs ! ?k else m y)"
    using assms(2) by (intro store_bytes_closed) simp
  have d: "y - (pa + off) = (y - pa) - off" by simp
  have "?k < length bs \<longleftrightarrow> PGROUNDDOWN y = pa \<and> unat off \<le> unat (y - pa) \<and> unat (y - pa) < unat off + length bs" (is "?L = ?R")
  proof
    assume L: ?L
    have "unat (off + z) = unat off + unat z" if "unat z < length bs" for z
      using that assms(2) by (simp add: unat_word_ariths)
    from this [OF L] have u: "unat (y - pa) = unat off + ?k" by simp
    then have "y - pa < 4096" using L assms(2) by (simp add: word_less_nat_alt)
    then show ?R using in_page_iff [OF assms(1)] u L by simp
  next
    assume ?R
    then show ?L unfolding d by (auto simp: unat_sub word_le_nat_alt)
  qed
  moreover have "?k = unat (y - pa) - unat off" if "unat off \<le> unat (y - pa)"
    using that unfolding d by (simp add: unat_sub word_le_nat_alt)
  ultimately show ?thesis using c by auto
qed

lemma user_write:
  assumes as: "as_inv s fl root" and va: "va < MAXVA" and up: "user_pte (pte_of (mem s) root va)"
    and n: "unat (va - PGROUNDDOWN va) + length bs \<le> 4096"
    and m': "m' = store_bytes (mem s) (uaddr (mem s) root va) bs"
  shows "as_inv (s\<lparr>mem := m'\<rparr>) fl root" "pte_of m' root x = pte_of (mem s) root x"
    "x < MAXVA \<Longrightarrow> ubyte (s\<lparr>mem := m'\<rparr>) root x =
       (if span va (length bs) x then Some (bs ! (unat x - unat va)) else ubyte s root x)"
proof -
  let ?pa = "PTE2PA (pte_of (mem s) root va)"
  note D = as_invD [OF as]
  have al: "aligned 12 (PTE2PA (pte_of (mem s) root x))" if "x < MAXVA" "user_pte (pte_of (mem s) root x)" for x
    using D(3) [OF that] by (simp add: phys_page_def)
  have st: "m' y = (if PGROUNDDOWN y = ?pa \<and> unat (va - PGROUNDDOWN va) \<le> unat (y - ?pa) \<and>
      unat (y - ?pa) < unat (va - PGROUNDDOWN va) + length bs
      then bs ! (unat (y - ?pa) - unat (va - PGROUNDDOWN va)) else mem s y)" for y
    unfolding m' uaddr_def by (rule store_user_byte [OF al [OF va up] n])
  have fr: "same_page (mem s) m' q" if "q \<in> set fl \<or> is_table (mem s) root q" for q
    using that D(4,5) [OF va up] st unfolding same_page_def by auto
  note F = as_inv_frame [OF as fr]
  show pte: "pte_of m' root x = pte_of (mem s) root x" for x by (rule F(2))
  show "as_inv (s\<lparr>mem := m'\<rparr>) fl root" by (rule F(1))
  assume x: "x < MAXVA"
  show "ubyte (s\<lparr>mem := m'\<rparr>) root x = (if span va (length bs) x then Some (bs ! (unat x - unat va)) else ubyte s root x)"
  proof (cases "PGROUNDDOWN x = PGROUNDDOWN va")
    case True
    then have e: "pte_of (mem s) root x = pte_of (mem s) root va" by (metis pte_of_PGROUNDDOWN)
    let ?y = "uaddr (mem s) root x"
    have y: "PGROUNDDOWN ?y = ?pa" "?y - ?pa = x - PGROUNDDOWN x"
      using page_of_uaddr [of "mem s" root x] al [OF x] e up by (simp_all add: uaddr_def)
    have "unat va = unat (PGROUNDDOWN va) + unat (va - PGROUNDDOWN va)" "unat x = unat (PGROUNDDOWN va) + unat (x - PGROUNDDOWN va)"
      using unat_page_split [of va] unat_page_split [of x] True by simp_all
    then show ?thesis
      using st [of ?y] y True e up by (auto simp: ubyte_def span_def pte uaddr_def)
  next
    case False
    have "\<not> span va (length bs) x"
    proof
      assume s: "span va (length bs) x"
      have "PGROUNDDOWN x = PGROUNDDOWN va"
        using page_range_iff [of "PGROUNDDOWN va" x] s n unat_page_split [of va] va
        by (simp add: span_def less_MAXVA)
      then show False using False by simp
    qed
    moreover have "m' (uaddr (mem s) root x) = mem s (uaddr (mem s) root x)" if u: "user_pte (pte_of (mem s) root x)"
      using st page_of_uaddr [OF al [OF x u]] D(6) [OF x va u up] False by auto
    ultimately show ?thesis by (simp add: ubyte_def pte uaddr_def)
  qed
qed

lemma page_inv_as: "page_inv s fl p \<Longrightarrow> as_inv s fl (p_pagetable p)"
  by (simp add: page_inv_def)

text \<open>The invariant of a process does not depend on the contents of its pages.\<close>

lemma page_inv_same:
  assumes "page_inv s fl p" "as_inv s' fl (p_pagetable p)" "\<And>x. pte_of (mem s') (p_pagetable p) x = pte_of (mem s) (p_pagetable p) x"
  shows "page_inv s' fl p"
  using assms lists_inv_cong [of "pte_of (mem s') (p_pagetable p)" "pte_of (mem s) (p_pagetable p)" p] by (simp add: page_inv_def)

lemma ubyte_as_byte:
  assumes "user_pte (pte_of (mem s) root va)" "i < 4096 - unat (va - PGROUNDDOWN va)"
  shows "ubyte s root (va + of_nat i) = Some (mem s (uaddr (mem s) root va + of_nat i))"
proof -
  have "PGROUNDDOWN (va + of_nat i) = PGROUNDDOWN va"
    using page_of_offset [of "PGROUNDDOWN va" "unat (va - PGROUNDDOWN va) + i"] assms(2)
    by (simp add: algebra_simps)
  then have "pte_of (mem s) root (va + of_nat i) = pte_of (mem s) root va" "PGROUNDDOWN (va + of_nat i) = PGROUNDDOWN va"
    by (metis pte_of_PGROUNDDOWN)+
  then show ?thesis using assms(1) by (simp add: ubyte_def uaddr_def algebra_simps)
qed

section \<open>Loading a page\<close>

lemma user_frame_mapped:
  assumes as: "as_inv s fl root" and va: "va < MAXVA" and up: "user_pte (pte_of (mem s) root va)"
  shows "user_frame rd s p root (PGROUNDDOWN va) w = Ret (PTE2PA (pte_of (mem s) root va), s, p)"
    "PTE2PA (pte_of (mem s) root va) \<noteq> 0"
proof -
  show nz: "PTE2PA (pte_of (mem s) root va) \<noteq> 0" using as_invD(3) [OF as va up] by (simp add: phys_page_def)
  have "PGROUNDDOWN va < MAXVA" using PGROUNDDOWN_page_addr [OF va] by (simp add: page_addr_def)
  then show "user_frame rd s p root (PGROUNDDOWN va) w = Ret (PTE2PA (pte_of (mem s) root va), s, p)"
    using up nz by (simp add: user_frame_def walkaddr_spec [OF as_invD(2) [OF as]])
qed

lemma user_frame_cases:
  assumes rd: "reader rd" and inv: "page_inv s fl p"
  obtains pa s' p' fl' where "user_frame rd s p (p_pagetable p) va w = Ret (pa, s', p')" "page_inv s' fl' p'"
    "pager_frame p p'" "pa \<noteq> 0 \<Longrightarrow> user_pte (pte_of (mem s') (p_pagetable p) va) \<and> pa = PTE2PA (pte_of (mem s') (p_pagetable p) va)"
proof -
  note ok = that
  let ?root = "p_pagetable p"
  have wa: "walkaddr s' ?root va = Ret (if va < MAXVA \<and> user_pte (pte_of (mem s') ?root va) then PTE2PA (pte_of (mem s') ?root va) else 0)"
    if "page_inv s' fl' p'" "p_pagetable p' = ?root" for s' :: "'a machine_scheme" and fl' p'
    by (rule walkaddr_spec [OF as_invD(2) [where fl = fl']]) (use that in \<open>simp add: page_inv_def\<close>)
  note w = wa [OF inv refl]
  show ?thesis
  proof (cases "walkaddr s ?root va = Ret 0")
    case False
    then have "user_frame rd s p ?root va w = Ret (PTE2PA (pte_of (mem s) ?root va), s, p)"
      "user_pte (pte_of (mem s) ?root va)" using w by (auto simp: user_frame_def split: if_splits)
    then show ?thesis using ok [OF _ inv pager_frame_refl] by blast
  next
    case True
    obtain r s1 p1 fl1 where s1: "demand_page_load_new rd s p va w False = Ret (r, s1, p1)" "page_inv s1 fl1 p1" "pager_frame p p1"
      using handler_preserves [OF rd inv, of va w False] by blast
    note pt = pager_frame_fields(1) [OF s1(3)]
    have "user_frame rd s p ?root va w = Ret (if r \<noteq> 0 then 0 else if va < MAXVA \<and> user_pte (pte_of (mem s1) ?root va) then PTE2PA (pte_of (mem s1) ?root va) else 0, s1, p1)"
      using True s1(1) wa [OF s1(2) pt] by (simp add: user_frame_def)
    then show ?thesis using ok [OF _ s1(2,3)] by (auto split: if_splits)
  qed
qed

section \<open>Safety\<close>

lemma copyout_keeps:
  assumes "reader rd" "page_inv s fl p"
  shows "\<exists>r s' p' fl'. copyout rd s p (p_pagetable p) dstva src = Ret (r, s', p') \<and> r \<in> {0, -1} \<and> page_inv s' fl' p' \<and> pager_frame p p'"
  using assms(2)
proof (induction "length src" arbitrary: s p fl dstva src rule: less_induct)
  case less
  let ?root = "p_pagetable p" and ?va = "PGROUNDDOWN dstva" and ?n = "chunk dstva (length src)"
  note eq = copyout.simps [of rd s p ?root dstva src]
  show ?case
  proof (cases "src = [] \<or> ?va \<ge> MAXVA")
    case True
    then show ?thesis using less(2) pager_frame_refl by (subst eq) (auto simp: Let_def)
  next
    case False
    then have va: "?va < MAXVA" "dstva < MAXVA" using same_page_less_MAXVA [of ?va dstva] by (simp_all add: not_le)
    obtain pa s1 p1 fl1 where s1: "user_frame rd s p ?root ?va True = Ret (pa, s1, p1)" "page_inv s1 fl1 p1" "pager_frame p p1"
      "pa \<noteq> 0 \<Longrightarrow> user_pte (pte_of (mem s1) ?root ?va) \<and> pa = PTE2PA (pte_of (mem s1) ?root ?va)"
      by (rule user_frame_cases [OF assms(1) less(2), of ?va True]) blast
    note pt = pager_frame_fields(1) [OF s1(3)]
    show ?thesis
    proof (cases "pa = 0")
      case True
      then show ?thesis using False s1 by (subst eq) (auto simp: Let_def)
    next
      case nz: False
      have up: "user_pte (pte_of (mem s1) (p_pagetable p1) dstva)" "pa = PTE2PA (pte_of (mem s1) (p_pagetable p1) dstva)"
        using s1(4) [OF nz] pt by simp_all
      have as: "as_inv s1 fl1 ?root" using s1(2) pt by (simp add: page_inv_def)
      obtain u where u: "walk s1 ?root ?va False = Ret (u, s1)"
        by (rule walk_pte_valid [OF as_invD(2) [OF as] va(1)]) blast
      show ?thesis
      proof (cases "load64 (mem s1) u AND PTE_W = 0")
        case True
        then show ?thesis using False s1 nz u by (subst eq) (auto simp: Let_def)
      next
        case w: False
        let ?s2 = "s1\<lparr>mem := store_bytes (mem s1) (uaddr (mem s1) (p_pagetable p1) dstva) (take ?n src)\<rparr>"
        have "unat (dstva - ?va) + length (take ?n src) \<le> 4096" using page_offset_less [of dstva] by (simp add: chunk_eq)
        note W = user_write [OF page_inv_as [OF s1(2)] va(2) up(1) this refl]
        have s2: "page_inv ?s2 fl1 p1" by (rule page_inv_same [OF s1(2) W(1)]) (simp add: W(2))
        have "length (drop ?n src) < length src" using False chunk_pos [of "length src" dstva] by simp
        from less(1) [OF this s2, of "?va + PGSIZE"] pt obtain r s' p' fl' where
          "copyout rd ?s2 p1 ?root (?va + PGSIZE) (drop ?n src) = Ret (r, s', p')" "r \<in> {0, -1}" "page_inv s' fl' p'" "pager_frame p1 p'"
          by auto
        moreover have "pager_frame p p'" using s1(3) calculation(4) by (rule pager_frame_trans)
        moreover have "copyout rd s p ?root dstva src = copyout rd ?s2 p1 ?root (?va + PGSIZE) (drop ?n src)"
          using False s1(1) nz u w up(2) by (subst eq) (simp add: Let_def uaddr_def)
        ultimately show ?thesis by auto
      qed
    qed
  qed
qed

lemma copyin_keeps:
  assumes "reader rd" "page_inv s fl p"
  shows "\<exists>r bs s' p' fl'. copyin rd s p (p_pagetable p) srcva len = Ret (r, bs, s', p') \<and> r \<in> {0, -1} \<and>
    length bs \<le> len \<and> (r = 0 \<longrightarrow> length bs = len) \<and> page_inv s' fl' p' \<and> pager_frame p p'"
  using assms(2)
proof (induction len arbitrary: s p fl srcva rule: less_induct)
  case (less len)
  let ?root = "p_pagetable p" and ?va = "PGROUNDDOWN srcva" and ?n = "chunk srcva len"
  note eq = copyin.simps [of rd s p ?root srcva len]
  obtain pa s1 p1 fl1 where s1: "user_frame rd s p ?root ?va False = Ret (pa, s1, p1)" "page_inv s1 fl1 p1" "pager_frame p p1"
    by (rule user_frame_cases [OF assms(1) less(2), of ?va False]) blast
  note pt = pager_frame_fields(1) [OF s1(3)]
  consider "len = 0 \<or> ?va \<ge> MAXVA" | "0 < len" "\<not> MAXVA \<le> ?va" "pa = 0" | "0 < len" "\<not> MAXVA \<le> ?va" "pa \<noteq> 0" by force
  then show ?case
  proof cases
    case 1
    then show ?thesis using less(2) pager_frame_refl by (subst eq) (auto simp: Let_def)
  next
    case 2
    then show ?thesis using s1 by (subst eq) (auto simp: Let_def)
  next
    case 3
    have "len - ?n < len" using 3(1) chunk_pos [of len srcva] by simp
    from less(1) [OF this s1(2), of "?va + PGSIZE"] pt obtain r bs s' p' fl' where
      IH: "copyin rd s1 p1 ?root (?va + PGSIZE) (len - ?n) = Ret (r, bs, s', p')" "r \<in> {0, -1}" "length bs \<le> len - ?n"
      "r = 0 \<longrightarrow> length bs = len - ?n" "page_inv s' fl' p'" "pager_frame p1 p'" by auto
    have "copyin rd s p ?root srcva len = Ret (r, load_bytes (mem s1) (pa + (srcva - ?va)) ?n @ bs, s', p')"
      using 3 s1(1) IH(1) by (subst eq) (simp add: Let_def)
    moreover have "pager_frame p p'" using s1(3) IH(6) by (rule pager_frame_trans)
    ultimately show ?thesis using IH(2-5) chunk_le [of srcva len] by fastforce
  qed
qed

lemma copy_until_null_cases:
  obtains (null) cs where "copy_until_null bs = (True, cs @ [0])" "0 \<notin> set cs" "length cs < length bs"
  | (none) "copy_until_null bs = (False, bs)" "0 \<notin> set bs"
proof (induction bs arbitrary: thesis)
  case (Cons b bs)
  show ?case
  proof (cases "b = 0")
    case True
    then show ?thesis using Cons(2) [of "[]"] by simp
  next
    case False
    show ?thesis
    proof (rule Cons(1))
      fix cs assume "copy_until_null bs = (True, cs @ [0])" "0 \<notin> set cs" "length cs < length bs"
      then show ?thesis using False Cons(2) [of "b # cs"] by simp
    next
      assume "copy_until_null bs = (False, bs)" "0 \<notin> set bs"
      then show ?thesis using False Cons(3) by simp
    qed
  qed
qed simp

lemma copyinstr_keeps:
  assumes "reader rd" "page_inv s fl p"
  shows "\<exists>r bs s' p' fl'. copyinstr rd s p (p_pagetable p) srcva len = Ret (r, bs, s', p') \<and> length bs \<le> len \<and>
    (r = 0 \<and> (\<exists>cs. bs = cs @ [0] \<and> 0 \<notin> set cs) \<or> r = -1 \<and> 0 \<notin> set bs) \<and> page_inv s' fl' p' \<and> pager_frame p p'"
  using assms(2)
proof (induction len arbitrary: s p fl srcva rule: less_induct)
  case (less len)
  let ?root = "p_pagetable p" and ?va = "PGROUNDDOWN srcva" and ?n = "chunk srcva len"
  note eq = copyinstr.simps [of rd s p ?root srcva len]
  obtain pa s1 p1 fl1 where s1: "user_frame rd s p ?root ?va False = Ret (pa, s1, p1)" "page_inv s1 fl1 p1" "pager_frame p p1"
    by (rule user_frame_cases [OF assms(1) less(2), of ?va False]) blast
  note pt = pager_frame_fields(1) [OF s1(3)]
  let ?bs = "load_bytes (mem s1) (pa + (srcva - ?va)) ?n"
  consider "len = 0 \<or> ?va \<ge> MAXVA" | "0 < len" "\<not> MAXVA \<le> ?va" "pa = 0" | "0 < len" "\<not> MAXVA \<le> ?va" "pa \<noteq> 0" by force
  then show ?case
  proof cases
    case 1
    then show ?thesis using less(2) pager_frame_refl by (subst eq) (auto simp: Let_def)
  next
    case 2
    then show ?thesis using s1 by (subst eq) (auto simp: Let_def)
  next
    case 3
    show ?thesis
    proof (cases rule: copy_until_null_cases [of ?bs])
      case (null cs)
      then have "copyinstr rd s p ?root srcva len = Ret (0, cs @ [0], s1, p1)"
        using 3 s1(1) by (subst eq) (simp add: Let_def)
      then show ?thesis using null s1 chunk_le [of srcva len] by auto
    next
      case none
      have "len - ?n < len" using 3(1) chunk_pos [of len srcva] by simp
      from less(1) [OF this s1(2), of "?va + PGSIZE"] pt obtain r bs s' p' fl' where
        IH: "copyinstr rd s1 p1 ?root (?va + PGSIZE) (len - ?n) = Ret (r, bs, s', p')" "length bs \<le> len - ?n"
        "r = 0 \<and> (\<exists>cs. bs = cs @ [0] \<and> 0 \<notin> set cs) \<or> r = -1 \<and> 0 \<notin> set bs" "page_inv s' fl' p'" "pager_frame p1 p'" by auto
      have "copyinstr rd s p ?root srcva len = Ret (r, ?bs @ bs, s', p')"
        using 3 s1(1) IH(1) none by (subst eq) (simp add: Let_def)
      moreover have "pager_frame p p'" using s1(3) IH(5) by (rule pager_frame_trans)
      moreover have "length (?bs @ bs) \<le> len" using IH(2) chunk_le [of srcva len] by simp
      moreover have "r = 0 \<and> (\<exists>cs. ?bs @ bs = cs @ [0] \<and> 0 \<notin> set cs) \<or> r = -1 \<and> 0 \<notin> set (?bs @ bs)"
        using IH(3) none(2) by (metis (no_types, lifting) UnE append_assoc set_append)
      ultimately show ?thesis using IH(4) by blast
    qed
  qed
qed

section \<open>Mapped ranges\<close>

definition mapped_range :: "'a kmem_scheme \<Rightarrow> uint64 \<Rightarrow> uint64 \<Rightarrow> nat \<Rightarrow> bool" where
  "mapped_range s root va n \<longleftrightarrow> unat va + n \<le> 2 ^ 38 \<and> (\<forall>i < n. user_pte (pte_of (mem s) root (va + of_nat i)))"

definition writable_range :: "'a kmem_scheme \<Rightarrow> uint64 \<Rightarrow> uint64 \<Rightarrow> nat \<Rightarrow> bool" where
  "writable_range s root va n \<longleftrightarrow> mapped_range s root va n \<and> (\<forall>i < n. pte_of (mem s) root (va + of_nat i) AND PTE_W \<noteq> 0)"

lemma next_page_chunk:
  assumes "unat va + n \<le> 2 ^ 38" "chunk va n < n"
  shows "PGROUNDDOWN va + PGSIZE = va + of_nat (chunk va n)" "unat (PGROUNDDOWN va + PGSIZE) = unat va + chunk va n"
proof -
  have c: "chunk va n = 4096 - unat (va - PGROUNDDOWN va)" using assms(2) by (simp add: chunk_eq)
  have u: "unat (PGROUNDDOWN va + PGSIZE) = unat (PGROUNDDOWN va) + 4096"
    using unat_next_page [of "PGROUNDDOWN va"] assms unat_page_split [of va] by linarith
  show "unat (PGROUNDDOWN va + PGSIZE) = unat va + chunk va n"
    using u c unat_page_split [of va] page_offset_less [of va] by linarith
  then have "PGROUNDDOWN va + PGSIZE = of_nat (unat va + chunk va n)" by (metis of_nat_unat64)
  then show "PGROUNDDOWN va + PGSIZE = va + of_nat (chunk va n)" by (simp add: of_nat_unat64)
qed


lemma range_tail:
  assumes "mapped_range s root va n" "chunk va n < n"
  shows "mapped_range s root (PGROUNDDOWN va + PGSIZE) (n - chunk va n)"
    "writable_range s root va n \<Longrightarrow> writable_range s root (PGROUNDDOWN va + PGSIZE) (n - chunk va n)"
proof -
  let ?c = "chunk va n"
  note nx = next_page_chunk [OF _ assms(2)]
  have r: "unat va + n \<le> 2 ^ 38" using assms(1) by (simp add: mapped_range_def)
  have e: "PGROUNDDOWN va + PGSIZE + of_nat i = va + of_nat (?c + i)" for i using nx(1) [OF r] by (simp add: add.assoc)
  show m: "mapped_range s root (PGROUNDDOWN va + PGSIZE) (n - ?c)"
    unfolding mapped_range_def
  proof (intro conjI allI impI)
    show "unat (PGROUNDDOWN va + PGSIZE) + (n - ?c) \<le> 2 ^ 38" using nx(2) [OF r] r assms(2) by simp
    show "user_pte (pte_of (mem s) root (PGROUNDDOWN va + PGSIZE + of_nat i))" if "i < n - ?c" for i
      using assms(1) less_diff_conv [THEN iffD1, OF that] unfolding mapped_range_def e by (metis add.commute)
  qed
  show "writable_range s root (PGROUNDDOWN va + PGSIZE) (n - ?c)" if "writable_range s root va n"
    using m that unfolding writable_range_def e by (metis add.commute less_diff_conv)
qed

lemma range_head:
  assumes "mapped_range s root va n" "0 < n"
  shows "va < MAXVA" "user_pte (pte_of (mem s) root va)" "\<not> MAXVA \<le> PGROUNDDOWN va"
    "writable_range s root va n \<Longrightarrow> pte_of (mem s) root va AND PTE_W \<noteq> 0"
proof -
  show va: "va < MAXVA" using assms by (simp add: mapped_range_def less_MAXVA)
  show "\<not> MAXVA \<le> PGROUNDDOWN va" using PGROUNDDOWN_page_addr [OF va] by (simp add: page_addr_def)
  show "user_pte (pte_of (mem s) root va)" using assms by (auto simp: mapped_range_def dest: spec [of _ 0])
  show "pte_of (mem s) root va AND PTE_W \<noteq> 0" if "writable_range s root va n"
    using that assms(2) by (auto simp: writable_range_def dest: spec [of _ 0])
qed

lemma copyout_mapped:
  assumes "as_inv s fl root" "writable_range s root dstva (length src)"
  shows "\<exists>s'. copyout rd s p root dstva src = Ret (0, s', p) \<and> as_inv s' fl root \<and>
    (\<forall>x. pte_of (mem s') root x = pte_of (mem s) root x) \<and>
    (\<forall>x < MAXVA. ubyte s' root x =
       (if span dstva (length src) x then Some (src ! (unat x - unat dstva)) else ubyte s root x))"
  using assms
proof (induction "length src" arbitrary: s dstva src rule: less_induct)
  case less
  let ?va = "PGROUNDDOWN dstva" and ?n = "chunk dstva (length src)"
  note eq = copyout.simps [of rd _ p root dstva src]
  have mr: "mapped_range s root dstva (length src)" using less(3) by (simp add: writable_range_def)
  show ?case
  proof (cases "src = []")
    case True
    then show ?thesis using less(2) by (intro exI [of _ s]) (auto simp: copyout.simps span_def)
  next
    case False
    then have pos: "0 < length src" by simp
    note H = range_head [OF mr pos] and uf = user_frame_mapped [OF less(2) range_head(1,2) [OF mr pos]]
    obtain u where u: "walk s root ?va False = Ret (u, s)" "load64 (mem s) u = pte_of (mem s) root dstva"
      by (rule walk_user_page [OF less(2), of ?va]) (use H in auto)
    define s2 where "s2 = s\<lparr>mem := store_bytes (mem s) (uaddr (mem s) root dstva) (take ?n src)\<rparr>"
    have n: "?n \<le> length src" "0 < ?n" using chunk_le chunk_pos [OF pos] by auto
    have "unat (dstva - ?va) + length (take ?n src) \<le> 4096" using page_offset_less [of dstva] by (simp add: chunk_eq)
    note W = user_write [OF less(2) H(1,2) this refl]
    have s2: "as_inv s2 fl root" "\<And>x. pte_of (mem s2) root x = pte_of (mem s) root x"
      "\<And>x. x < MAXVA \<Longrightarrow> ubyte s2 root x = (if span dstva ?n x then Some (src ! (unat x - unat dstva)) else ubyte s root x)"
      using W n by (auto simp: s2_def span_def)
    have step: "copyout rd s p root dstva src = copyout rd s2 p root (?va + PGSIZE) (drop ?n src)"
      using False H uf u H(4) [OF less(3)] by (subst eq) (simp add: Let_def uaddr_def s2_def)
    show ?thesis
    proof (cases "?n < length src")
      case False
      then have "?n = length src" using n by simp
      then show ?thesis using step s2 by (intro exI [of _ s2]) (simp add: copyout.simps)
    next
      case True
      have "writable_range s2 root (?va + PGSIZE) (length (drop ?n src))"
        using range_tail(2) [OF mr True less(3)] s2(2) by (simp add: writable_range_def mapped_range_def)
      moreover have "length (drop ?n src) < length src" using n pos by simp
      ultimately obtain s' where s': "copyout rd s2 p root (?va + PGSIZE) (drop ?n src) = Ret (0, s', p)" "as_inv s' fl root"
        "\<And>x. pte_of (mem s') root x = pte_of (mem s2) root x"
        "\<And>x. x < MAXVA \<Longrightarrow> ubyte s' root x = (if span (?va + PGSIZE) (length (drop ?n src)) x
           then Some (drop ?n src ! (unat x - unat (?va + PGSIZE))) else ubyte s2 root x)"
        using less(1) [OF _ s2(1), of "drop ?n src" "?va + PGSIZE"] by blast
      have nx: "unat (?va + PGSIZE) = unat dstva + ?n"
        by (rule next_page_chunk(2) [OF _ True]) (use mr in \<open>simp add: mapped_range_def\<close>)
      have "ubyte s' root x = (if span dstva (length src) x then Some (src ! (unat x - unat dstva)) else ubyte s root x)"
        if "x < MAXVA" for x
        using s'(4) [OF that] s2(3) [OF that] True unfolding span_def nx by auto
      then show ?thesis using step s'(1-3) s2(2) by auto
    qed
  qed
qed

lemma copyin_mapped:
  assumes "page_inv s fl p" "mapped_range s (p_pagetable p) srcva len"
  shows "copyin rd s p (p_pagetable p) srcva len =
    Ret (0, map (\<lambda>i. the (ubyte s (p_pagetable p) (srcva + of_nat i))) [0..<len], s, p)"
  using assms(2)
proof (induction len arbitrary: srcva rule: less_induct)
  case (less len)
  let ?root = "p_pagetable p" and ?va = "PGROUNDDOWN srcva" and ?n = "chunk srcva len"
  let ?b = "\<lambda>i. the (ubyte s ?root (srcva + of_nat i))"
  note eq = copyin.simps [of rd _ p ?root srcva len]
  show ?case
  proof (cases "len = 0")
    case False
    then have pos: "0 < len" by simp
    note H = range_head [OF less(2) pos] and uf = user_frame_mapped [OF page_inv_as [OF assms(1)] range_head(1,2) [OF less(2) pos]]
    have n: "?n \<le> len" "0 < ?n" using chunk_le chunk_pos [OF pos] by auto
    have hd: "load_bytes (mem s) (PTE2PA (pte_of (mem s) ?root srcva) + (srcva - ?va)) ?n = map ?b [0..<?n]"
      by (rule nth_equalityI) (use ubyte_as_byte [OF H(2)] in \<open>simp_all add: uaddr_def chunk_eq\<close>)
    have tl: "copyin rd s p ?root (?va + PGSIZE) (len - ?n) = Ret (0, map ?b [?n..<len], s, p)"
    proof (cases "?n < len")
      case True
      have e: "?va + PGSIZE + of_nat i = srcva + of_nat (?n + i)" for i
        using next_page_chunk(1) [OF _ True] less(2) by (simp add: mapped_range_def add.assoc)
      have "len - ?n < len" using n pos by simp
      note less(1) [OF this range_tail(1) [OF less(2) True]]
      moreover have "map (\<lambda>i. the (ubyte s ?root (?va + PGSIZE + of_nat i))) [0..<len - ?n] = map ?b [?n..<len]"
        unfolding e using True by (intro nth_equalityI) auto
      ultimately show ?thesis by simp
    qed (use n in \<open>simp add: copyin.simps\<close>)
    have "[0..<len] = [0..<?n] @ [?n..<len]" using n upt_add_eq_append [of 0 ?n "len - ?n"] by simp
    then show ?thesis using pos H(3) uf hd tl by (subst eq) (simp add: Let_def)
  qed (simp add: copyin.simps)
qed


lemma copy_until_null_append: "0 \<notin> set cs \<Longrightarrow> copy_until_null (cs @ 0 # ds) = (True, cs @ [0])"
  by (induction cs) auto

lemma copy_until_null_none: "0 \<notin> set bs \<Longrightarrow> copy_until_null bs = (False, bs)"
  by (induction bs) auto

lemma copyinstr_mapped:
  assumes "page_inv s fl p" "mapped_range s (p_pagetable p) srcva (Suc (length cs))" "0 \<notin> set cs" "length cs < len"
    and "\<And>i. i \<le> length cs \<Longrightarrow> ubyte s (p_pagetable p) (srcva + of_nat i) = Some ((cs @ [0]) ! i)"
  shows "copyinstr rd s p (p_pagetable p) srcva len = Ret (0, cs @ [0], s, p)"
  using assms(2-)
proof (induction len arbitrary: srcva cs rule: less_induct)
  case (less len)
  let ?root = "p_pagetable p" and ?va = "PGROUNDDOWN srcva" and ?n = "chunk srcva len"
  let ?bs = "load_bytes (mem s) (PTE2PA (pte_of (mem s) (p_pagetable p) srcva) + (srcva - ?va)) ?n"
  note eq = copyinstr.simps [of rd _ p ?root srcva len]
  have pos: "0 < len" using less(4) by simp
  note H = range_head [OF less(2) zero_less_Suc] and uf = user_frame_mapped [OF page_inv_as [OF assms(1)] range_head(1,2) [OF less(2) zero_less_Suc]]
  have b: "?bs ! i = (cs @ [0]) ! i" if "i < ?n" "i \<le> length cs" for i
    using ubyte_as_byte [OF H(2), of i] less(5) [OF that(2)] that(1) by (simp add: uaddr_def chunk_eq)
  show ?case
  proof (cases "length cs < ?n")
    case True
    have "take (Suc (length cs)) ?bs = cs @ [0]"
      by (rule nth_equalityI) (use b True in \<open>simp_all add: less_Suc_eq_le\<close>)
    then have "?bs = cs @ 0 # drop (Suc (length cs)) ?bs" by (metis append.assoc append_Cons append_Nil append_take_drop_id)
    then have "copy_until_null ?bs = (True, cs @ [0])" using copy_until_null_append [OF less(3)] by metis
    then show ?thesis using pos H(3) uf by (subst eq) (simp add: Let_def)
  next
    case False
    have n: "0 < ?n" "?n \<le> len" using chunk_pos [OF pos] chunk_le by auto
    have n': "?n = chunk srcva (Suc (length cs))" using False less(4) by (simp add: chunk_eq)
    then have lt: "chunk srcva (Suc (length cs)) < Suc (length cs)" using False by simp
    have bs: "?bs = take ?n cs" by (rule nth_equalityI) (use b False in \<open>simp_all add: nth_append\<close>)
    have z: "copy_until_null ?bs = (False, take ?n cs)"
      unfolding bs by (rule copy_until_null_none) (use less(3) in \<open>auto dest: in_set_takeD\<close>)
    have e: "?va + PGSIZE + of_nat i = srcva + of_nat (?n + i)" for i
      using next_page_chunk(1) [OF _ lt] less(2) n' by (simp add: mapped_range_def add.assoc)
    have "copyinstr rd s p ?root (?va + PGSIZE) (len - ?n) = Ret (0, drop ?n cs @ [0], s, p)"
    proof (rule less(1))
      show "mapped_range s ?root (?va + PGSIZE) (Suc (length (drop ?n cs)))"
        using range_tail(1) [OF less(2) lt] False n' by (simp add: Suc_diff_le)
      show "ubyte s ?root (?va + PGSIZE + of_nat i) = Some ((drop ?n cs @ [0]) ! i)" if "i \<le> length (drop ?n cs)" for i
        unfolding e using less(5) [of "?n + i"] that False by (auto simp: nth_append)
    qed (use less(3,4) n False in \<open>auto dest: in_set_dropD\<close>)
    then have "copyinstr rd s p ?root srcva len = Ret (0, take ?n cs @ drop ?n cs @ [0], s, p)"
      using pos H(3) uf z by (subst eq) (simp add: Let_def)
    then show ?thesis by (metis append.assoc append_take_drop_id)
  qed
qed

lemma copyout_copyin:
  assumes inv: "page_inv s fl p" and w: "writable_range s (p_pagetable p) va (length src)"
  shows "\<exists>s'. copyout rd s p (p_pagetable p) va src = Ret (0, s', p) \<and> page_inv s' fl p \<and>
    copyin rd s' p (p_pagetable p) va (length src) = Ret (0, src, s', p) \<and>
    (\<forall>str max_len. src = str @ [0] \<longrightarrow> 0 \<notin> set str \<longrightarrow> length src \<le> max_len \<longrightarrow>
       copyinstr rd s' p (p_pagetable p) va max_len = Ret (0, src, s', p)) \<and>
    (\<forall>x < MAXVA. \<not> span va (length src) x \<longrightarrow> ubyte s' (p_pagetable p) x = ubyte s (p_pagetable p) x)"
proof -
  let ?root = "p_pagetable p"
  obtain s' where s': "copyout rd s p ?root va src = Ret (0, s', p)" "page_inv s' fl p"
    "\<And>x. pte_of (mem s') ?root x = pte_of (mem s) ?root x"
    "\<And>x. x < MAXVA \<Longrightarrow> ubyte s' ?root x = (if span va (length src) x then Some (src ! (unat x - unat va)) else ubyte s ?root x)"
    using copyout_mapped [OF page_inv_as [OF inv] w] page_inv_same [OF inv] by blast
  have mr: "mapped_range s' ?root va (length src)" using w s'(3) by (simp add: writable_range_def mapped_range_def)
  have b: "ubyte s' ?root (va + of_nat i) = Some (src ! i)" if "i < length src" for i
  proof -
    have "unat (va + of_nat i) = unat va + i"
      using that mr by (simp add: mapped_range_def unat_word_ariths unat_of_nat)
    then show ?thesis using s'(4) [of "va + of_nat i"] that mr by (simp add: span_def less_MAXVA mapped_range_def)
  qed
  have "map (\<lambda>i. the (ubyte s' ?root (va + of_nat i))) [0..<length src] = src"
    by (rule nth_equalityI) (simp_all add: b)
  then have "copyin rd s' p ?root va (length src) = Ret (0, src, s', p)" using copyin_mapped [OF s'(2) mr] by simp
  moreover have "copyinstr rd s' p ?root va m = Ret (0, src, s', p)" if "src = str @ [0]" "0 \<notin> set str" "length src \<le> m" for str m
    using copyinstr_mapped [OF s'(2), of va str m rd] mr b that by simp
  ultimately show ?thesis using s' by auto
qed

lemma copyout_writable:
  assumes "page_inv s fl p" "writable_range s (p_pagetable p) va (length src)" "copyout rd s p (p_pagetable p) va src = Ret (r, s', p')"
  shows "writable_range s' (p_pagetable p) vb n = writable_range s (p_pagetable p) vb n"
proof -
  have "pte_of (mem s') (p_pagetable p) x = pte_of (mem s) (p_pagetable p) x" for x
    using copyout_mapped [OF page_inv_as [OF assms(1)] assms(2), of rd p] assms(3) by auto
  then show ?thesis by (simp add: writable_range_def mapped_range_def)
qed

text \<open>The interface the system calls rely on.\<close>

interpretation um: user_buffer "\<lambda>p s. copyout rd s p (p_pagetable p)" "\<lambda>p s. copyin rd s p (p_pagetable p)"
  "\<lambda>p s. \<exists>fl. page_inv s fl p" "\<lambda>p s. writable_range s (p_pagetable p)" for rd
proof
  show "\<exists>s'. copyout rd s p (p_pagetable p) va bs = Ret (0, s', p) \<and> (\<exists>fl. page_inv s' fl p) \<and>
      copyin rd s' p (p_pagetable p) va (length bs) = Ret (0, bs, s', p)"
    if "\<exists>fl. page_inv s fl p" "writable_range s (p_pagetable p) va (length bs)" for p and s :: "'a machine_scheme" and va bs
    using that copyout_copyin by blast
  show "writable_range s' (p_pagetable p) vb n = writable_range s (p_pagetable p) vb n"
    if "\<exists>fl. page_inv s fl p" "writable_range s (p_pagetable p) va (length bs)" "copyout rd s p (p_pagetable p) va bs = Ret (r, s', p')"
    for p p' r and s s' :: "'a machine_scheme" and va vb bs n
    using that copyout_writable by blast
qed

section \<open>Properties\<close>



text \<open>
  C37: on a range of user addresses that is mapped and writable, across any number of pages,
  \<^verbatim>\<open>copyout\<close> succeeds, \<^verbatim>\<open>copyin\<close> then reads exactly the bytes written, and \<^verbatim>\<open>copyinstr\<close> the string if
  they are one, and every user byte outside the range keeps its value.
\<close>

theorem user_copy_round_trip:
  assumes inv: "page_inv s fl p" and w: "writable_range s (p_pagetable p) va (length src)"
  shows "\<exists>s'. copyout rd s p (p_pagetable p) va src = Ret (0, s', p) \<and> page_inv s' fl p \<and>
    copyin rd s' p (p_pagetable p) va (length src) = Ret (0, src, s', p) \<and>
    (\<forall>str max_len. src = str @ [0] \<longrightarrow> 0 \<notin> set str \<longrightarrow> length src \<le> max_len \<longrightarrow>
       copyinstr rd s' p (p_pagetable p) va max_len = Ret (0, src, s', p)) \<and>
    (\<forall>x < MAXVA. \<not> span va (length src) x \<longrightarrow> ubyte s' (p_pagetable p) x = ubyte s (p_pagetable p) x)"
  by (rule copyout_copyin [OF assms])

lemma page_writable:
  assumes "user_pte (pte_of (mem s) demo_root 0x1000)" "pte_of (mem s) demo_root 0x1000 AND PTE_W \<noteq> 0" "off + n \<le> 4096"
  shows "writable_range s demo_root (0x1000 + of_nat off) n"
proof -
  have "PGROUNDDOWN (0x1000 + of_nat off + of_nat i) = 0x1000" if "i < n" for i
    using page_of_offset [of "0x1000" "off + i"] demo_aligned(1) that assms(3) by (simp add: add.assoc)
  then have e: "pte_of (mem s) demo_root (0x1000 + of_nat off + of_nat i) = pte_of (mem s) demo_root 0x1000" if "i < n" for i
    using that by (metis pte_of_PGROUNDDOWN)
  have "unat (0x1000 + of_nat off :: uint64) + n \<le> 2 ^ 38"
    using assms(3) by (simp add: unat_word_ariths unat_of_nat)
  then show ?thesis using e assms(1,2) by (simp add: writable_range_def mapped_range_def)
qed

theorem user_copy_round_trip_witness:
  "\<exists>(s :: machine) s'. copyout no_file s one_page_proc demo_root 0x1008 [7, 8, 0] = Ret (0, s', one_page_proc) \<and>
    copyin no_file s' one_page_proc demo_root 0x1008 3 = Ret (0, [7, 8, 0], s', one_page_proc)"
proof (rule one_page_inv)
  fix s :: machine and fl assume s: "page_inv s fl one_page_proc" "user_pte (pte_of (mem s) demo_root 0x1000)" "pte_of (mem s) demo_root 0x1000 AND PTE_W \<noteq> 0"
  have "writable_range s (p_pagetable one_page_proc) 0x1008 (length [7, 8, 0 :: uint8])"
    using page_writable [OF s(2,3), of 8 3] by (simp add: one_page_facts numeral_3_eq_3)
  from user_copy_round_trip [OF s(1) this, of no_file] show ?thesis by (auto simp: one_page_facts numeral_3_eq_3)
qed

end
