(* ===== verification/Process.thy ===== *)
theory Process
  imports User_Copy File
begin

text \<open>
  The process table, \<^verbatim>\<open>kernel/proc.c\<close>.  A process is its index in the table, and the calling process
  is an argument; so are the address of its descriptor, which serves as a sleep channel, and the
  physical address of the trampoline page.  The locks are not modelled: what a call does between two
  points where it gives up the processor is one function.  The saved kernel registers
  (\<^verbatim>\<open>p->context\<close>) and the messages are left out, and \<^verbatim>\<open>nextpid\<close> does not overflow here (C leaves that
  undefined).  The pointer to entry \<open>i\<close> of the inode table in a lazy segment is \<open>i + 1\<close>.
\<close>

section \<open>State\<close>

definition NPROC :: nat where "NPROC = 64"
definition TRAMPOLINE :: uint64 where "TRAMPOLINE = MAXVA - PGSIZE"
definition TRAPFRAME :: uint64 where "TRAPFRAME = TRAMPOLINE - PGSIZE"

definition KSTACK :: "nat \<Rightarrow> uint64" where
  "KSTACK p = TRAMPOLINE - of_nat (p + 1) * 2 * PGSIZE"

record kernel =
  k_mem :: machine
  k_fs :: filesys
  procs :: "proc list"
  nextpid :: int
  initproc :: "nat option"

abbreviation pr :: "kernel \<Rightarrow> nat \<Rightarrow> proc" where
  "pr k i \<equiv> procs k ! i"

definition set_proc :: "kernel \<Rightarrow> nat \<Rightarrow> proc \<Rightarrow> kernel" where
  "set_proc k i p = k\<lparr>procs := (procs k)[i := p]\<rparr>"

definition procinit :: "kernel \<Rightarrow> kernel" where
  "procinit k = k\<lparr>procs := map (\<lambda>i. (pr k i)\<lparr>p_state := UNUSED, p_kstack := KSTACK i\<rparr>) [0..<NPROC]\<rparr>"

primrec proc_mapstacks :: "nat list \<Rightarrow> machine \<Rightarrow> uint64 \<Rightarrow> machine res" where
  "proc_mapstacks [] s kpgtbl = Ret s"
| "proc_mapstacks (i # is) s kpgtbl =
     (case kalloc s of (pa, s) \<Rightarrow>
        if pa = 0 then Panic ''kalloc''
        else rbind (kvmmap s kpgtbl (KSTACK i) pa PGSIZE (PTE_R OR PTE_W)) (\<lambda>s. proc_mapstacks is s kpgtbl))"

definition allocpid :: "kernel \<Rightarrow> int \<times> kernel" where
  "allocpid k = (nextpid k, k\<lparr>nextpid := nextpid k + 1\<rparr>)"

section \<open>Page tables of processes\<close>

definition free_table :: "machine \<Rightarrow> uint64 \<Rightarrow> uint64 \<Rightarrow> machine res" where
  "free_table s pagetable sz = (case uvmfree s pagetable sz of None \<Rightarrow> Panic ''freewalk: nested too deep'' | Some r \<Rightarrow> r)"

definition proc_pagetable :: "uint64 \<Rightarrow> machine \<Rightarrow> uint64 \<Rightarrow> (uint64 \<times> machine) res" where
  "proc_pagetable trampoline s trapframe =
     (case uvmcreate s of (pagetable, s) \<Rightarrow>
        if pagetable = 0 then Ret (0, s)
        else rbind (mappages s pagetable TRAMPOLINE PGSIZE trampoline (PTE_R OR PTE_X)) (\<lambda>(r, s).
          if r < 0 then rbind (free_table s pagetable 0) (\<lambda>s. Ret (0, s))
          else rbind (mappages s pagetable TRAPFRAME PGSIZE trapframe (PTE_R OR PTE_W)) (\<lambda>(r, s).
            if r < 0 then
              rbind (uvmunmap s pagetable TRAMPOLINE 1 False) (\<lambda>s.
              rbind (free_table s pagetable 0) (\<lambda>s. Ret (0, s)))
            else Ret (pagetable, s))))"

definition proc_freepagetable :: "machine \<Rightarrow> uint64 \<Rightarrow> uint64 \<Rightarrow> machine res" where
  "proc_freepagetable s pagetable sz =
     rbind (uvmunmap s pagetable TRAMPOLINE 1 False) (\<lambda>s.
     rbind (uvmunmap s pagetable TRAPFRAME 1 False) (\<lambda>s. free_table s pagetable sz))"

section \<open>Allocating and freeing descriptors\<close>

primrec put_segs :: "nat list \<Rightarrow> filesys \<Rightarrow> lazy_seg list \<Rightarrow> (filesys \<times> lazy_seg list) res" where
  "put_segs [] fs segs = Ret (fs, segs)"
| "put_segs (i # is) fs segs =
     (if seg_ip (segs ! i) \<noteq> 0 then
        rbind (iput fs (seg_ip (segs ! i) - 1)) (\<lambda>fs. put_segs is fs (segs[i := (segs ! i)\<lparr>seg_ip := 0\<rparr>]))
      else put_segs is fs segs)"

definition freeproc :: "kernel \<Rightarrow> nat \<Rightarrow> kernel res" where
  "freeproc k i =
     (let p = pr k i in
      rbind (if p_trapframe p \<noteq> 0 then kfree (k_mem k) (p_trapframe p) else Ret (k_mem k)) (\<lambda>m.
      rbind (if p_pagetable p \<noteq> 0 then proc_freepagetable m (p_pagetable p) (p_sz p) else Ret m) (\<lambda>m.
      rbind (put_segs [0..<16] (k_fs k) (p_lazy_segs p)) (\<lambda>(fs, segs).
        let (m, p) = cleanup_swap_file m (p\<lparr>p_trapframe := 0, p_pagetable := 0, p_sz := 0, p_lazy_segs := segs\<rparr>) in
        Ret (set_proc (k\<lparr>k_mem := m, k_fs := fs\<rparr>) i
               (p\<lparr>p_pid := 0, p_parent := None, p_name := (p_name p)[0 := CHR 0x00], p_chan := 0, p_killed := 0, p_xstate := 0, p_state := UNUSED\<rparr>))))))"

definition no_seg :: lazy_seg where
  "no_seg = \<lparr>seg_vaddr = 0, seg_filesz = 0, seg_memsz = 0, seg_fileoff = 0, seg_flags = 0, seg_ip = 0\<rparr>"

definition no_page :: res_page where
  "no_page = \<lparr>rp_va = 0, rp_seq = 0, rp_is_dirty = 0, rp_swap_slot = -1\<rparr>"

text \<open>The paging fields of a new descriptor; \<^verbatim>\<open>lazy_nseg\<close> and \<^verbatim>\<open>killed\<close> are not among them.\<close>

definition fresh_paging :: "proc \<Rightarrow> proc" where
  "fresh_paging p = p\<lparr>p_lazy_heap_start := 0, p_lazy_stack_top := 0, p_lazy_max_addr := 0, p_pf_seq := 0, p_lazy_segs := replicate 16 no_seg,
     p_text_start := 0, p_text_end := 0, p_data_start := 0, p_data_end := 0, p_num_resident := 0, p_num_swapped := 0,
     p_resident_pages := replicate 256 no_page, p_swap_slots := replicate 1024 0\<rparr>"

definition allocproc :: "uint64 \<Rightarrow> kernel \<Rightarrow> (nat option \<times> kernel) res" where
  "allocproc trampoline k =
     (case find (\<lambda>i. p_state (pr k i) = UNUSED) [0..<NPROC] of
        None \<Rightarrow> Ret (None, k)
      | Some i \<Rightarrow>
          let (pid, k) = allocpid k; k = set_proc k i ((pr k i)\<lparr>p_pid := pid, p_state := USED\<rparr>);
              (tf, m) = kalloc (k_mem k); k = set_proc (k\<lparr>k_mem := m\<rparr>) i ((pr k i)\<lparr>p_trapframe := tf\<rparr>) in
          if tf = 0 then rbind (freeproc k i) (\<lambda>k. Ret (None, k))
          else rbind (proc_pagetable trampoline (k_mem k) tf) (\<lambda>(pt, m).
            let k = set_proc (k\<lparr>k_mem := m\<rparr>) i ((pr k i)\<lparr>p_pagetable := pt\<rparr>) in
            if pt = 0 then rbind (freeproc k i) (\<lambda>k. Ret (None, k))
            else Ret (Some i, set_proc k i (fresh_paging (pr k i)))))"

definition userinit :: "uint64 \<Rightarrow> kernel \<Rightarrow> kernel res" where
  "userinit trampoline k =
     rbind (allocproc trampoline k) (\<lambda>(p, k).
       case p of
         None \<Rightarrow> Panic ''userinit: null pointer''
       | Some p \<Rightarrow>
           rbind (namei (k_fs k) 0 [slash]) (\<lambda>(ip, fs).
             Ret (set_proc (k\<lparr>initproc := Some p, k_fs := fs\<rparr>) p ((pr k p)\<lparr>p_cwd := ip, p_state := RUNNABLE\<rparr>))))"

section \<open>Fork\<close>

definition copy_name :: "string \<Rightarrow> string \<Rightarrow> string" where
  "copy_name s t = (let bs = safestrcpy (map of_char t) 16 in map (\<lambda>b. char_of (unat b)) bs @ drop (length bs) s)"

primrec dup_segs :: "nat list \<Rightarrow> filesys \<Rightarrow> lazy_seg list \<Rightarrow> filesys" where
  "dup_segs [] fs segs = fs"
| "dup_segs (j # js) fs segs = dup_segs js (if seg_ip (segs ! j) \<noteq> 0 then snd (idup fs (seg_ip (segs ! j) - 1)) else fs) segs"

primrec dup_files :: "nat list \<Rightarrow> filesys \<Rightarrow> nat option list \<Rightarrow> nat option list \<Rightarrow> (filesys \<times> nat option list) res" where
  "dup_files [] fs old new = Ret (fs, new)"
| "dup_files (i # is) fs old new =
     (case old ! i of
        None \<Rightarrow> dup_files is fs old new
      | Some f \<Rightarrow> rbind (filedup fs f) (\<lambda>fs. dup_files is fs old (new[i := Some f])))"

text \<open>The saved user registers are 288 bytes; \<^verbatim>\<open>a0\<close> lies at offset 112.\<close>

definition copy_trapframe :: "machine \<Rightarrow> uint64 \<Rightarrow> uint64 \<Rightarrow> machine" where
  "copy_trapframe m new old = m\<lparr>mem := store64 (memmove (mem m) new old 288) (new + 112) 0\<rparr>"

definition fork_paging :: "proc \<Rightarrow> proc \<Rightarrow> proc" where
  "fork_paging p np = np\<lparr>p_sz := p_sz p, p_lazy_heap_start := p_lazy_heap_start p, p_lazy_stack_top := p_lazy_stack_top p, p_lazy_max_addr := p_lazy_max_addr p,
     p_pf_seq := 0, p_lazy_nseg := p_lazy_nseg p, p_text_start := p_text_start p, p_text_end := p_text_end p, p_data_start := p_data_start p, p_data_end := p_data_end p,
     p_num_resident := 0, p_num_swapped := 0, p_resident_pages := replicate 256 no_page, p_swap_slots := replicate 1024 0,
     p_lazy_segs := take 16 (p_lazy_segs p)\<rparr>"

definition kfork :: "uint64 \<Rightarrow> nat \<Rightarrow> kernel \<Rightarrow> (int \<times> kernel) res" where
  "kfork trampoline me k =
     rbind (allocproc trampoline k) (\<lambda>(np, k).
       case np of
         None \<Rightarrow> Ret (-1, k)
       | Some np \<Rightarrow>
           let p = pr k me in
           rbind (uvmcopy (k_mem k) (p_pagetable p) (p_pagetable (pr k np)) (p_sz p)) (\<lambda>(r, m).
             let k = k\<lparr>k_mem := m\<rparr> in
             if r < 0 then rbind (freeproc k np) (\<lambda>k. Ret (-1, k))
             else
               let q = init_swap_file (fork_paging p (pr k np));
                   fs = dup_segs [0..<16] (k_fs k) (p_lazy_segs p);
                   m = copy_trapframe m (p_trapframe q) (p_trapframe p) in
               rbind (dup_files [0..<NOFILE] fs (p_ofile p) (p_ofile q)) (\<lambda>(fs, files).
                 case p_cwd p of
                   None \<Rightarrow> Panic ''kfork: null pointer''
                 | Some c \<Rightarrow>
                     let (c, fs) = idup fs c in
                     Ret (p_pid q, set_proc (k\<lparr>k_mem := m, k_fs := fs\<rparr>) np
                       (q\<lparr>p_ofile := files, p_cwd := Some c, p_name := copy_name (p_name q) (p_name p), p_parent := Some me, p_state := RUNNABLE\<rparr>)))))"

section \<open>Sleep and wakeup\<close>

definition wake_proc :: "uint64 \<Rightarrow> proc \<Rightarrow> proc" where
  "wake_proc chan p = (if p_state p = SLEEPING \<and> p_chan p = chan then p\<lparr>p_state := RUNNABLE\<rparr> else p)"

definition wakeup :: "nat option \<Rightarrow> uint64 \<Rightarrow> kernel \<Rightarrow> kernel" where
  "wakeup me chan k = k\<lparr>procs := map (\<lambda>i. if Some i \<noteq> me then wake_proc chan (pr k i) else pr k i) [0..<NPROC]\<rparr>"

definition ksleep :: "nat \<Rightarrow> uint64 \<Rightarrow> kernel \<Rightarrow> kernel" where
  "ksleep me chan k = set_proc k me ((pr k me)\<lparr>p_chan := chan, p_state := SLEEPING\<rparr>)"

definition after_sleep :: "nat \<Rightarrow> kernel \<Rightarrow> kernel" where
  "after_sleep me k = set_proc k me ((pr k me)\<lparr>p_chan := 0\<rparr>)"

definition yield_cpu :: "nat \<Rightarrow> kernel \<Rightarrow> kernel" where
  "yield_cpu me k = set_proc k me ((pr k me)\<lparr>p_state := RUNNABLE\<rparr>)"

text \<open>The part of \<^verbatim>\<open>sched\<close> that concerns the table: a process that is still \<^verbatim>\<open>RUNNING\<close> may not give up the processor.\<close>

definition sched :: "nat \<Rightarrow> kernel \<Rightarrow> kernel res" where
  "sched me k = (if p_state (pr k me) = RUNNING then Panic ''sched RUNNING'' else Ret k)"

text \<open>From entry \<open>i\<close> on, the process the scheduler switches to next in its pass.\<close>

definition scheduler_next :: "nat \<Rightarrow> kernel \<Rightarrow> (nat \<times> kernel) option" where
  "scheduler_next i k =
     (case find (\<lambda>j. p_state (pr k j) = RUNNABLE) [i..<NPROC] of
        None \<Rightarrow> None
      | Some j \<Rightarrow> Some (j, set_proc k j ((pr k j)\<lparr>p_state := RUNNING\<rparr>)))"

section \<open>Exit and wait\<close>

primrec reparent_loop :: "(nat \<Rightarrow> uint64) \<Rightarrow> nat list \<Rightarrow> nat \<Rightarrow> kernel \<Rightarrow> kernel" where
  "reparent_loop addr [] me k = k"
| "reparent_loop addr (pp # pps) me k =
     reparent_loop addr pps me
       (if p_parent (pr k pp) = Some me
        then wakeup (Some me) (case initproc k of Some q \<Rightarrow> addr q | None \<Rightarrow> 0) (set_proc k pp ((pr k pp)\<lparr>p_parent := initproc k\<rparr>))
        else k)"

definition reparent :: "(nat \<Rightarrow> uint64) \<Rightarrow> nat \<Rightarrow> kernel \<Rightarrow> kernel" where
  "reparent addr me k = reparent_loop addr [0..<NPROC] me k"

primrec close_files :: "nat list \<Rightarrow> nat \<Rightarrow> kernel \<Rightarrow> kernel res" where
  "close_files [] me k = Ret k"
| "close_files (fd # fds) me k =
     (case p_ofile (pr k me) ! fd of
        None \<Rightarrow> close_files fds me k
      | Some f \<Rightarrow>
          rbind (fileclose (k_fs k) f) (\<lambda>fs.
            close_files fds me (set_proc (k\<lparr>k_fs := fs\<rparr>) me ((pr k me)\<lparr>p_ofile := (p_ofile (pr k me))[fd := None]\<rparr>))))"

definition kexit :: "(nat \<Rightarrow> uint64) \<Rightarrow> nat \<Rightarrow> int \<Rightarrow> kernel \<Rightarrow> kernel res" where
  "kexit addr me status k =
     (if initproc k = Some me then Panic ''init exiting''
      else rbind (close_files [0..<NOFILE] me k) (\<lambda>k.
        case p_cwd (pr k me) of
          None \<Rightarrow> Panic ''kexit: null pointer''
        | Some c \<Rightarrow>
            rbind (begin_op' (k_fs k)) (\<lambda>fs.
            rbind (iput fs c) (\<lambda>fs.
            rbind (end_op fs) (\<lambda>fs.
              let k = set_proc (k\<lparr>k_fs := fs\<rparr>) me ((pr k me)\<lparr>p_cwd := None\<rparr>);
                  k = reparent addr me k;
                  k = wakeup (Some me) (case p_parent (pr k me) of Some q \<Rightarrow> addr q | None \<Rightarrow> 0) k in
              sched me (set_proc k me ((pr k me)\<lparr>p_xstate := status, p_state := ZOMBIE\<rparr>)))))))"

text \<open>
  One round of the loop of \<^verbatim>\<open>kwait\<close>: it returned, or sleeps on its own descriptor.  \<open>uaddr\<close> is the
  user address the status is copied to, if it is not null.
\<close>

datatype wait_result = WReturned int | WSleeping

definition status_bytes :: "int \<Rightarrow> uint8 list" where
  "status_bytes xstate = put32 (replicate 4 0) 0 (word_of_int xstate)"

definition copy_status :: "file_reader \<Rightarrow> nat \<Rightarrow> uint64 \<Rightarrow> int \<Rightarrow> kernel \<Rightarrow> (int \<times> kernel) res" where
  "copy_status rd me dst xstate k =
     (if dst = 0 then Ret (0, k)
      else rbind (copyout rd (k_mem k) (pr k me) (p_pagetable (pr k me)) dst (status_bytes xstate)) (\<lambda>(r, m, p).
        Ret (r, set_proc (k\<lparr>k_mem := m\<rparr>) me p)))"

definition kwait :: "(nat \<Rightarrow> uint64) \<Rightarrow> file_reader \<Rightarrow> nat \<Rightarrow> uint64 \<Rightarrow> kernel \<Rightarrow> (wait_result \<times> kernel) res" where
  "kwait addr rd me dst k =
     (case find (\<lambda>pp. p_parent (pr k pp) = Some me \<and> p_state (pr k pp) = ZOMBIE) [0..<NPROC] of
        Some pp \<Rightarrow>
          rbind (copy_status rd me dst (p_xstate (pr k pp)) k) (\<lambda>(r, k).
            if r < 0 then Ret (WReturned (-1), k)
            else rbind (freeproc k pp) (\<lambda>k'. Ret (WReturned (p_pid (pr k pp)), k')))
      | None \<Rightarrow>
          if (\<forall>pp \<in> set [0..<NPROC]. p_parent (pr k pp) \<noteq> Some me) \<or> p_killed (pr k me) \<noteq> 0 then Ret (WReturned (-1), k)
          else rbind (sched me (ksleep me (addr me) k)) (\<lambda>k. Ret (WSleeping, k)))"

section \<open>Kill\<close>

definition kkill :: "int \<Rightarrow> kernel \<Rightarrow> int \<times> kernel" where
  "kkill pid k =
     (case find (\<lambda>i. p_pid (pr k i) = pid) [0..<NPROC] of
        None \<Rightarrow> (-1, k)
      | Some i \<Rightarrow>
          (0, set_proc k i (if p_state (pr k i) = SLEEPING then (pr k i)\<lparr>p_killed := 1, p_state := RUNNABLE\<rparr> else (pr k i)\<lparr>p_killed := 1\<rparr>)))"

definition setkilled :: "nat \<Rightarrow> kernel \<Rightarrow> kernel" where
  "setkilled p k = set_proc k p ((pr k p)\<lparr>p_killed := 1\<rparr>)"

definition killed :: "nat \<Rightarrow> kernel \<Rightarrow> int" where
  "killed p k = p_killed (pr k p)"

section \<open>Copies to and from a user or a kernel address\<close>

definition either_copyout ::
  "file_reader \<Rightarrow> nat \<Rightarrow> bool \<Rightarrow> uint64 \<Rightarrow> uint8 list \<Rightarrow> kernel \<Rightarrow> (int \<times> kernel) res" where
  "either_copyout rd me user_dst dst src k =
     (if user_dst then
        rbind (copyout rd (k_mem k) (pr k me) (p_pagetable (pr k me)) dst src) (\<lambda>(r, m, p). Ret (r, set_proc (k\<lparr>k_mem := m\<rparr>) me p))
      else Ret (0, k\<lparr>k_mem := (k_mem k)\<lparr>mem := store_bytes (mem (k_mem k)) dst src\<rparr>\<rparr>))"

definition either_copyin ::
  "file_reader \<Rightarrow> nat \<Rightarrow> bool \<Rightarrow> uint64 \<Rightarrow> nat \<Rightarrow> kernel \<Rightarrow> (int \<times> uint8 list \<times> kernel) res" where
  "either_copyin rd me user_src src len k =
     (if user_src then
        rbind (copyin rd (k_mem k) (pr k me) (p_pagetable (pr k me)) src len) (\<lambda>(r, bs, m, p). Ret (r, bs, set_proc (k\<lparr>k_mem := m\<rparr>) me p))
      else Ret (0, load_bytes (mem (k_mem k)) src len, k))"

end
