(* ===== verification/Process_Props.thy ===== *)
theory Process_Props
  imports Process Pager_Props File_Props Transition_System
begin

text \<open>
  The process table as a state machine: what every operation does to the scheduling state, the
  identifier, the parent and the sleep channel of each entry, and the invariants of the table
  under any interleaving of the operations.
\<close>

section \<open>The core of a descriptor\<close>

type_synonym pcore = "procstate \<times> int \<times> nat option \<times> uint64"

definition core :: "proc \<Rightarrow> pcore" where
  "core p = (p_state p, p_pid p, p_parent p, p_chan p)"

lemma core_eq: "core p = (st, pid, par, ch) \<longleftrightarrow> p_state p = st \<and> p_pid p = pid \<and> p_parent p = par \<and> p_chan p = ch"
  by (simp add: core_def)

lemma core_killed [simp]: "core (p\<lparr>p_killed := x\<rparr>) = core p"
  by (simp add: core_def)

lemma core_mark_dirty_from [simp]: "core (mark_dirty_from p a i) = core p"
  by (induction p a i rule: mark_dirty_from.induct) (subst mark_dirty_from.simps, simp add: core_def)

lemma core_remove_resident_from: "core (remove_resident_from p va i) = core p"
  by (induction p va i rule: remove_resident_from.induct) (subst remove_resident_from.simps, simp add: core_def)

lemma core_remove_resident_page [simp]: "core (remove_resident_page p va) = core p"
  by (simp add: remove_resident_page_def core_remove_resident_from)

lemma core_find_free_swap_slot: "find_free_swap_slot p = (i, p') \<Longrightarrow> core p' = core p"
  by (auto simp: find_free_swap_slot_def Let_def core_def split: if_splits)

lemma core_swap_out_page: "swap_out_page s p va sl = Ret (r, s', p') \<Longrightarrow> core p' = core p"
  by (auto simp: swap_out_page_def Let_def core_def res_simps split: if_splits)

lemma core_swap_in_page: "swap_in_page s p va sl f = (r, s', p') \<Longrightarrow> core p' = core p"
  by (auto simp: swap_in_page_def Let_def core_def split: if_splits)

lemma core_add_resident_page: "add_resident_page p va d = Ret p' \<Longrightarrow> core p' = core p"
  by (auto simp: add_resident_page_def Let_def core_def split: if_splits)

lemma core_save_victim: "save_victim s p va d = Ret (ok, s', p') \<Longrightarrow> core p' = core p"
  by (auto simp: save_victim_def Let_def res_simps dest!: core_find_free_swap_slot core_swap_out_page split: if_splits prod.splits)

lemma core_replace_page: "replace_page s p = Ret (f, s', p') \<Longrightarrow> core p' = core p"
  by (auto simp: replace_page_def Let_def res_simps case_prod_unfold dest!: core_save_victim split: if_splits)

lemma core_get_frame: "get_frame s p = Ret (f, s', p') \<Longrightarrow> core p' = core p"
  by (auto simp: get_frame_def dest: core_replace_page split: if_splits prod.splits)

lemma core_fill_frame: "fill_frame rd s p a sl si f = Ret (pm, s', p') \<Longrightarrow> core p' = core p"
  by (auto simp: fill_frame_def Let_def res_simps dest: core_swap_in_page split: if_splits prod.splits)

lemma core_load_new_page: "load_new_page rd s p a w sl si = Ret (r, s', p') \<Longrightarrow> core p' = core p"
  by (auto simp: load_new_page_def Let_def res_simps dest!: core_get_frame core_fill_frame core_add_resident_page
      split: if_splits prod.splits option.splits)

lemma core_demand_page_load_new: "demand_page_load_new rd s p va w x = Ret (r, s', p') \<Longrightarrow> core p' = core p"
  by (auto simp: demand_page_load_new_def Let_def res_simps dest: core_load_new_page split: if_splits)

lemma core_user_frame: "user_frame rd s p pt va w = Ret (pa, s', p') \<Longrightarrow> core p' = core p"
  by (auto simp: user_frame_def res_simps dest: core_demand_page_load_new split: if_splits)

lemma core_copyout: "copyout rd s p pt va src = Ret (r, s', p') \<Longrightarrow> core p' = core p"
proof (induction "length src" arbitrary: s p va src rule: less_induct)
  case less
  show ?case
  proof (cases "src = []")
    case False
    then have "length (drop (chunk va (length src)) src) < length src" by (simp add: chunk_pos)
    note IH = less(1) [OF this]
    show ?thesis
      using less(2) by (subst (asm) copyout.simps)
        (auto simp: Let_def res_simps False dest!: IH core_user_frame split: if_splits)
  qed (use less(2) in \<open>simp add: copyout.simps\<close>)
qed

section \<open>What the operations do to the table\<close>

text \<open>\<open>cores k\<close> lists the cores; the operations below change one entry of it, or several.\<close>

definition cores :: "kernel \<Rightarrow> pcore list" where
  "cores k = map core (procs k)"

lemma length_cores [simp]: "length (cores k) = length (procs k)"
  by (simp add: cores_def)

lemma nth_cores [simp]: "i < length (procs k) \<Longrightarrow> cores k ! i = core (pr k i)"
  by (simp add: cores_def)

lemma cores_set_proc [simp]: "cores (set_proc k i p) = (cores k)[i := core p]"
  by (simp add: cores_def set_proc_def map_update)

lemma set_proc_fields [simp]:
  "nextpid (set_proc k i p) = nextpid k" "initproc (set_proc k i p) = initproc k"
  "length (procs (set_proc k i p)) = length (procs k)" "procs (set_proc k i p) = (procs k)[i := p]"
  by (simp_all add: set_proc_def)

lemma cores_upd [simp]: "cores (k\<lparr>k_mem := m\<rparr>) = cores k" "cores (k\<lparr>k_fs := fs\<rparr>) = cores k" "cores (k\<lparr>nextpid := n\<rparr>) = cores k"
  "cores (k\<lparr>initproc := i\<rparr>) = cores k"
  by (simp_all add: cores_def)

abbreviation unused_core :: pcore where
  "unused_core \<equiv> (UNUSED, 0, None, 0)"

text \<open>\<open>same_ids k k'\<close>: neither the next identifier nor the first process change.\<close>

definition same_ids :: "kernel \<Rightarrow> kernel \<Rightarrow> bool" where
  "same_ids k k' \<longleftrightarrow> nextpid k' = nextpid k \<and> initproc k' = initproc k"

lemma freeproc_cores:
  assumes "freeproc k i = Ret k'"
  shows "cores k' = (cores k)[i := unused_core]" "same_ids k k'"
proof -
  have "\<exists>m fs q. set_proc (k\<lparr>k_mem := m, k_fs := fs\<rparr>) i q = k' \<and> core q = unused_core"
    using assms unfolding freeproc_def Let_def case_prod_unfold
    by (elim rbind_RetE) (simp only: res.inject, (intro exI conjI, assumption), simp add: core_eq)
  then show "cores k' = (cores k)[i := unused_core]" "same_ids k k'" by (auto simp: same_ids_def)
qed

lemma find_Some_upt: "find P [a..<b] = Some i \<Longrightarrow> a \<le> i \<and> i < b \<and> P i"
  by (auto simp: find_Some_iff)

lemma find_None_upt: "find P [a..<b] = None \<longleftrightarrow> (\<forall>i. a \<le> i \<and> i < b \<longrightarrow> \<not> P i)"
  by (auto simp: find_None_iff)


lemma core_fresh_paging [simp]: "core (fresh_paging p) = core p"
  by (simp add: core_def fresh_paging_def)

text \<open>
  \<^verbatim>\<open>allocproc\<close> takes an unused entry and a fresh identifier; when it fails it gives the entry back.
\<close>

lemma allocproc_step:
  assumes "allocproc tr k = Ret (r, k')" "find (\<lambda>i. p_state (pr k i) = UNUSED) [0..<NPROC] = Some i" "length (procs k) = NPROC"
  obtains k1 where "cores k1 = (cores k)[i := (USED, nextpid k, p_parent (pr k i), p_chan (pr k i))]"
    "nextpid k1 = nextpid k + 1" "initproc k1 = initproc k"
    "r = None \<and> freeproc k1 i = Ret k' \<or> r = Some i \<and> k' = k1"
proof -
  note ok = that
  have i: "i < length (procs k)" using find_Some_upt [OF assms(2)] assms(3) by simp
  define k0 where "k0 = set_proc (k\<lparr>nextpid := nextpid k + 1\<rparr>) i ((pr (k\<lparr>nextpid := nextpid k + 1\<rparr>) i)\<lparr>p_pid := nextpid k, p_state := USED\<rparr>)"
  define k2 where "k2 = set_proc (k0\<lparr>k_mem := snd (kalloc (k_mem k0))\<rparr>) i ((pr k0 i)\<lparr>p_trapframe := fst (kalloc (k_mem k0))\<rparr>)"
  have c0: "core (pr k0 i) = (USED, nextpid k, p_parent (pr k i), p_chan (pr k i))" using i by (simp add: k0_def core_def)
  have c2: "cores k2 = (cores k)[i := core (pr k0 i)]" "core (pr k2 i) = core (pr k0 i)" "nextpid k2 = nextpid k + 1" "initproc k2 = initproc k"
    "length (procs k2) = length (procs k)"
    using i by (simp_all add: k2_def k0_def core_def)
  have eq: "allocproc tr k =
    (if fst (kalloc (k_mem k0)) = 0 then rbind (freeproc k2 i) (\<lambda>k. Ret (None, k))
     else rbind (proc_pagetable tr (k_mem k2) (fst (kalloc (k_mem k0)))) (\<lambda>(pt, m).
       let k = set_proc (k2\<lparr>k_mem := m\<rparr>) i ((pr k2 i)\<lparr>p_pagetable := pt\<rparr>) in
       if pt = 0 then rbind (freeproc k i) (\<lambda>k. Ret (None, k)) else Ret (Some i, set_proc k i (fresh_paging (pr k i)))))"
    unfolding allocproc_def assms(2) option.case allocpid_def Let_def case_prod_unfold fst_conv snd_conv k0_def k2_def by (rule refl)
  show ?thesis
  proof (cases "fst (kalloc (k_mem k0)) = 0")
    case True
    then have "r = None \<and> freeproc k2 i = Ret k'" using assms(1) eq by (auto simp: res_simps)
    then show ?thesis using ok [OF c2(1) [unfolded c0] c2(3,4)] by blast
  next
    case False
    then obtain pt m where pm: "proc_pagetable tr (k_mem k2) (fst (kalloc (k_mem k0))) = Ret (pt, m)" using assms(1) eq by (auto simp: res_simps)
    define k3 where "k3 = set_proc (k2\<lparr>k_mem := m\<rparr>) i ((pr k2 i)\<lparr>p_pagetable := pt\<rparr>)"
    have c3: "cores k3 = (cores k)[i := core (pr k0 i)]" "nextpid k3 = nextpid k + 1" "initproc k3 = initproc k"
      using c2 by (simp_all add: k3_def) (simp add: core_def)
    have "(if pt = 0 then rbind (freeproc k3 i) (\<lambda>k. Ret (None, k)) else Ret (Some i, set_proc k3 i (fresh_paging (pr k3 i)))) = Ret (r, k')"
      using assms(1) eq False pm unfolding Let_def k3_def by (auto split: if_splits)
    moreover have "cores (set_proc k3 i (fresh_paging (pr k3 i))) = cores k3"
      using i c2(5) by (simp add: k3_def list_update_same_conv nth_list_update)
    ultimately show ?thesis
      using ok [OF c3(1) [unfolded c0] c3(2,3)] ok [of "set_proc k3 i (fresh_paging (pr k3 i))"] c3 c0
      by (cases "pt = 0") (auto simp: res_simps)
  qed
qed


lemma core_fork [simp]: "core (init_swap_file (fork_paging p q)) = core q"
  by (simp add: core_def init_swap_file_def fork_paging_def Let_def)

text \<open>The three outcomes of \<^verbatim>\<open>kfork\<close>.\<close>

lemma kfork_step:
  assumes "kfork tr me k = Ret (r, k')" "length (procs k) = NPROC"
  obtains (none) "k' = k"
  | (failed) i where "i < NPROC" "p_state (pr k i) = UNUSED" "cores k' = (cores k)[i := unused_core]"
      "nextpid k' = nextpid k + 1" "initproc k' = initproc k"
  | (child) i where "i < NPROC" "p_state (pr k i) = UNUSED" "r = nextpid k"
      "cores k' = (cores k)[i := (RUNNABLE, nextpid k, Some me, p_chan (pr k i))]"
      "nextpid k' = nextpid k + 1" "initproc k' = initproc k"
proof (cases "find (\<lambda>i. p_state (pr k i) = UNUSED) [0..<NPROC]")
  case None
  then show ?thesis using assms(1) none by (simp add: kfork_def allocproc_def)
next
  case (Some i)
  note i = find_Some_upt [OF Some]
  obtain np k1 where np: "allocproc tr k = Ret (np, k1)" using assms(1) by (auto simp: kfork_def res_simps)
  obtain k2 where k2: "cores k2 = (cores k)[i := (USED, nextpid k, p_parent (pr k i), p_chan (pr k i))]"
    "nextpid k2 = nextpid k + 1" "initproc k2 = initproc k"
    "np = None \<and> freeproc k2 i = Ret k1 \<or> np = Some i \<and> k1 = k2"
    by (rule allocproc_step [OF np Some assms(2)])
  have fail: thesis if "cores k3 = cores k2" "nextpid k3 = nextpid k2" "initproc k3 = initproc k2" "freeproc k3 i = Ret k'" for k3
    using failed [of i] i freeproc_cores [OF that(4)] that(1-3) k2 by (simp add: same_ids_def)
  have len: "length (procs k2) = length (procs k)" using arg_cong [OF k2(1), of length] by simp
  show ?thesis
  proof (cases np)
    case None
    then show ?thesis using fail [of k2] k2(4) assms(1) np by (auto simp: kfork_def)
  next
    case (Some j)
    then have [simp]: "j = i" "k1 = k2" using k2(4) by auto
    let ?q = "init_swap_file (fork_paging (pr k2 me) (pr k2 i))"
    have "core (pr k2 i) = (USED, nextpid k, p_parent (pr k i), p_chan (pr k i))"
      using k2(1) i assms(2) len nth_cores [of i k2] by simp
    then have q: "p_pid ?q = nextpid k" "p_chan ?q = p_chan (pr k i)" by (simp_all add: core_def init_swap_file_def fork_paging_def Let_def)
    obtain r1 m where m: "uvmcopy (k_mem k2) (p_pagetable (pr k2 me)) (p_pagetable (pr k2 i)) (p_sz (pr k2 me)) = Ret (r1, m)"
      using assms(1) np Some by (auto simp: kfork_def res_simps Let_def)
    show ?thesis
    proof (cases "r1 < 0")
      case True
      then have "freeproc (k2\<lparr>k_mem := m\<rparr>) i = Ret k'" using assms(1) np Some m by (auto simp: kfork_def res_simps Let_def)
      then show ?thesis by (intro fail [of "k2\<lparr>k_mem := m\<rparr>"]) simp_all
    next
      case False
      have "\<exists>m fs files c nm. r = p_pid ?q \<and> k' = set_proc (k2\<lparr>k_mem := m, k_fs := fs\<rparr>) i
          (?q\<lparr>p_ofile := files, p_cwd := c, p_name := nm, p_parent := Some me, p_state := RUNNABLE\<rparr>)"
        using assms(1) np Some m False
        by (simp add: kfork_def Let_def) (elim rbind_RetE, auto split: option.splits prod.splits, intro exI, rule refl)
      then obtain m fs files c nm where e: "r = p_pid ?q" "k' = set_proc (k2\<lparr>k_mem := m, k_fs := fs\<rparr>) i
          (?q\<lparr>p_ofile := files, p_cwd := c, p_name := nm, p_parent := Some me, p_state := RUNNABLE\<rparr>)" by blast
      show ?thesis
        by (rule child [of i]) (use i e k2 q in \<open>simp_all add: core_def\<close>)
    qed
  qed
qed


subsection \<open>Wakeups, exit and wait\<close>

fun wake_core :: "uint64 \<Rightarrow> pcore \<Rightarrow> pcore" where
  "wake_core ch (st, pid, par, c) = (if st = SLEEPING \<and> c = ch then RUNNABLE else st, pid, par, c)"

fun reparented :: "nat option \<Rightarrow> nat \<Rightarrow> pcore \<Rightarrow> pcore" where
  "reparented init me (st, pid, par, c) = (st, pid, if par = Some me then init else par, c)"

fun zombie :: "pcore \<Rightarrow> pcore" where
  "zombie (st, pid, par, c) = (ZOMBIE, pid, par, c)"

fun core_parent :: "pcore \<Rightarrow> nat option" where
  "core_parent (st, pid, par, c) = par"

lemma core_parent_core [simp]: "core_parent (core p) = p_parent p"
  by (simp add: core_def)

lemma wake_wake [simp]: "wake_core ch (wake_core ch c) = wake_core ch c"
  by (cases c) auto

lemma wake_reparented: "reparented i me (wake_core ch c) = wake_core ch (reparented i me c)"
  by (cases c) auto

lemma reparented_none: "core_parent c \<noteq> Some me \<Longrightarrow> reparented i me c = c"
  by (cases c) auto

lemma core_parent_wake [simp]: "core_parent (wake_core ch c) = core_parent c"
  by (cases c) auto

lemma wakeup_core:
  assumes "length (procs k) = NPROC" "j < NPROC"
  shows "core (pr (wakeup me ch k) j) = (if me = Some j then core (pr k j) else wake_core ch (core (pr k j)))"
  using assms by (auto simp: wakeup_def wake_proc_def core_def)

lemma wakeup_fields [simp]: "length (procs (wakeup me ch k)) = NPROC" "initproc (wakeup me ch k) = initproc k" "nextpid (wakeup me ch k) = nextpid k"
  by (simp_all add: wakeup_def)

definition chan_of :: "(nat \<Rightarrow> uint64) \<Rightarrow> nat option \<Rightarrow> uint64" where
  "chan_of addr p = (case p of Some q \<Rightarrow> addr q | None \<Rightarrow> 0)"

lemma reparent_loop_core:
  assumes "length (procs k) = NPROC" "distinct pps" "set pps \<subseteq> {..<NPROC}" "initproc k \<noteq> Some me" "j < NPROC"
  shows "core (pr (reparent_loop addr pps me k) j) =
    (let c = (if j \<in> set pps then reparented (initproc k) me (core (pr k j)) else core (pr k j)) in
     if j \<noteq> me \<and> (\<exists>x \<in> set pps. p_parent (pr k x) = Some me) then wake_core (chan_of addr (initproc k)) c else c)"
    (is "_ = ?rhs k pps")
  using assms
proof (induction pps arbitrary: k)
  case (Cons x xs)
  show ?case
  proof (cases "p_parent (pr k x) = Some me")
    case False
    then have "reparent_loop addr (x # xs) me k = reparent_loop addr xs me k" by simp
    moreover have "reparented (initproc k) me (core (pr k x)) = core (pr k x)" using False by (simp add: reparented_none)
    ultimately show ?thesis using Cons(1) [of k] Cons(2-) False by auto
  next
    case True
    let ?k = "wakeup (Some me) (chan_of addr (initproc k)) (set_proc k x ((pr k x)\<lparr>p_parent := initproc k\<rparr>))"
    have e: "reparent_loop addr (x # xs) me k = reparent_loop addr xs me ?k" using True by (simp add: chan_of_def)
    have c: "core (pr ?k i) = (let c = (if i = x then reparented (initproc k) me (core (pr k i)) else core (pr k i)) in
        if i = me then c else wake_core (chan_of addr (initproc k)) c)" if "i < NPROC" for i
      using that Cons(2) True by (simp add: wakeup_core) (auto simp: core_def Let_def)
    have IH: "core (pr (reparent_loop addr xs me ?k) j) = ?rhs ?k xs"
      using Cons(1) [of ?k] Cons(2-) by simp
    show ?thesis
      unfolding e IH using c [OF Cons(6)] Cons(3) True by (auto simp: Let_def wake_reparented)
  qed
qed (simp add: Let_def)


lemma reparent_fields:
  assumes "length (procs k) = NPROC"
  shows "length (procs (reparent_loop addr pps me k)) = NPROC" "same_ids k (reparent_loop addr pps me k)"
proof -
  have "length (procs (reparent_loop addr pps me k)) = NPROC \<and> same_ids k (reparent_loop addr pps me k)"
    using assms by (induction pps arbitrary: k) (simp_all add: same_ids_def)
  then show "length (procs (reparent_loop addr pps me k)) = NPROC" "same_ids k (reparent_loop addr pps me k)" by simp_all
qed

lemma cores_pr: "cores k' = cores k \<Longrightarrow> j < length (procs k) \<Longrightarrow> core (pr k' j) = core (pr k j)"
  using nth_cores [of j k] nth_cores [of j k'] length_cores [of k] length_cores [of k'] by simp

lemma cores_length: "cores k' = cores k \<Longrightarrow> length (procs k') = length (procs k)"
  using length_cores by metis

lemma set_proc_same_core: "me < length (procs k) \<Longrightarrow> core q = core (pr k me) \<Longrightarrow> cores (set_proc k me q) = cores k"
  by (simp add: list_update_same_conv)

lemma close_files_cores:
  assumes "close_files fds me k = Ret k'" "me < length (procs k)"
  shows "cores k' = cores k \<and> same_ids k k'"
  using assms
proof (induction fds arbitrary: k)
  case (Cons fd fds)
  show ?case
  proof (cases "p_ofile (pr k me) ! fd")
    case None
    then show ?thesis using Cons by simp
  next
    case (Some f)
    obtain fs where fs: "fileclose (k_fs k) f = Ret fs"
      "close_files fds me (set_proc (k\<lparr>k_fs := fs\<rparr>) me ((pr k me)\<lparr>p_ofile := (p_ofile (pr k me))[fd := None]\<rparr>)) = Ret k'"
      using Cons(2) Some by (auto simp: res_simps)
    have "cores (set_proc (k\<lparr>k_fs := fs\<rparr>) me ((pr k me)\<lparr>p_ofile := (p_ofile (pr k me))[fd := None]\<rparr>)) = cores k"
      using Cons(3) set_proc_same_core [of me "k\<lparr>k_fs := fs\<rparr>"] by (simp add: core_def)
    then show ?thesis using Cons(1) [OF fs(2)] Cons(3) by (auto simp: same_ids_def)
  qed
qed (simp add: same_ids_def)

text \<open>
  \<^verbatim>\<open>kexit\<close>: the children pass to the first process, which is woken if there are any; the parent is
  woken; the process becomes a zombie.
\<close>

lemma kexit_step:
  assumes "kexit addr me status k = Ret k'" "length (procs k) = NPROC" "me < NPROC"
  shows "initproc k \<noteq> Some me" "same_ids k k'" "length (procs k') = NPROC"
    "\<And>j. j < NPROC \<Longrightarrow> core (pr k' j) =
       (let c = reparented (initproc k) me (core (pr k j)) in
        if j = me then zombie c
        else wake_core (chan_of addr (core_parent (reparented (initproc k) me (core (pr k me)))))
          (if \<exists>x < NPROC. p_parent (pr k x) = Some me then wake_core (chan_of addr (initproc k)) c else c))"
proof -
  show init: "initproc k \<noteq> Some me" using assms(1) by (auto simp: kexit_def)
  obtain k1 where k1: "close_files [0..<NOFILE] me k = Ret k1" using assms(1) init by (auto simp: kexit_def res_simps)
  have c1: "cores k1 = cores k" "same_ids k k1" using close_files_cores [OF k1] assms(2,3) by simp_all
  have l1: "length (procs k1) = NPROC" using cores_length [OF c1(1)] assms(2) by simp
  obtain fs where k': "k' = (let k = set_proc (k1\<lparr>k_fs := fs\<rparr>) me ((pr k1 me)\<lparr>p_cwd := None\<rparr>);
                  k = reparent addr me k; k = wakeup (Some me) (chan_of addr (p_parent (pr k me))) k in
              set_proc k me ((pr k me)\<lparr>p_xstate := status, p_state := ZOMBIE\<rparr>))"
    using assms(1) init k1 l1 assms(3)
    by (cases "p_cwd (pr k1 me)") (auto simp: kexit_def res_simps Let_def sched_def chan_of_def [symmetric])
  define k2 where "k2 = set_proc (k1\<lparr>k_fs := fs\<rparr>) me ((pr k1 me)\<lparr>p_cwd := None\<rparr>)"
  define k3 where "k3 = reparent addr me k2"
  define k4 where "k4 = wakeup (Some me) (chan_of addr (p_parent (pr k3 me))) k3"
  have e: "k' = set_proc k4 me ((pr k4 me)\<lparr>p_xstate := status, p_state := ZOMBIE\<rparr>)"
    unfolding k' Let_def k2_def k3_def k4_def by (rule refl)
  have c2: "cores k2 = cores k" "same_ids k k2" "length (procs k2) = NPROC"
    using c1 l1 assms(3) set_proc_same_core [of me "k1\<lparr>k_fs := fs\<rparr>"] by (simp_all add: k2_def same_ids_def core_def)
  have p2: "core (pr k2 j) = core (pr k j)" if "j < NPROC" for j using cores_pr [OF c2(1)] that assms(2) by simp
  then have par2: "p_parent (pr k2 j) = p_parent (pr k j)" if "j < NPROC" for j using that by (simp add: core_def)
  have c3: "same_ids k2 k3" "length (procs k3) = NPROC" unfolding k3_def reparent_def by (rule reparent_fields [OF c2(3)])+
  have p3: "core (pr k3 j) = (let c = reparented (initproc k) me (core (pr k j)) in
      if j \<noteq> me \<and> (\<exists>x < NPROC. p_parent (pr k x) = Some me) then wake_core (chan_of addr (initproc k)) c else c)" if "j < NPROC" for j
  proof -
    have "(\<exists>x \<in> set [0..<NPROC]. p_parent (pr k2 x) = Some me) = (\<exists>x < NPROC. p_parent (pr k x) = Some me)"
      using par2 by auto
    then show ?thesis
      unfolding k3_def reparent_def
      using reparent_loop_core [OF c2(3), of "[0..<NPROC]" me j addr] c2(2) init that p2 [OF that]
      by (auto simp: same_ids_def atLeast0LessThan Let_def)
  qed
  have "p_parent (pr k3 me) = core_parent (reparented (initproc k) me (core (pr k me)))"
    using arg_cong [OF p3 [OF assms(3)], of core_parent] by simp
  then have p4: "core (pr k4 j) = (if j = me then core (pr k3 j) else wake_core (chan_of addr (core_parent (reparented (initproc k) me (core (pr k me))))) (core (pr k3 j)))"
    if "j < NPROC" for j using wakeup_core [OF c3(2) that] by (simp add: k4_def)
  show "same_ids k k'" using c2(2) c3(1) by (simp add: e k4_def same_ids_def)
  show "length (procs k') = NPROC" by (simp add: e k4_def)
  show "core (pr k' j) =
       (let c = reparented (initproc k) me (core (pr k j)) in
        if j = me then zombie c
        else wake_core (chan_of addr (core_parent (reparented (initproc k) me (core (pr k me)))))
          (if \<exists>x < NPROC. p_parent (pr k x) = Some me then wake_core (chan_of addr (initproc k)) c else c))" if "j < NPROC" for j
  proof (cases "j = me")
    case True
    have "core (pr k' me) = zombie (core (pr k4 me))" using assms(3) by (simp add: e k4_def core_def)
    then show ?thesis using p4 [OF that] p3 [OF that] True by (simp add: Let_def)
  next
    case False
    then have "core (pr k' j) = core (pr k4 j)" by (simp add: e)
    then show ?thesis using p4 [OF that] p3 [OF that] False by (simp add: Let_def)
  qed
qed


lemma copy_status_cores:
  assumes "copy_status rd me dst x k = Ret (r, k')" "me < length (procs k)"
  shows "cores k' = cores k" "same_ids k k'"
proof -
  have "cores k' = cores k \<and> same_ids k k'"
  proof (cases "dst = 0")
    case False
    obtain m p where mp: "copyout rd (k_mem k) (pr k me) (p_pagetable (pr k me)) dst (status_bytes x) = Ret (r, m, p)"
      "k' = set_proc (k\<lparr>k_mem := m\<rparr>) me p"
      using assms(1) False by (auto simp: copy_status_def res_simps)
    then show ?thesis
      using core_copyout [OF mp(1)] set_proc_same_core [of me "k\<lparr>k_mem := m\<rparr>" p] assms(2) by (simp add: same_ids_def)
  qed (use assms(1) in \<open>auto simp: copy_status_def same_ids_def\<close>)
  then show "cores k' = cores k" "same_ids k k'" by simp_all
qed

lemma kwait_step:
  assumes "kwait addr rd me dst k = Ret (w, k')" "length (procs k) = NPROC" "me < NPROC"
  obtains (reaped) pp where "pp < NPROC" "p_parent (pr k pp) = Some me" "p_state (pr k pp) = ZOMBIE" "w = WReturned (p_pid (pr k pp))"
      "cores k' = (cores k)[pp := unused_core]" "same_ids k k'"
  | (returned) "w = WReturned (-1)" "cores k' = cores k" "same_ids k k'"
  | (sleeping) pp where "w = WSleeping" "pp < NPROC" "p_parent (pr k pp) = Some me"
      "\<And>pp. pp < NPROC \<Longrightarrow> p_parent (pr k pp) = Some me \<Longrightarrow> p_state (pr k pp) \<noteq> ZOMBIE"
      "cores k' = (cores k)[me := (SLEEPING, p_pid (pr k me), p_parent (pr k me), addr me)]" "same_ids k k'"
proof (cases "find (\<lambda>pp. p_parent (pr k pp) = Some me \<and> p_state (pr k pp) = ZOMBIE) [0..<NPROC]")
  case (Some pp)
  note pp = find_Some_upt [OF Some]
  obtain r k1 where k1: "copy_status rd me dst (p_xstate (pr k pp)) k = Ret (r, k1)" using assms(1) Some by (auto simp: kwait_def res_simps)
  note c1 = copy_status_cores [OF k1]
  have "core (pr k1 pp) = core (pr k pp)" using cores_pr [OF c1(1)] pp assms(2,3) by simp
  then have pid: "p_pid (pr k1 pp) = p_pid (pr k pp)" by (simp add: core_def)
  show ?thesis
  proof (cases "r < 0")
    case True
    then show ?thesis using returned assms Some k1 c1 by (simp add: kwait_def)
  next
    case False
    then have "freeproc k1 pp = Ret k'" "w = WReturned (p_pid (pr k pp))" using assms(1) Some k1 pid by (auto simp: kwait_def res_simps)
    then show ?thesis using reaped [of pp] pp freeproc_cores c1 assms(2,3) by (auto simp: same_ids_def)
  qed
next
  case None
  then have nz: "p_state (pr k pp) \<noteq> ZOMBIE" if "pp < NPROC" "p_parent (pr k pp) = Some me" for pp
    using that by (simp add: find_None_upt)
  show ?thesis
  proof (cases "(\<forall>pp \<in> set [0..<NPROC]. p_parent (pr k pp) \<noteq> Some me) \<or> p_killed (pr k me) \<noteq> 0")
    case True
    then show ?thesis using returned assms(1) None by (simp add: kwait_def same_ids_def)
  next
    case False
    then obtain pp where pp: "pp < NPROC" "p_parent (pr k pp) = Some me" by auto
    have "w = WSleeping" "k' = ksleep me (addr me) k"
      using assms None False by (auto simp: kwait_def sched_def ksleep_def split: if_splits)
    then show ?thesis by (intro sleeping [OF _ pp nz]) (simp_all add: ksleep_def core_def same_ids_def)
  qed
qed


section \<open>The invariant of the table\<close>

abbreviation kst :: "pcore \<Rightarrow> procstate" where "kst c \<equiv> fst c"
abbreviation kpid :: "pcore \<Rightarrow> int" where "kpid c \<equiv> fst (snd c)"
abbreviation kpar :: "pcore \<Rightarrow> nat option" where "kpar c \<equiv> fst (snd (snd c))"
abbreviation kch :: "pcore \<Rightarrow> uint64" where "kch c \<equiv> snd (snd (snd c))"

lemma core_sel [simp]: "kst (core p) = p_state p" "kpid (core p) = p_pid p" "kpar (core p) = p_parent p" "kch (core p) = p_chan p"
  by (simp_all add: core_def)

definition alive :: "pcore \<Rightarrow> bool" where
  "alive c \<longleftrightarrow> kst c \<in> {SLEEPING, RUNNABLE, RUNNING}"

definition waiting :: "(nat \<Rightarrow> uint64) \<Rightarrow> nat \<Rightarrow> pcore \<Rightarrow> bool" where
  "waiting addr j c \<longleftrightarrow> kst c = SLEEPING \<and> kch c = addr j"

definition entry_inv :: "int \<Rightarrow> nat \<Rightarrow> (nat \<Rightarrow> pcore) \<Rightarrow> nat \<Rightarrow> bool" where
  "entry_inv n i0 c i \<longleftrightarrow> c i = unused_core \<or>
     (alive (c i) \<or> kst (c i) = ZOMBIE) \<and> 0 < kpid (c i) \<and> kpid (c i) < n \<and>
     (i \<noteq> i0 \<longrightarrow> (\<exists>j < NPROC. kpar (c i) = Some j \<and> alive (c j)))"

text \<open>
  The invariant, on the function from entries to cores: the first process is alive and has no parent; an
  entry is unused and blank, or it holds a process whose identifier was given out and whose parent is alive; identifiers are
  distinct; and no process sleeps in \<^verbatim>\<open>kwait\<close> while it has a zombie child.
\<close>

definition tinv :: "(nat \<Rightarrow> uint64) \<Rightarrow> int \<Rightarrow> nat option \<Rightarrow> (nat \<Rightarrow> pcore) \<Rightarrow> bool" where
  "tinv addr n init c \<longleftrightarrow> 0 < n \<and>
     (\<exists>i0 < NPROC. init = Some i0 \<and> alive (c i0) \<and> kpar (c i0) = None \<and> (\<forall>i < NPROC. entry_inv n i0 c i)) \<and>
     (\<forall>i < NPROC. \<forall>j < NPROC. 0 < kpid (c i) \<longrightarrow> kpid (c i) = kpid (c j) \<longrightarrow> i = j) \<and>
     (\<forall>i < NPROC. \<forall>j < NPROC. kpar (c i) = Some j \<longrightarrow> kst (c i) = ZOMBIE \<longrightarrow> \<not> waiting addr j (c j))"

lemma unused_not_alive [simp]: "\<not> alive unused_core"
  by (simp add: alive_def)

text \<open>Moves between the states of the living, as the scheduler, sleep and wakeup make them.\<close>

lemma tinv_moves:
  assumes inv: "tinv addr n init c"
    and same: "\<And>i. i < NPROC \<Longrightarrow> c' i = c i \<or> alive (c i) \<and> alive (c' i) \<and> kpid (c' i) = kpid (c i) \<and> kpar (c' i) = kpar (c i) \<and>
      (waiting addr i (c' i) \<longrightarrow> waiting addr i (c i) \<or> (\<forall>x < NPROC. kpar (c x) = Some i \<longrightarrow> kst (c x) \<noteq> ZOMBIE))"
  shows "tinv addr n init c'"
proof -
  have pid: "kpid (c' i) = kpid (c i)" "kpar (c' i) = kpar (c i)" "alive (c' i) = alive (c i)" if "i < NPROC" for i
    using same [OF that] by auto
  have zom: "kst (c' i) = ZOMBIE \<longleftrightarrow> kst (c i) = ZOMBIE" if "i < NPROC" for i
    using same [OF that] by (auto simp: alive_def)
  have ent: "entry_inv n i0 c' i" if "i < NPROC" "entry_inv n i0 c i" for i i0
    using that same [OF that(1)] pid zom unfolding entry_inv_def by (metis unused_not_alive)
  have wt: "\<not> waiting addr j (c' j)"
    if "i < NPROC" "j < NPROC" "kpar (c i) = Some j" "kst (c i) = ZOMBIE" "\<not> waiting addr j (c j)" for i j
    using same [OF that(2)] that by metis
  show ?thesis
    using inv ent wt unfolding tinv_def by (simp add: pid zom) (metis pid(2,3))
qed


lemma tinvD:
  assumes "tinv addr n init c"
  obtains i0 where "0 < n" "i0 < NPROC" "init = Some i0" "alive (c i0)" "kpar (c i0) = None" "\<And>i. i < NPROC \<Longrightarrow> entry_inv n i0 c i"
    "\<And>i j. i < NPROC \<Longrightarrow> j < NPROC \<Longrightarrow> 0 < kpid (c i) \<Longrightarrow> kpid (c i) = kpid (c j) \<Longrightarrow> i = j"
    "\<And>i j. i < NPROC \<Longrightarrow> j < NPROC \<Longrightarrow> kpar (c i) = Some j \<Longrightarrow> kst (c i) = ZOMBIE \<Longrightarrow> \<not> waiting addr j (c j)"
  using assms unfolding tinv_def by blast

lemma tinvI:
  assumes "0 < n" "i0 < NPROC" "init = Some i0" "alive (c i0)" "kpar (c i0) = None" "\<And>i. i < NPROC \<Longrightarrow> entry_inv n i0 c i"
    "\<And>i j. i < NPROC \<Longrightarrow> j < NPROC \<Longrightarrow> 0 < kpid (c i) \<Longrightarrow> kpid (c i) = kpid (c j) \<Longrightarrow> i = j"
    "\<And>i j. i < NPROC \<Longrightarrow> j < NPROC \<Longrightarrow> kpar (c i) = Some j \<Longrightarrow> kst (c i) = ZOMBIE \<Longrightarrow> \<not> waiting addr j (c j)"
  shows "tinv addr n init c"
  using assms unfolding tinv_def by blast

lemma tinv_more_pids:
  assumes "tinv addr n init c" "n \<le> n'"
  shows "tinv addr n' init c"
proof (rule tinvD [OF assms(1)])
  fix i0 assume I: "0 < n" "i0 < NPROC" "init = Some i0" "alive (c i0)" "kpar (c i0) = None" "\<And>i. i < NPROC \<Longrightarrow> entry_inv n i0 c i"
    "\<And>i j. i < NPROC \<Longrightarrow> j < NPROC \<Longrightarrow> 0 < kpid (c i) \<Longrightarrow> kpid (c i) = kpid (c j) \<Longrightarrow> i = j"
    "\<And>i j. i < NPROC \<Longrightarrow> j < NPROC \<Longrightarrow> kpar (c i) = Some j \<Longrightarrow> kst (c i) = ZOMBIE \<Longrightarrow> \<not> waiting addr j (c j)"
  show ?thesis
    by (rule tinvI [OF _ I(2-5) _ I(7,8)]) (use I(1,6) assms(2) in \<open>fastforce simp: entry_inv_def\<close>)+
qed

text \<open>A zombie leaves the table; nobody has it as parent.\<close>

lemma tinv_free:
  assumes "tinv addr n init c" "x < NPROC" "\<not> alive (c x)"
  shows "tinv addr n init (c(x := unused_core))"
proof (rule tinvD [OF assms(1)])
  fix i0 assume I: "0 < n" "i0 < NPROC" "init = Some i0" "alive (c i0)" "kpar (c i0) = None" "\<And>i. i < NPROC \<Longrightarrow> entry_inv n i0 c i"
    "\<And>i j. i < NPROC \<Longrightarrow> j < NPROC \<Longrightarrow> 0 < kpid (c i) \<Longrightarrow> kpid (c i) = kpid (c j) \<Longrightarrow> i = j"
    "\<And>i j. i < NPROC \<Longrightarrow> j < NPROC \<Longrightarrow> kpar (c i) = Some j \<Longrightarrow> kst (c i) = ZOMBIE \<Longrightarrow> \<not> waiting addr j (c j)"
  have x0: "x \<noteq> i0" using I(4) assms(3) by auto
  show ?thesis
  proof (rule tinvI [OF I(1-3)])
    show "entry_inv n i0 (c(x := unused_core)) i" if "i < NPROC" for i
      using I(6) [OF that] assms(3) unfolding entry_inv_def by (metis fun_upd_apply)
    show "i = j" if "i < NPROC" "j < NPROC" "0 < kpid ((c(x := unused_core)) i)" "kpid ((c(x := unused_core)) i) = kpid ((c(x := unused_core)) j)" for i j
      using I(7) [OF that(1,2)] that(3,4) by (auto split: if_splits)
    show "\<not> waiting addr j ((c(x := unused_core)) j)"
      if "i < NPROC" "j < NPROC" "kpar ((c(x := unused_core)) i) = Some j" "kst ((c(x := unused_core)) i) = ZOMBIE" for i j
      using I(8) [OF that(1,2)] that(3,4) by (auto simp: waiting_def split: if_splits)
  qed (use I x0 in auto)
qed

text \<open>A child takes an unused entry.\<close>

lemma tinv_new:
  assumes "tinv addr n init c" "x < NPROC" "c x = unused_core" "me < NPROC" "alive (c me)"
  shows "tinv addr (n + 1) init (c(x := (RUNNABLE, n, Some me, 0)))"
proof (rule tinvD [OF assms(1)])
  fix i0 assume I: "0 < n" "i0 < NPROC" "init = Some i0" "alive (c i0)" "kpar (c i0) = None" "\<And>i. i < NPROC \<Longrightarrow> entry_inv n i0 c i"
    "\<And>i j. i < NPROC \<Longrightarrow> j < NPROC \<Longrightarrow> 0 < kpid (c i) \<Longrightarrow> kpid (c i) = kpid (c j) \<Longrightarrow> i = j"
    "\<And>i j. i < NPROC \<Longrightarrow> j < NPROC \<Longrightarrow> kpar (c i) = Some j \<Longrightarrow> kst (c i) = ZOMBIE \<Longrightarrow> \<not> waiting addr j (c j)"
  let ?c = "c(x := (RUNNABLE, n, Some me, 0))"
  have x0: "x \<noteq> i0" "x \<noteq> me" using I(4) assms(3,5) by auto
  have al: "alive (?c i)" if "alive (c i)" for i using that by (simp add: alive_def)
  have lt: "kpid (c i) < n" if "i < NPROC" for i using I(6) [OF that] I(1) by (auto simp: entry_inv_def)
  show ?thesis
  proof (rule tinvI [OF _ I(2,3)])
    show "entry_inv (n + 1) i0 ?c i" if "i < NPROC" for i
    proof (cases "i = x")
      case True
      then show ?thesis using I(1) assms(4,5) x0 by (auto simp: entry_inv_def alive_def)
    next
      case False
      then show ?thesis using I(6) [OF that] al unfolding entry_inv_def by (simp del: fun_upd_apply add: fun_upd_other) fastforce
    qed
    show "i = j" if "i < NPROC" "j < NPROC" "0 < kpid (?c i)" "kpid (?c i) = kpid (?c j)" for i j
      using I(7) [OF that(1,2)] that(3,4) lt [OF that(1)] lt [OF that(2)] by (auto split: if_splits)
    show "\<not> waiting addr j (?c j)" if "i < NPROC" "j < NPROC" "kpar (?c i) = Some j" "kst (?c i) = ZOMBIE" for i j
      using I(8) [OF that(1,2)] that(3,4) by (auto simp: waiting_def split: if_splits)
  qed (use I x0 al in auto)
qed


definition exited :: "(nat \<Rightarrow> uint64) \<Rightarrow> nat option \<Rightarrow> nat \<Rightarrow> (nat \<Rightarrow> pcore) \<Rightarrow> nat \<Rightarrow> pcore" where
  "exited addr init me c j =
     (let r = reparented init me (c j) in
      if j = me then zombie r
      else wake_core (chan_of addr (core_parent (reparented init me (c me))))
        (if \<exists>x < NPROC. kpar (c x) = Some me then wake_core (chan_of addr init) r else r))"

lemma core_fields [simp]:
  "kpid (reparented i me c) = kpid c" "kst (reparented i me c) = kst c" "kch (reparented i me c) = kch c"
  "kpar (reparented i me c) = (if kpar c = Some me then i else kpar c)"
  "kpid (wake_core ch c) = kpid c" "kpar (wake_core ch c) = kpar c" "kch (wake_core ch c) = kch c"
  "kst (wake_core ch c) = (if kst c = SLEEPING \<and> kch c = ch then RUNNABLE else kst c)"
  "kpid (zombie c) = kpid c" "kpar (zombie c) = kpar c" "kst (zombie c) = ZOMBIE" "core_parent c = kpar c"
  by (cases c; simp)+

lemma exited_fields:
  "kpid (exited addr init me c j) = kpid (c j)"
  "kpar (exited addr init me c j) = (if kpar (c j) = Some me then init else kpar (c j))"
  "kst (exited addr init me c j) = ZOMBIE \<longleftrightarrow> j = me \<or> kst (c j) = ZOMBIE"
  "alive (exited addr init me c j) \<longleftrightarrow> j \<noteq> me \<and> alive (c j)"
  "j \<noteq> me \<Longrightarrow> c j = unused_core \<Longrightarrow> exited addr init me c j = unused_core"
  by (auto simp: exited_def Let_def alive_def)

lemma exited_waiting:
  assumes "waiting addr j (exited addr (Some i0) me c j)"
  shows "waiting addr j (c j)" "j \<noteq> me" "kpar (c me) \<noteq> Some me \<Longrightarrow> kpar (c me) \<noteq> Some j"
    "kpar (c me) = Some me \<Longrightarrow> j \<noteq> i0" "x < NPROC \<Longrightarrow> kpar (c x) = Some me \<Longrightarrow> j \<noteq> i0"
  using assms by (auto simp: exited_def Let_def waiting_def chan_of_def split: if_splits)

lemma tinv_exit:
  assumes "tinv addr n init c" "me < NPROC" "alive (c me)" "init \<noteq> Some me"
  shows "tinv addr n init (exited addr init me c)"
proof (rule tinvD [OF assms(1)])
  fix i0 assume I: "0 < n" "i0 < NPROC" "init = Some i0" "alive (c i0)" "kpar (c i0) = None" "\<And>i. i < NPROC \<Longrightarrow> entry_inv n i0 c i"
    "\<And>i j. i < NPROC \<Longrightarrow> j < NPROC \<Longrightarrow> 0 < kpid (c i) \<Longrightarrow> kpid (c i) = kpid (c j) \<Longrightarrow> i = j"
    "\<And>i j. i < NPROC \<Longrightarrow> j < NPROC \<Longrightarrow> kpar (c i) = Some j \<Longrightarrow> kst (c i) = ZOMBIE \<Longrightarrow> \<not> waiting addr j (c j)"
  have m0: "me \<noteq> i0" using assms(4) I(3) by auto
  let ?c = "exited addr init me c"
  note F = exited_fields [where addr = addr and init = init and me = me and c = c]
  show ?thesis
  proof (rule tinvI [OF I(1-3)])
    show "entry_inv n i0 ?c i" if i: "i < NPROC" for i
    proof (cases "c i = unused_core")
      case True
      then have "i \<noteq> me" using assms(3) by auto
      then show ?thesis using F(5) True by (simp add: entry_inv_def)
    next
      case False
      then have E: "alive (c i) \<or> kst (c i) = ZOMBIE" "0 < kpid (c i)" "kpid (c i) < n"
        "i \<noteq> i0 \<longrightarrow> (\<exists>j < NPROC. kpar (c i) = Some j \<and> alive (c j))" using I(6) [OF i] by (auto simp: entry_inv_def)
      have "\<exists>j < NPROC. kpar (?c i) = Some j \<and> alive (?c j)" if "i \<noteq> i0"
        using E(4) that I(2-4) m0 by (cases "kpar (c i) = Some me") (auto simp: exited_fields)
      then show ?thesis using E(1-3) by (auto simp: entry_inv_def F)
    qed
    show "\<not> waiting addr j (?c j)" if ij: "i < NPROC" "j < NPROC" "kpar (?c i) = Some j" "kst (?c i) = ZOMBIE" for i j
    proof
      assume w: "waiting addr j (?c j)"
      note W = exited_waiting [OF w [unfolded I(3)]]
      show False
      proof (cases "kpar (c i) = Some me")
        case True
        then show False using W(5) [OF ij(1)] ij(3) I(3) by (simp add: exited_fields)
      next
        case False
        then show False using I(8) [OF ij(1,2)] W(1,3) ij(3,4) by (auto simp: exited_fields)
      qed
    qed
  qed (use I m0 in \<open>auto simp: exited_fields\<close>)
qed

section \<open>The steps of the system\<close>

definition table_inv :: "(nat \<Rightarrow> uint64) \<Rightarrow> kernel \<Rightarrow> bool" where
  "table_inv addr k \<longleftrightarrow> length (procs k) = NPROC \<and> tinv addr (nextpid k) (initproc k) (\<lambda>i. core (pr k i))"

text \<open>
  A running process calls one of the operations, an interrupt wakes sleepers or a processor picks a
  process.  In between a running process may change memory, the file system and everything of its own
  descriptor but the core (system calls and page faults do).  Sleeping other than in \<^verbatim>\<open>kwait\<close> is on a
  channel that is not the address of the sleeper's descriptor.
\<close>

definition running :: "kernel \<Rightarrow> nat \<Rightarrow> bool" where
  "running k me \<longleftrightarrow> me < NPROC \<and> p_state (pr k me) = RUNNING"

inductive kstep :: "uint64 \<Rightarrow> (nat \<Rightarrow> uint64) \<Rightarrow> file_reader \<Rightarrow> kernel \<Rightarrow> kernel \<Rightarrow> bool"
  for tr addr rd where
  fork: "running k me \<Longrightarrow> kfork tr me k = Ret (r, k') \<Longrightarrow> kstep tr addr rd k k'"
| exit: "running k me \<Longrightarrow> kexit addr me status k = Ret k' \<Longrightarrow> kstep tr addr rd k k'"
| wait: "running k me \<Longrightarrow> kwait addr rd me dst k = Ret (w, k') \<Longrightarrow> kstep tr addr rd k k'"
| sleep: "running k me \<Longrightarrow> chan \<noteq> addr me \<Longrightarrow> kstep tr addr rd k (ksleep me chan k)"
| awake: "running k me \<Longrightarrow> kstep tr addr rd k (after_sleep me k)"
| yield: "running k me \<Longrightarrow> kstep tr addr rd k (yield_cpu me k)"
| wakeup: "kstep tr addr rd k (wakeup me chan k)"
| schedule: "scheduler_next i k = Some (j, k') \<Longrightarrow> kstep tr addr rd k k'"
| kill: "kstep tr addr rd k (snd (kkill pid k))"
| setkilled: "running k me \<Longrightarrow> kstep tr addr rd k (setkilled me k)"
| work: "running k me \<Longrightarrow> core q = core (pr k me) \<Longrightarrow> kstep tr addr rd k (set_proc (k\<lparr>k_mem := m, k_fs := fs\<rparr>) me q)"


lemma table_inv_update:
  assumes "cores k' = (cores k)[i := x]" "length (procs k) = NPROC" "tinv addr (nextpid k') (initproc k') ((\<lambda>j. core (pr k j))(i := x))"
  shows "table_inv addr k'"
proof -
  have len: "length (procs k') = NPROC" using arg_cong [OF assms(1), of length] assms(2) by simp
  have "core (pr k' j) = ((\<lambda>j. core (pr k j))(i := x)) j" if "j < NPROC" for j
    using arg_cong [OF assms(1), of "\<lambda>l. l ! j"] that len assms(2) by (cases "i = j") simp_all
  then have "tinv addr (nextpid k') (initproc k') (\<lambda>j. core (pr k' j))" by (intro tinv_moves [OF assms(3)]) auto
  then show ?thesis by (simp add: table_inv_def len)
qed

lemma table_inv_cores:
  assumes "table_inv addr k" "cores k' = cores k" "same_ids k k'"
  shows "table_inv addr k'"
proof -
  have T: "length (procs k) = NPROC" "tinv addr (nextpid k) (initproc k) (\<lambda>i. core (pr k i))" using assms(1) by (simp_all add: table_inv_def)
  have "tinv addr (nextpid k) (initproc k) (\<lambda>i. core (pr k' i))"
    by (rule tinv_moves [OF T(2)]) (use cores_pr [OF assms(2)] T(1) in simp)
  then show ?thesis using assms(3) cores_length [OF assms(2)] T(1) by (simp add: table_inv_def same_ids_def)
qed

lemma table_inv_move:
  assumes "table_inv addr k" "same_ids k k'" "i < NPROC" "cores k' = (cores k)[i := x]"
    "alive (core (pr k i))" "alive x" "kpid x = p_pid (pr k i)" "kpar x = p_parent (pr k i)"
    "waiting addr i x \<Longrightarrow> (\<forall>j < NPROC. p_parent (pr k j) = Some i \<longrightarrow> p_state (pr k j) \<noteq> ZOMBIE)"
  shows "table_inv addr k'"
proof (rule table_inv_update [OF assms(4)])
  show "length (procs k) = NPROC" using assms(1) by (simp add: table_inv_def)
  have "tinv addr (nextpid k) (initproc k) (\<lambda>j. core (pr k j))" using assms(1) by (simp add: table_inv_def)
  then show "tinv addr (nextpid k') (initproc k') ((\<lambda>j. core (pr k j))(i := x))"
    using assms(2) by (simp add: same_ids_def) (rule tinv_moves, assumption, use assms(5-9) in \<open>auto simp: core_def\<close>)
qed

lemma running_alive: "running k me \<Longrightarrow> alive (core (pr k me))"
  by (simp add: running_def alive_def core_def)

lemma table_inv_entry:
  assumes "table_inv addr k" "i < NPROC" "p_state (pr k i) = UNUSED"
  shows "core (pr k i) = unused_core"
proof -
  obtain i0 where "entry_inv (nextpid k) i0 (\<lambda>i. core (pr k i)) i" using assms(1,2) by (auto simp: table_inv_def tinv_def)
  then show ?thesis using assms(3) by (auto simp: entry_inv_def alive_def)
qed

lemma table_inv_fork:
  assumes "table_inv addr k" "running k me" "kfork tr me k = Ret (r, k')"
  shows "table_inv addr k'"
proof -
  have T: "length (procs k) = NPROC" "tinv addr (nextpid k) (initproc k) (\<lambda>i. core (pr k i))" using assms(1) by (simp_all add: table_inv_def)
  show ?thesis
  proof (cases rule: kfork_step [OF assms(3) T(1)])
    case 1
    then show ?thesis using assms(1) by simp
  next
    case (2 i)
    have "tinv addr (nextpid k + 1) (initproc k) (\<lambda>i. core (pr k i))" using tinv_more_pids [OF T(2)] by simp
    then have "tinv addr (nextpid k + 1) (initproc k) ((\<lambda>i. core (pr k i))(i := unused_core))"
      by (rule tinv_free) (use 2 table_inv_entry [OF assms(1)] in simp_all)
    then show ?thesis using 2 by (intro table_inv_update [OF 2(3) T(1)]) simp
  next
    case (3 i)
    have "core (pr k i) = unused_core" using table_inv_entry [OF assms(1) 3(1,2)] .
    then have "tinv addr (nextpid k + 1) (initproc k) ((\<lambda>i. core (pr k i))(i := (RUNNABLE, nextpid k, Some me, 0)))" "p_chan (pr k i) = 0"
      using tinv_new [OF T(2) 3(1)] assms(2) running_alive [OF assms(2)] by (simp_all add: running_def core_def)
    then show ?thesis using 3 by (intro table_inv_update [OF 3(4) T(1)]) simp
  qed
qed

lemma table_inv_exit:
  assumes "table_inv addr k" "running k me" "kexit addr me status k = Ret k'"
  shows "table_inv addr k'"
proof -
  have T: "length (procs k) = NPROC" "tinv addr (nextpid k) (initproc k) (\<lambda>i. core (pr k i))" using assms(1) by (simp_all add: table_inv_def)
  have me: "me < NPROC" using assms(2) by (simp add: running_def)
  note K = kexit_step [OF assms(3) T(1) me]
  have "core (pr k' j) = exited addr (initproc k) me (\<lambda>i. core (pr k i)) j" if "j < NPROC" for j
    using K(4) [OF that] by (simp add: exited_def Let_def)
  then have "tinv addr (nextpid k) (initproc k) (\<lambda>j. core (pr k' j))"
    by (intro tinv_moves [OF tinv_exit [OF T(2) me running_alive [OF assms(2)] K(1)]]) auto
  then show ?thesis using K(2,3) by (simp add: table_inv_def same_ids_def)
qed

lemma table_inv_wait:
  assumes "table_inv addr k" "running k me" "kwait addr rd me dst k = Ret (w, k')"
  shows "table_inv addr k'"
proof -
  have T: "length (procs k) = NPROC" "tinv addr (nextpid k) (initproc k) (\<lambda>i. core (pr k i))" using assms(1) by (simp_all add: table_inv_def)
  have me: "me < NPROC" using assms(2) by (simp add: running_def)
  show ?thesis
  proof (cases rule: kwait_step [OF assms(3) T(1) me])
    case (1 pp)
    have "\<not> alive (core (pr k pp))" using 1(3) by (simp add: alive_def core_def)
    note tinv_free [OF T(2) 1(1) this]
    then show ?thesis using 1(6) by (intro table_inv_update [OF 1(5) T(1)]) (simp add: same_ids_def)
  next
    case 2
    then show ?thesis using table_inv_cores [OF assms(1)] by blast
  next
    case (3 pp)
    show ?thesis
      by (rule table_inv_move [OF assms(1) 3(6) me 3(5) running_alive [OF assms(2)]]) (use 3(4) in \<open>auto simp: alive_def\<close>)
  qed
qed


lemma table_inv_wakeup:
  assumes "table_inv addr k"
  shows "table_inv addr (wakeup me ch k)"
proof -
  have T: "length (procs k) = NPROC" "tinv addr (nextpid k) (initproc k) (\<lambda>i. core (pr k i))" using assms by (simp_all add: table_inv_def)
  have "tinv addr (nextpid k) (initproc k) (\<lambda>i. core (pr (wakeup me ch k) i))"
  proof (rule tinv_moves [OF T(2)], goal_cases)
    case (1 i)
    show ?case
      using wakeup_core [OF T(1) 1, of me ch] by (auto simp: alive_def waiting_def core_def)
  qed
  then show ?thesis by (simp add: table_inv_def)
qed

lemma table_inv_kill:
  assumes "table_inv addr k"
  shows "table_inv addr (snd (kkill pid k))"
proof (cases "find (\<lambda>i. p_pid (pr k i) = pid) [0..<NPROC]")
  case None
  then show ?thesis using assms by (simp add: kkill_def)
next
  case (Some i)
  have i: "i < NPROC" "i < length (procs k)" using find_Some_upt [OF Some] assms by (simp_all add: table_inv_def)
  show ?thesis
  proof (cases "p_state (pr k i) = SLEEPING")
    case True
    show ?thesis
      by (rule table_inv_move [OF assms _ i(1)]) (use True Some in \<open>auto simp: kkill_def same_ids_def alive_def waiting_def core_def\<close>)
  next
    case False
    then have "cores (snd (kkill pid k)) = cores k" "same_ids k (snd (kkill pid k))"
      using Some set_proc_same_core [OF i(2)] by (simp_all add: kkill_def core_def same_ids_def)
    then show ?thesis by (rule table_inv_cores [OF assms])
  qed
qed

lemma table_inv_kstep:
  assumes "kstep tr addr rd k k'" "table_inv addr k"
  shows "table_inv addr k'"
  using assms
proof cases
  case (sleep me chan)
  then show ?thesis
    by (intro table_inv_move [OF assms(2)]) (auto simp: running_def running_alive ksleep_def same_ids_def alive_def waiting_def core_def)
next
  case (awake me)
  then show ?thesis
    by (intro table_inv_move [OF assms(2)]) (auto simp: running_def running_alive after_sleep_def same_ids_def alive_def waiting_def core_def)
next
  case (yield me)
  then show ?thesis
    by (intro table_inv_move [OF assms(2)]) (auto simp: running_def running_alive yield_cpu_def same_ids_def alive_def waiting_def core_def)
next
  case (schedule i j)
  then have j: "j < NPROC" "p_state (pr k j) = RUNNABLE" "k' = set_proc k j ((pr k j)\<lparr>p_state := RUNNING\<rparr>)"
    by (auto simp: scheduler_next_def split: option.splits dest: find_Some_upt)
  show ?thesis
    by (rule table_inv_move [OF assms(2) _ j(1)]) (use j in \<open>auto simp: same_ids_def alive_def waiting_def core_def\<close>)
next
  case (setkilled me)
  then have "cores k' = cores k"
    using set_proc_same_core [of me k "(pr k me)\<lparr>p_killed := 1\<rparr>"] assms(2) by (simp add: setkilled_def running_def table_inv_def core_eq)
  then show ?thesis using table_inv_cores [OF assms(2)] setkilled by (simp add: setkilled_def same_ids_def)
next
  case (work me q fs m)
  then have "cores k' = cores k"
    using set_proc_same_core [of me "k\<lparr>k_mem := m, k_fs := fs\<rparr>" q] assms(2) by (simp add: running_def table_inv_def)
  then show ?thesis using table_inv_cores [OF assms(2)] work by (simp add: same_ids_def)
next
  case (wakeup me chan)
  then show ?thesis using table_inv_wakeup [OF assms(2)] by simp
next
  case (kill pid)
  then show ?thesis using table_inv_kill [OF assms(2)] by simp
qed (erule (2) table_inv_fork table_inv_exit table_inv_wait)+

text \<open>The table at boot: static storage is zero and the first identifier is 1.\<close>

definition zeroed :: "kernel \<Rightarrow> bool" where
  "zeroed k \<longleftrightarrow> length (procs k) = NPROC \<and> nextpid k = 1 \<and> (\<forall>i < NPROC. p_pid (pr k i) = 0 \<and> p_parent (pr k i) = None \<and> p_chan (pr k i) = 0)"

lemma boot_table_inv:
  assumes "zeroed k" "userinit tr (procinit k) = Ret k'"
  shows "table_inv addr k'"
proof -
  let ?k = "procinit k"
  have L: "length (procs ?k) = NPROC" "nextpid ?k = 1" using assms(1) by (simp_all add: procinit_def zeroed_def)
  have C: "core (pr ?k i) = unused_core" if "i < NPROC" for i using assms(1) that by (simp add: procinit_def zeroed_def core_def)
  obtain p k1 where k1: "allocproc tr ?k = Ret (Some p, k1)" using assms(2) by (auto simp: userinit_def res_simps split: option.splits)
  obtain i where i: "find (\<lambda>i. p_state (pr ?k i) = UNUSED) [0..<NPROC] = Some i"
    using k1 by (cases "find (\<lambda>i. p_state (pr ?k i) = UNUSED) [0..<NPROC]") (auto simp: allocproc_def)
  have iN: "i < NPROC" using find_Some_upt [OF i] by simp
  obtain k2 where "cores k2 = (cores ?k)[i := (USED, nextpid ?k, p_parent (pr ?k i), p_chan (pr ?k i))]"
    "nextpid k2 = nextpid ?k + 1" "Some p = None \<and> freeproc k2 i = Ret k1 \<or> Some p = Some i \<and> k1 = k2"
    by (rule allocproc_step [OF k1 i L(1)]) blast
  then have c1: "cores k1 = (cores ?k)[i := (USED, 1, None, 0)]" "nextpid k1 = 2" "p = i"
    using C [OF iN] L by (auto simp: core_def)
  have l1: "length (procs k1) = NPROC" using arg_cong [OF c1(1), of length] L by simp
  have ci: "core (pr k1 i) = (USED, 1, None, 0)" using arg_cong [OF c1(1), of "\<lambda>l. l ! i"] iN l1 L by simp
  obtain ip fs where k': "k' = set_proc (k1\<lparr>initproc := Some i, k_fs := fs\<rparr>) i ((pr k1 i)\<lparr>p_cwd := ip, p_state := RUNNABLE\<rparr>)"
    using assms(2) k1 c1(3) by (auto simp: userinit_def res_simps)
  have "cores k' = (cores ?k)[i := (RUNNABLE, 1, None, 0)]" using c1(1) ci by (simp add: k' core_def)
  then show ?thesis
  proof (rule table_inv_update [OF _ L(1)])
    show "tinv addr (nextpid k') (initproc k') ((\<lambda>j. core (pr ?k j))(i := (RUNNABLE, 1, None, 0)))"
      by (rule tinvI [OF _ iN]) (use C c1(2) in \<open>auto simp: k' entry_inv_def alive_def split: if_splits\<close>)
  qed
qed


interpretation kt: invariant_system "\<lambda>k. table_inv addr k \<or> (\<exists>k1. zeroed k1 \<and> userinit tr (procinit k1) = Ret k)" "kstep tr addr rd" "table_inv addr"
  for tr addr rd
  by unfold_locales (auto intro: boot_table_inv table_inv_kstep)

lemma alive_core: "alive (core p) \<longleftrightarrow> p_state p \<in> {SLEEPING, RUNNABLE, RUNNING}"
  by (simp add: alive_def)

section \<open>Properties\<close>

text \<open>
  C38: in every state the kernel reaches from boot, or from any well-formed process table, by any
  interleaving of fork, exit, wait, sleep, wakeup, yield, scheduling, kill and other work of running
  processes: the first process has not died; every other process, zombies included, has a parent that
  is neither unused nor a zombie, so somebody can still wait for it; the identifiers of processes are
  positive, distinct and smaller than \<^verbatim>\<open>nextpid\<close>; a free entry is blank; and no process sleeps in
  \<^verbatim>\<open>kwait\<close> while one of its children is a zombie, that is, no wakeup by an exiting child is lost.
\<close>

theorem process_table_invariant:
  assumes start: "table_inv addr k0 \<or> (\<exists>k1. zeroed k1 \<and> userinit tr (procinit k1) = Ret k0)"
    and steps: "rtranclp (kstep tr addr rd) k0 k"
  shows "(\<exists>i0 < NPROC. initproc k = Some i0 \<and> p_state (pr k i0) \<in> {SLEEPING, RUNNABLE, RUNNING}) \<and>
    (\<forall>i < NPROC. if p_state (pr k i) = UNUSED then p_pid (pr k i) = 0 \<and> p_parent (pr k i) = None
       else 0 < p_pid (pr k i) \<and> p_pid (pr k i) < nextpid k \<and>
         (initproc k = Some i \<or> (\<exists>j < NPROC. p_parent (pr k i) = Some j \<and> p_state (pr k j) \<in> {SLEEPING, RUNNABLE, RUNNING}))) \<and>
    (\<forall>i < NPROC. \<forall>j < NPROC. p_state (pr k i) \<noteq> UNUSED \<longrightarrow> p_pid (pr k i) = p_pid (pr k j) \<longrightarrow> i = j) \<and>
    (\<forall>i < NPROC. \<forall>j < NPROC. p_parent (pr k i) = Some j \<longrightarrow> p_state (pr k i) = ZOMBIE \<longrightarrow>
       \<not> (p_state (pr k j) = SLEEPING \<and> p_chan (pr k j) = addr j))"
proof -
  have "table_inv addr k" by (rule kt.reachable_inv [OF steps start])
  then have "tinv addr (nextpid k) (initproc k) (\<lambda>i. core (pr k i))" by (simp add: table_inv_def)
  then obtain i0 where I: "i0 < NPROC" "initproc k = Some i0" "alive (core (pr k i0))"
    "\<And>i. i < NPROC \<Longrightarrow> entry_inv (nextpid k) i0 (\<lambda>i. core (pr k i)) i"
    "\<And>i j. i < NPROC \<Longrightarrow> j < NPROC \<Longrightarrow> 0 < p_pid (pr k i) \<Longrightarrow> p_pid (pr k i) = p_pid (pr k j) \<Longrightarrow> i = j"
    "\<And>i j. i < NPROC \<Longrightarrow> j < NPROC \<Longrightarrow> p_parent (pr k i) = Some j \<Longrightarrow> p_state (pr k i) = ZOMBIE \<Longrightarrow> \<not> waiting addr j (core (pr k j))"
    by (auto simp: tinv_def)
  have used: "0 < p_pid (pr k i)" "p_pid (pr k i) < nextpid k"
      "i \<noteq> i0 \<Longrightarrow> \<exists>j < NPROC. p_parent (pr k i) = Some j \<and> alive (core (pr k j))" if "i < NPROC" "p_state (pr k i) \<noteq> UNUSED" for i
    using I(4) [OF that(1)] that(2) by (auto simp: entry_inv_def core_eq)
  have blank: "p_pid (pr k i) = 0 \<and> p_parent (pr k i) = None" if "i < NPROC" "p_state (pr k i) = UNUSED" for i
    using I(4) [OF that(1)] that(2) by (auto simp: entry_inv_def core_eq alive_def)
  show ?thesis
  proof (intro conjI allI impI)
    show "\<exists>i0 < NPROC. initproc k = Some i0 \<and> p_state (pr k i0) \<in> {SLEEPING, RUNNABLE, RUNNING}" using I(1-3) by (auto simp: alive_core)
  next
    fix i assume "i < NPROC"
    then show "if p_state (pr k i) = UNUSED then p_pid (pr k i) = 0 \<and> p_parent (pr k i) = None
       else 0 < p_pid (pr k i) \<and> p_pid (pr k i) < nextpid k \<and>
         (initproc k = Some i \<or> (\<exists>j < NPROC. p_parent (pr k i) = Some j \<and> p_state (pr k j) \<in> {SLEEPING, RUNNABLE, RUNNING}))"
      using used [of i] blank [of i] I(2) by (auto simp: alive_core)
  next
    fix i j assume "i < NPROC" "j < NPROC" "p_state (pr k i) \<noteq> UNUSED" "p_pid (pr k i) = p_pid (pr k j)"
    then show "i = j" using I(5) used(1) by blast
  next
    fix i j assume "i < NPROC" "j < NPROC" "p_parent (pr k i) = Some j" "p_state (pr k i) = ZOMBIE"
    then show "\<not> (p_state (pr k j) = SLEEPING \<and> p_chan (pr k j) = addr j)" using I(6) by (simp add: waiting_def)
  qed
qed


text \<open>The first process runs and has one child, which is ready.\<close>

definition demo_kernel :: kernel where
  "demo_kernel = \<lparr>k_mem = to_machine demo_kmem, k_fs = demo_files,
     procs = demo_proc\<lparr>p_pid := 1, p_parent := None\<rparr> # demo_proc\<lparr>p_state := RUNNABLE, p_pid := 2, p_parent := Some 0\<rparr>
       # replicate 62 (demo_proc\<lparr>p_state := UNUSED, p_pid := 0, p_parent := None\<rparr>),
     nextpid = 3, initproc = Some 0\<rparr>"

lemma demo_kernel_core:
  "i < NPROC \<Longrightarrow> core (pr demo_kernel i) =
    (if i = 0 then (RUNNING, 1, None, 0) else if i = 1 then (RUNNABLE, 2, Some 0, 0) else unused_core)"
  by (auto simp: demo_kernel_def demo_proc_def core_def nth_Cons' NPROC_def)

lemma demo_table_inv: "table_inv addr demo_kernel"
proof -
  let ?c = "\<lambda>i :: nat. if i = 0 then (RUNNING, 1, None, 0) else if i = 1 then (RUNNABLE, 2, Some 0, 0) else unused_core"
  have "tinv addr 3 (Some 0) ?c"
    by (rule tinvI [of _ 0]) (auto simp: NPROC_def entry_inv_def alive_def split: if_splits)
  then have "tinv addr 3 (Some 0) (\<lambda>i. core (pr demo_kernel i))"
    by (rule tinv_moves) (simp add: demo_kernel_core)
  then show ?thesis by (simp add: table_inv_def) (simp add: demo_kernel_def NPROC_def)
qed

theorem process_table_invariant_witness:
  "\<exists>k i0. rtranclp (kstep 0 of_nat no_file) demo_kernel k \<and> p_state (pr k 0) = SLEEPING \<and> p_state (pr k 1) = RUNNABLE \<and>
    initproc k = Some i0 \<and> p_state (pr k i0) \<in> {SLEEPING, RUNNABLE, RUNNING}"
proof -
  let ?k = "ksleep 0 5 demo_kernel"
  have "kstep 0 of_nat no_file demo_kernel ?k"
    by (rule kstep.sleep) (simp_all add: running_def demo_kernel_def demo_proc_def NPROC_def)
  then have "rtranclp (kstep 0 of_nat no_file) demo_kernel ?k" by (rule r_into_rtranclp)
  moreover note process_table_invariant [OF disjI1 [OF demo_table_inv] this]
  moreover have "p_state (pr ?k 0) = SLEEPING" "p_state (pr ?k 1) = RUNNABLE"
    by (simp_all add: ksleep_def set_proc_def demo_kernel_def)
  ultimately show ?thesis by blast
qed

end
