(* ===== verification/Sysproc.thy ===== *)
theory Sysproc
  imports Process Cstring
begin

text \<open>
  System calls on processes, \<^verbatim>\<open>sysproc.c\<close>, and the fetching of their arguments, \<^verbatim>\<open>syscall.c\<close>.  The saved
  registers of a process lie in its trapframe page.  A call that does not return to its caller
  (\<^verbatim>\<open>exit\<close>) or may sleep (\<^verbatim>\<open>wait\<close>, \<^verbatim>\<open>pause\<close>) is the operation of \<^verbatim>\<open>proc.c\<close> or one round of its loop.
\<close>

section \<open>Arguments\<close>

definition argraw :: "kernel \<Rightarrow> nat \<Rightarrow> nat \<Rightarrow> uint64 res" where
  "argraw k me n =
     (if n \<le> 5 then Ret (load64 (mem (k_mem k)) (p_trapframe (pr k me) + of_nat (112 + 8 * n))) else Panic ''argraw'')"

definition argint :: "kernel \<Rightarrow> nat \<Rightarrow> nat \<Rightarrow> int res" where
  "argint k me n = rbind (argraw k me n) (\<lambda>x. Ret (to_int x))"

definition argaddr :: "kernel \<Rightarrow> nat \<Rightarrow> nat \<Rightarrow> uint64 res" where
  "argaddr k me n = argraw k me n"

text \<open>The value \<^verbatim>\<open>fetchaddr\<close> stores is used by its callers only when it returns 0.\<close>

definition le64 :: "uint8 list \<Rightarrow> uint64" where
  "le64 bs = foldr (\<lambda>b w. ucast b OR push_bit 8 w) bs 0"

definition fetchaddr :: "file_reader \<Rightarrow> nat \<Rightarrow> uint64 \<Rightarrow> kernel \<Rightarrow> (int \<times> uint64 \<times> kernel) res" where
  "fetchaddr rd me addr k =
     (let p = pr k me in
      if addr \<ge> p_sz p \<or> addr + 8 > p_sz p then Ret (-1, 0, k)
      else rbind (copyin rd (k_mem k) p (p_pagetable p) addr 8) (\<lambda>(r, bs, m, p).
        let k = set_proc (k\<lparr>k_mem := m\<rparr>) me p in
        if r \<noteq> 0 then Ret (-1, le64 bs, k) else Ret (0, le64 bs, k)))"

definition fetchstr :: "file_reader \<Rightarrow> nat \<Rightarrow> uint64 \<Rightarrow> nat \<Rightarrow> kernel \<Rightarrow> (int \<times> uint8 list \<times> kernel) res" where
  "fetchstr rd me addr max_len k =
     rbind (copyinstr rd (k_mem k) (pr k me) (p_pagetable (pr k me)) addr max_len) (\<lambda>(r, buf, m, p).
       let k = set_proc (k\<lparr>k_mem := m\<rparr>) me p in
       if r < 0 then Ret (-1, buf, k) else Ret (int (strlen buf), buf, k))"

definition argstr :: "file_reader \<Rightarrow> nat \<Rightarrow> nat \<Rightarrow> nat \<Rightarrow> kernel \<Rightarrow> (int \<times> uint8 list \<times> kernel) res" where
  "argstr rd me n max_len k = rbind (argaddr k me n) (\<lambda>addr. fetchstr rd me addr max_len k)"

section \<open>Calls\<close>

definition sys_exit :: "(nat \<Rightarrow> uint64) \<Rightarrow> nat \<Rightarrow> kernel \<Rightarrow> kernel res" where
  "sys_exit addr me k = rbind (argint k me 0) (\<lambda>n. kexit addr me n k)"

definition sys_getpid :: "nat \<Rightarrow> kernel \<Rightarrow> uint64" where
  "sys_getpid me k = of_int (p_pid (pr k me))"

definition sys_fork :: "uint64 \<Rightarrow> nat \<Rightarrow> kernel \<Rightarrow> (uint64 \<times> kernel) res" where
  "sys_fork trampoline me k = rbind (kfork trampoline me k) (\<lambda>(r, k). Ret (of_int r, k))"

definition sys_wait :: "(nat \<Rightarrow> uint64) \<Rightarrow> file_reader \<Rightarrow> nat \<Rightarrow> kernel \<Rightarrow> (wait_result \<times> kernel) res" where
  "sys_wait addr rd me k = rbind (argaddr k me 0) (\<lambda>p. kwait addr rd me p k)"

definition sys_sbrk :: "nat \<Rightarrow> kernel \<Rightarrow> (uint64 \<times> kernel) res" where
  "sys_sbrk me k =
     rbind (argint k me 0) (\<lambda>n.
       let addr = p_sz (pr k me) in
       rbind (growproc (k_mem k) (pr k me) n) (\<lambda>(r, m, p).
         let k = set_proc (k\<lparr>k_mem := m\<rparr>) me p in
         if r < 0 then Ret (-1, k) else Ret (addr, k)))"

text \<open>
  One test of the loop of \<^verbatim>\<open>sys_pause\<close>, at tick \<open>ticks\<close> for a call that began at \<open>ticks0\<close>: it returned, or
  sleeps on the tick counter \<open>chan\<close>.  The \<^verbatim>\<open>int\<close> argument is compared as unsigned.
\<close>

definition pause_round :: "nat \<Rightarrow> uint64 \<Rightarrow> uint32 \<Rightarrow> uint32 \<Rightarrow> int \<Rightarrow> kernel \<Rightarrow> (wait_result \<times> kernel) res" where
  "pause_round me chan ticks0 ticks n k =
     (let n = (if n < 0 then 0 else n) in
      if ticks - ticks0 < of_int n then
        if killed me k \<noteq> 0 then Ret (WReturned (-1), k)
        else rbind (sched me (ksleep me chan k)) (\<lambda>k. Ret (WSleeping, k))
      else Ret (WReturned 0, k))"

definition sys_pause :: "nat \<Rightarrow> uint64 \<Rightarrow> uint32 \<Rightarrow> kernel \<Rightarrow> (wait_result \<times> kernel) res" where
  "sys_pause me chan ticks k = rbind (argint k me 0) (\<lambda>n. pause_round me chan ticks ticks n k)"

definition sys_kill :: "nat \<Rightarrow> kernel \<Rightarrow> (uint64 \<times> kernel) res" where
  "sys_kill me k = rbind (argint k me 0) (\<lambda>pid. let (r, k) = kkill pid k in Ret (of_int r, k))"

definition sys_uptime :: "uint32 \<Rightarrow> uint64" where
  "sys_uptime ticks = ucast ticks"

section \<open>Memory statistics\<close>

definition MAX_PAGES_INFO :: nat where "MAX_PAGES_INFO = 128"

text \<open>The states \<^verbatim>\<open>UNMAPPED\<close>, \<^verbatim>\<open>RESIDENT\<close> and \<^verbatim>\<open>SWAPPED\<close> of a page.\<close>

datatype page_state = PS_UNMAPPED | PS_RESIDENT | PS_SWAPPED

primrec state_code :: "page_state \<Rightarrow> int" where
  "state_code PS_UNMAPPED = 0" | "state_code PS_RESIDENT = 1" | "state_code PS_SWAPPED = 2"

record page_stat =
  ps_va :: uint32
  ps_state :: int
  ps_is_dirty :: int
  ps_seq :: int
  ps_swap_slot :: int

record proc_mem_stat =
  ms_pid :: int
  ms_num_pages_total :: int
  ms_num_resident_pages :: int
  ms_num_swapped_pages :: int
  ms_next_fifo_seq :: int
  ms_pages :: "page_stat list"

definition page_stat_of :: "proc \<Rightarrow> uint64 \<Rightarrow> page_stat" where
  "page_stat_of p va =
     (let base = \<lparr>ps_va = ucast va, ps_state = state_code PS_UNMAPPED, ps_is_dirty = 0, ps_seq = 0, ps_swap_slot = -1\<rparr> in
      case find (\<lambda>i. rp_va (p_resident_pages p ! i) = va) [0..<p_num_resident p] of
        Some i \<Rightarrow> let e = p_resident_pages p ! i in
          base\<lparr>ps_state := state_code PS_RESIDENT, ps_is_dirty := rp_is_dirty e, ps_seq := rp_seq e, ps_swap_slot := rp_swap_slot e\<rparr>
      | None \<Rightarrow>
          (case find (\<lambda>i. sp_va (p_swapped_pages p ! i) = va) [0..<p_num_swapped p] of
             Some i \<Rightarrow> base\<lparr>ps_state := state_code PS_SWAPPED, ps_swap_slot := sp_slot (p_swapped_pages p ! i)\<rparr>
           | None \<Rightarrow> base))"

text \<open>The loop over the pages, with at most \<open>n\<close> entries left.\<close>

primrec stat_loop :: "nat \<Rightarrow> proc \<Rightarrow> uint64 \<Rightarrow> page_stat list" where
  "stat_loop 0 p va = []"
| "stat_loop (Suc n) p va = (if va < p_sz p then page_stat_of p va # stat_loop n p (va + PGSIZE) else [])"

text \<open>\<open>junk\<close> is what the local variable holds before the call; entries that are not filled keep it.\<close>

definition mem_stat :: "page_stat list \<Rightarrow> proc \<Rightarrow> proc_mem_stat" where
  "mem_stat junk p =
     (let pages = stat_loop MAX_PAGES_INFO p 0 in
      \<lparr>ms_pid = p_pid p, ms_num_pages_total = to_int (PGROUNDUP (p_sz p) div PGSIZE), ms_num_resident_pages = int (p_num_resident p),
       ms_num_swapped_pages = int (p_num_swapped p), ms_next_fifo_seq = to_int (p_pf_seq p + 1),
       ms_pages = pages @ drop (length pages) junk\<rparr>)"

definition int_bytes :: "int \<Rightarrow> uint8 list" where
  "int_bytes x = put32 (replicate 4 0) 0 (word_of_int x)"

definition page_stat_bytes :: "page_stat \<Rightarrow> uint8 list" where
  "page_stat_bytes e = put32 (replicate 4 0) 0 (ps_va e) @ int_bytes (ps_state e) @ int_bytes (ps_is_dirty e) @ int_bytes (ps_seq e) @
     int_bytes (ps_swap_slot e)"

definition mem_stat_bytes :: "proc_mem_stat \<Rightarrow> uint8 list" where
  "mem_stat_bytes st = int_bytes (ms_pid st) @ int_bytes (ms_num_pages_total st) @ int_bytes (ms_num_resident_pages st) @
     int_bytes (ms_num_swapped_pages st) @ int_bytes (ms_next_fifo_seq st) @ concat (map page_stat_bytes (ms_pages st))"

definition memstat_to :: "file_reader \<Rightarrow> page_stat list \<Rightarrow> nat \<Rightarrow> uint64 \<Rightarrow> kernel \<Rightarrow> (int \<times> kernel) res" where
  "memstat_to rd junk me addr k =
     rbind (copyout rd (k_mem k) (pr k me) (p_pagetable (pr k me)) addr (mem_stat_bytes (mem_stat junk (pr k me)))) (\<lambda>(r, m, p).
       Ret (if r < 0 then -1 else 0, set_proc (k\<lparr>k_mem := m\<rparr>) me p))"

definition sys_memstat :: "file_reader \<Rightarrow> page_stat list \<Rightarrow> nat \<Rightarrow> kernel \<Rightarrow> (int \<times> kernel) res" where
  "sys_memstat rd junk me k = rbind (argaddr k me 0) (\<lambda>addr. memstat_to rd junk me addr k)"

end
