(* ===== verification/Sysproc_Props.thy ===== *)
theory Sysproc_Props
  imports Sysproc User_Copy_Props File_Props
begin

text \<open>
  What \<^verbatim>\<open>memstat\<close> reports about the pages of a process.
\<close>

lemma find_entry_unique:
  assumes "distinct (map f (take n xs))" "n \<le> length xs" "e \<in> set (take n xs)" "f e = v"
  obtains i where "find (\<lambda>i. f (xs ! i) = v) [0..<n] = Some i" "xs ! i = e"
proof -
  obtain k where k: "k < n" "xs ! k = e" using assms(2,3) by (auto simp: in_set_conv_nth)
  have "find (\<lambda>i. f (xs ! i) = v) [0..<n] \<noteq> None" using k assms(4) by (auto simp: find_None_iff)
  then obtain i where i: "find (\<lambda>i. f (xs ! i) = v) [0..<n] = Some i" by blast
  then have "i < n" "f (xs ! i) = v" by (auto simp: find_Some_iff)
  then have "i = k" using assms(1,2,4) k by (auto simp: distinct_conv_nth)
  then show ?thesis using that i k by blast
qed

lemma find_entry_None:
  assumes "n \<le> length xs"
  shows "find (\<lambda>i. f (xs ! i) = v) [0..<n] = None \<longleftrightarrow> v \<notin> f ` set (take n xs)"
  by (auto simp: find_None_iff nth_image [OF assms, symmetric])

lemma page_stat_resident:
  assumes "page_inv s fl p" "e \<in> set (resident p)"
  shows "page_stat_of p (rp_va e) = \<lparr>ps_va = ucast (rp_va e), ps_state = 1, ps_is_dirty = rp_is_dirty e, ps_seq = rp_seq e, ps_swap_slot = rp_swap_slot e\<rparr>"
proof -
  have r: "rset_inv p" using assms(1) by (simp add: page_inv_def lists_inv_def)
  have d: "distinct (map rp_va (take (p_num_resident p) (p_resident_pages p)))" "p_num_resident p \<le> length (p_resident_pages p)"
    "e \<in> set (take (p_num_resident p) (p_resident_pages p))"
    using r assms(2) by (simp_all add: rset_inv_def resident_def)
  obtain i where "find (\<lambda>i. rp_va (p_resident_pages p ! i) = rp_va e) [0..<p_num_resident p] = Some i" "p_resident_pages p ! i = e"
    by (rule find_entry_unique [OF d refl])
  then show ?thesis by (simp add: page_stat_of_def)
qed

lemma page_stat_swapped:
  assumes "page_inv s fl p" "e \<in> set (swapped p)"
  shows "page_stat_of p (sp_va e) = \<lparr>ps_va = ucast (sp_va e), ps_state = 2, ps_is_dirty = 0, ps_seq = 0, ps_swap_slot = sp_slot e\<rparr>"
proof -
  have L: "lists_inv (pte_of (mem s) (p_pagetable p)) p" using assms(1) by (simp add: page_inv_def)
  then have r: "rset_inv p" "swap_inv p" by (simp_all add: lists_inv_def)
  have sl: "p_num_resident p \<le> length (p_resident_pages p)" using r(1) by (simp add: rset_inv_def)
  have "sp_va e \<notin> rp_va ` set (take (p_num_resident p) (p_resident_pages p))"
  proof
    assume "sp_va e \<in> rp_va ` set (take (p_num_resident p) (p_resident_pages p))"
    then obtain r where "r \<in> set (resident p)" "rp_va r = sp_va e" unfolding resident_def by auto
    then show False using resident_not_swapped [OF L] assms(2) by blast
  qed
  then have none: "find (\<lambda>i. rp_va (p_resident_pages p ! i) = sp_va e) [0..<p_num_resident p] = None"
    unfolding find_entry_None [OF sl] .
  have d: "distinct (map sp_va (take (p_num_swapped p) (p_swapped_pages p)))" "p_num_swapped p \<le> length (p_swapped_pages p)"
    "e \<in> set (take (p_num_swapped p) (p_swapped_pages p))"
    using r(2) assms(2) unfolding swap_inv_def swapped_def by simp_all
  obtain i where "find (\<lambda>i. sp_va (p_swapped_pages p ! i) = sp_va e) [0..<p_num_swapped p] = Some i" "p_swapped_pages p ! i = e"
    by (rule find_entry_unique [OF d refl])
  then show ?thesis using none by (simp add: page_stat_of_def)
qed

lemma page_stat_none:
  assumes "page_inv s fl p" "va \<notin> rp_va ` set (resident p)" "va \<notin> sp_va ` set (swapped p)"
  shows "page_stat_of p va = \<lparr>ps_va = ucast va, ps_state = 0, ps_is_dirty = 0, ps_seq = 0, ps_swap_slot = -1\<rparr>"
proof -
  have r: "rset_inv p" "swap_inv p" using assms(1) by (simp_all add: page_inv_def lists_inv_def)
  then have l: "p_num_resident p \<le> length (p_resident_pages p)" "p_num_swapped p \<le> length (p_swapped_pages p)"
    by (simp_all add: rset_inv_def swap_inv_def)
  have "find (\<lambda>i. rp_va (p_resident_pages p ! i) = va) [0..<p_num_resident p] = None"
    "find (\<lambda>i. sp_va (p_swapped_pages p ! i) = va) [0..<p_num_swapped p] = None"
    using assms(2,3) unfolding find_entry_None [OF l(1)] find_entry_None [OF l(2)] by (simp_all add: resident_def swapped_def)
  then show ?thesis by (simp add: page_stat_of_def)
qed

lemma stat_loop_eq:
  assumes "unat va + n * 4096 < 2 ^ 64"
  shows "stat_loop n p va = map (\<lambda>i. page_stat_of p (va + of_nat i * PGSIZE)) [0..<min n ((unat (p_sz p) + 4095 - unat va) div 4096)]"
  using assms
proof (induction n arbitrary: va)
  case (Suc n)
  have u: "unat (va + PGSIZE) = unat va + 4096" using Suc(2) by (simp add: PGSIZE_def unat_word_ariths)
  show ?case
  proof (cases "va < p_sz p")
    case True
    let ?d = "(unat (p_sz p) + 4095 - unat va) div 4096" and ?d' = "(unat (p_sz p) + 4095 - unat (va + PGSIZE)) div 4096"
    have lt: "unat va < unat (p_sz p)" using True by (simp add: word_less_nat_alt)
    have d: "?d = Suc ?d'" unfolding u using lt by (simp add: div_add_self2 [symmetric] del: div_add_self2)
    have "stat_loop n p (va + PGSIZE) = map (\<lambda>i. page_stat_of p (va + of_nat (Suc i) * PGSIZE)) [0..<min n ?d']"
      using Suc(1) [of "va + PGSIZE"] Suc(2) u by (simp add: algebra_simps)
    then show ?thesis using True unfolding d by (simp add: upt_conv_Cons map_Suc_upt [symmetric] del: upt_Suc)
  next
    case False
    then have "unat (p_sz p) \<le> unat va" by (simp add: word_less_nat_alt)
    then show ?thesis using False by simp
  qed
qed simp


definition npages :: "proc \<Rightarrow> nat" where
  "npages p = (unat (p_sz p) + 4095) div 4096"

lemma num_pages_total:
  assumes "unat (p_sz p) \<le> 2 ^ 38"
  shows "to_int (PGROUNDUP (p_sz p) div PGSIZE) = int (npages p)"
proof -
  have u: "unat (p_sz p + 4095) = unat (p_sz p) + 4095" using assms by (simp add: unat_word_ariths)
  have "PGROUNDUP (p_sz p) = align_down 12 (p_sz p + 4095)"
    by (simp add: PGROUNDUP_def PGSIZE_def align_down_def mask_eq_exp_minus_1 add.commute)
  then have "unat (PGROUNDUP (p_sz p)) = npages p * 4096" using u by (simp add: unat_align_down npages_def)
  then have "unat (PGROUNDUP (p_sz p) div PGSIZE) = npages p" by (simp add: unat_div PGSIZE_def)
  then show ?thesis using to_int_small [of "PGROUNDUP (p_sz p) div PGSIZE"] assms by (simp add: npages_def)
qed

lemma length_mem_stat_bytes:
  assumes "length (ms_pages st) = 128"
  shows "length (mem_stat_bytes st) = 2580"
proof -
  have i: "length (int_bytes x) = 4" for x by (simp add: int_bytes_def put32_def)
  have "length (page_stat_bytes e) = 20" for e by (simp add: page_stat_bytes_def i put32_def)
  then have "length (concat (map page_stat_bytes es)) = length es * 20" for es by (induction es) simp_all
  then show ?thesis using assms by (simp add: mem_stat_bytes_def i)
qed

lemma mem_stat_pages:
  assumes "length junk = 128"
  shows "length (ms_pages (mem_stat junk p)) = 128"
    "i < min 128 (npages p) \<Longrightarrow> ms_pages (mem_stat junk p) ! i = page_stat_of p (of_nat i * PGSIZE)"
proof -
  have e: "stat_loop MAX_PAGES_INFO p 0 = map (\<lambda>i. page_stat_of p (of_nat i * PGSIZE)) [0..<min 128 (npages p)]"
    using stat_loop_eq [of 0 128 p] by (simp add: MAX_PAGES_INFO_def npages_def)
  show "length (ms_pages (mem_stat junk p)) = 128" using assms unfolding mem_stat_def e by simp
  show "ms_pages (mem_stat junk p) ! i = page_stat_of p (of_nat i * PGSIZE)" if "i < min 128 (npages p)"
    using that unfolding mem_stat_def e by (simp add: nth_append)
qed

lemma page_stat_state:
  assumes "page_inv s fl p"
  shows "ps_va (page_stat_of p va) = ucast va"
    "ps_state (page_stat_of p va) = (if va \<in> rp_va ` set (resident p) then 1 else if va \<in> sp_va ` set (swapped p) then 2 else 0)"
proof -
  have "ps_va (page_stat_of p va) = ucast va \<and>
    ps_state (page_stat_of p va) = (if va \<in> rp_va ` set (resident p) then 1 else if va \<in> sp_va ` set (swapped p) then 2 else 0)"
  proof (cases "va \<in> rp_va ` set (resident p)")
    case True
    then obtain e where "e \<in> set (resident p)" "va = rp_va e" by blast
    then show ?thesis using page_stat_resident [OF assms] by simp
  next
    case nr: False
    show ?thesis
    proof (cases "va \<in> sp_va ` set (swapped p)")
      case True
      then obtain e where "e \<in> set (swapped p)" "va = sp_va e" by blast
      then show ?thesis using page_stat_swapped [OF assms] nr by simp
    next
      case False
      then show ?thesis using page_stat_none [OF assms nr] nr by simp
    qed
  qed
  then show "ps_va (page_stat_of p va) = ucast va"
    "ps_state (page_stat_of p va) = (if va \<in> rp_va ` set (resident p) then 1 else if va \<in> sp_va ` set (swapped p) then 2 else 0)" by simp_all
qed

section \<open>Properties\<close>

text \<open>
  C40: \<^verbatim>\<open>memstat\<close>, called with a writable buffer, returns 0 and leaves the statistics in the buffer: the
  number of pages up to \<^verbatim>\<open>sz\<close>, rounded up, the two counters, and for each of the first 128 pages its
  address and state, which is \<^verbatim>\<open>RESIDENT\<close> exactly for the pages of the resident set (and these are mapped),
  with their sequence number and dirty flag, \<^verbatim>\<open>SWAPPED\<close> exactly for the pages in the swap area (and
  these are not mapped), with their slot, and \<^verbatim>\<open>UNMAPPED\<close> for every other page.
\<close>

theorem memstat_reports_pages:
  assumes inv: "page_inv (k_mem k) fl (pr k me)" and me: "me < length (procs k)" and junk: "length junk = 128"
    and w: "writable_range (k_mem k) (p_pagetable (pr k me)) addr 2580" and sz: "unat (p_sz (pr k me)) \<le> 2 ^ 38"
  shows "(\<exists>k'. memstat_to rd junk me addr k = Ret (0, k') \<and> procs k' = procs k \<and>
      copyin rd (k_mem k') (pr k me) (p_pagetable (pr k me)) addr 2580 =
        Ret (0, mem_stat_bytes (mem_stat junk (pr k me)), k_mem k', pr k me)) \<and>
    ms_num_pages_total (mem_stat junk (pr k me)) = int (npages (pr k me)) \<and>
    ms_num_resident_pages (mem_stat junk (pr k me)) = int (length (resident (pr k me))) \<and>
    ms_num_swapped_pages (mem_stat junk (pr k me)) = int (length (swapped (pr k me))) \<and>
    (\<forall>i < min 128 (npages (pr k me)). ps_va (ms_pages (mem_stat junk (pr k me)) ! i) = ucast (of_nat i * PGSIZE) \<and>
       ps_state (ms_pages (mem_stat junk (pr k me)) ! i) =
         (if of_nat i * PGSIZE \<in> rp_va ` set (resident (pr k me)) then 1
          else if of_nat i * PGSIZE \<in> sp_va ` set (swapped (pr k me)) then 2 else 0) \<and>
       (\<forall>e \<in> set (resident (pr k me)). rp_va e = of_nat i * PGSIZE \<longrightarrow>
          ps_seq (ms_pages (mem_stat junk (pr k me)) ! i) = rp_seq e \<and> ps_is_dirty (ms_pages (mem_stat junk (pr k me)) ! i) = rp_is_dirty e \<and>
          user_pte (pte_of (mem (k_mem k)) (p_pagetable (pr k me)) (of_nat i * PGSIZE))) \<and>
       (\<forall>e \<in> set (swapped (pr k me)). sp_va e = of_nat i * PGSIZE \<longrightarrow>
          ps_swap_slot (ms_pages (mem_stat junk (pr k me)) ! i) = sp_slot e \<and>
          pte_of (mem (k_mem k)) (p_pagetable (pr k me)) (of_nat i * PGSIZE) AND PTE_V = 0))"
    (is "?call \<and> ?total \<and> ?nres \<and> ?nswp \<and> ?pages")
proof (intro conjI)
  let ?p = "pr k me" and ?root = "p_pagetable (pr k me)" and ?st = "mem_stat junk (pr k me)"
  have lists: "lists_inv (pte_of (mem (k_mem k)) ?root) ?p" using inv by (simp add: page_inv_def)
  have len: "length (mem_stat_bytes ?st) = 2580" by (rule length_mem_stat_bytes [OF mem_stat_pages(1) [OF junk]])
  show ?call
  proof -
    obtain s' where s': "copyout rd (k_mem k) ?p ?root addr (mem_stat_bytes ?st) = Ret (0, s', ?p)"
        "copyin rd s' ?p ?root addr (length (mem_stat_bytes ?st)) = Ret (0, mem_stat_bytes ?st, s', ?p)"
      using um.put_get [where p = ?p and s = "k_mem k" and va = addr and bs = "mem_stat_bytes ?st" and rd = rd] inv w len by auto
    then show ?thesis
      using me len by (intro exI [of _ "set_proc (k\<lparr>k_mem := s'\<rparr>) me ?p"]) (simp add: memstat_to_def set_proc_def)
  qed
  show ?total using num_pages_total [OF sz] by (simp add: mem_stat_def Let_def)
  show ?nres ?nswp using lists by (simp_all add: mem_stat_def Let_def lists_inv_def length_resident length_swapped)
  show ?pages
  proof (intro allI impI, goal_cases)
    case (1 i)
    show ?case
      unfolding mem_stat_pages(2) [OF junk 1]
    proof (intro conjI ballI impI)
      fix e assume e: "e \<in> set (resident ?p)" "rp_va e = of_nat i * PGSIZE"
      show "ps_seq (page_stat_of ?p (of_nat i * PGSIZE)) = rp_seq e" "ps_is_dirty (page_stat_of ?p (of_nat i * PGSIZE)) = rp_is_dirty e"
        using page_stat_resident [OF inv e(1)] e(2) by simp_all
      show "user_pte (pte_of (mem (k_mem k)) ?root (of_nat i * PGSIZE))" using lists e by (auto simp: lists_inv_def)
    next
      fix e assume e: "e \<in> set (swapped ?p)" "sp_va e = of_nat i * PGSIZE"
      show "ps_swap_slot (page_stat_of ?p (of_nat i * PGSIZE)) = sp_slot e" using page_stat_swapped [OF inv e(1)] e(2) by simp
      show "pte_of (mem (k_mem k)) ?root (of_nat i * PGSIZE) AND PTE_V = 0" using lists e by (auto simp: lists_inv_def)
    qed (rule page_stat_state [OF inv])+
  qed
qed


definition no_stat :: page_stat where
  "no_stat = \<lparr>ps_va = 0, ps_state = 0, ps_is_dirty = 0, ps_seq = 0, ps_swap_slot = 0\<rparr>"

theorem memstat_reports_pages_witness:
  "\<exists>(m :: machine) k'. memstat_to no_file (replicate 128 no_stat) 0 0x1000
      \<lparr>k_mem = m, k_fs = demo_files, procs = [one_page_proc], nextpid = 4, initproc = Some 0\<rparr> = Ret (0, k') \<and>
    ps_state (ms_pages (mem_stat (replicate 128 no_stat) one_page_proc) ! 1) = 1 \<and>
    ms_num_pages_total (mem_stat (replicate 128 no_stat) one_page_proc) = 6"
proof (rule one_page_inv)
  fix s :: machine and fl assume s: "page_inv s fl one_page_proc" "user_pte (pte_of (mem s) demo_root 0x1000)"
    "pte_of (mem s) demo_root 0x1000 AND PTE_W \<noteq> 0"
  let ?k = "\<lparr>k_mem = s, k_fs = demo_files, procs = [one_page_proc], nextpid = 4, initproc = Some 0\<rparr>"
  have n: "npages one_page_proc = 6" "p_sz one_page_proc = 0x6000" by (simp_all add: npages_def one_page_proc_def demo_proc_def)
  have "writable_range s demo_root 0x1000 2580" using page_writable [OF s(2,3), of 0 2580] by simp
  then have "(\<exists>k'. memstat_to no_file (replicate 128 no_stat) 0 0x1000 ?k = Ret (0, k')) \<and>
      ms_num_pages_total (mem_stat (replicate 128 no_stat) one_page_proc) = 6 \<and>
      ps_state (ms_pages (mem_stat (replicate 128 no_stat) one_page_proc) ! 1) = (if of_nat 1 * PGSIZE \<in> rp_va ` set (resident one_page_proc) then 1
        else if of_nat 1 * PGSIZE \<in> sp_va ` set (swapped one_page_proc) then 2 else 0)"
    using memstat_reports_pages [of "?k" fl 0 "replicate 128 no_stat" "0x1000" no_file] s(1) n one_page_facts(1) by auto
  moreover have "of_nat 1 * PGSIZE \<in> rp_va ` set (resident one_page_proc)" by (simp add: one_page_facts PGSIZE_def)
  ultimately show ?thesis by (metis (no_types, lifting))
qed

end
