(* ===== verification/Trap.thy ===== *)
theory Trap
  imports Sysproc
begin

text \<open>
  Traps from user space, \<^verbatim>\<open>trap.c\<close>, and the dispatch of system calls in \<^verbatim>\<open>syscall.c\<close>.  What the hardware
  and the drivers show to the trap handler is a record: control registers, the interrupt the PLIC
  reports, and the drivers' own handlers, which are parameters.  Writes to control registers are left out.
  A trap ends by going back to user mode, by the end of the process, or by giving up the
  processor; in the last case the process continues with \<open>usertrapret\<close> when it is scheduled again.
\<close>

record hart =
  h_cpuid :: nat
  h_satp :: uint64
  h_usertrap :: uint64
  h_tp :: uint64
  h_irq :: int
  h_uartintr :: "kernel \<Rightarrow> kernel"
  h_diskintr :: "kernel \<Rightarrow> kernel"
  h_ticks_chan :: uint64

definition store_tf :: "nat \<Rightarrow> uint64 \<Rightarrow> uint64 \<Rightarrow> kernel \<Rightarrow> kernel" where
  "store_tf me off v k = k\<lparr>k_mem := (k_mem k)\<lparr>mem := store64 (mem (k_mem k)) (p_trapframe (pr k me) + off) v\<rparr>\<rparr>"

definition load_tf :: "nat \<Rightarrow> uint64 \<Rightarrow> kernel \<Rightarrow> uint64" where
  "load_tf me off k = load64 (mem (k_mem k)) (p_trapframe (pr k me) + off)"

section \<open>System calls\<close>

datatype syscall_name =
    SYS_fork | SYS_exit | SYS_wait | SYS_pipe | SYS_read | SYS_kill | SYS_exec | SYS_fstat | SYS_chdir | SYS_dup | SYS_getpid
  | SYS_sbrk | SYS_pause | SYS_uptime | SYS_open | SYS_write | SYS_mknod | SYS_unlink | SYS_link | SYS_mkdir | SYS_close | SYS_memstat

definition syscalls :: "syscall_name list" where
  "syscalls = [SYS_fork, SYS_exit, SYS_wait, SYS_pipe, SYS_read, SYS_kill, SYS_exec, SYS_fstat, SYS_chdir, SYS_dup, SYS_getpid,
     SYS_sbrk, SYS_pause, SYS_uptime, SYS_open, SYS_write, SYS_mknod, SYS_unlink, SYS_link, SYS_mkdir, SYS_close, SYS_memstat]"

text \<open>\<open>call\<close> is the function of the table a name stands for; entry 0 of the table is empty.\<close>

definition syscall :: "(syscall_name \<Rightarrow> kernel \<Rightarrow> (uint64 \<times> kernel) res) \<Rightarrow> nat \<Rightarrow> kernel \<Rightarrow> kernel res" where
  "syscall call me k =
     (let num = to_int (load_tf me 168 k) in
      if num > 0 \<and> num < int (length syscalls) + 1 then rbind (call (syscalls ! (nat num - 1)) k) (\<lambda>(r, k). Ret (store_tf me 112 r k))
      else Ret (store_tf me 112 (-1) k))"

section \<open>Interrupts\<close>

definition clockintr :: "hart \<Rightarrow> nat option \<Rightarrow> uint32 \<times> kernel \<Rightarrow> uint32 \<times> kernel" where
  "clockintr h me = (\<lambda>(ticks, k). if h_cpuid h = 0 then (ticks + 1, wakeup me (h_ticks_chan h) k) else (ticks, k))"

definition devintr :: "hart \<Rightarrow> nat option \<Rightarrow> uint64 \<Rightarrow> uint32 \<times> kernel \<Rightarrow> nat \<times> uint32 \<times> kernel" where
  "devintr h me scause = (\<lambda>(ticks, k).
     if scause = 0x8000000000000009 then
       (1, ticks, if h_irq h = 10 then h_uartintr h k else if h_irq h = 1 then h_diskintr h k else k)
     else if scause = 0x8000000000000005 then (2, clockintr h me (ticks, k))
     else (0, ticks, k))"

section \<open>Traps\<close>

datatype trap_result = ToUser uint64 | Exited | Yields

definition MAKE_SATP :: "uint64 \<Rightarrow> uint64" where
  "MAKE_SATP pagetable = push_bit 60 8 OR drop_bit 12 pagetable"

text \<open>\<^verbatim>\<open>prepare_return\<close>; the flag is false if the process was killed and has exited.\<close>

definition prepare_return :: "hart \<Rightarrow> (nat \<Rightarrow> uint64) \<Rightarrow> nat \<Rightarrow> kernel \<Rightarrow> (bool \<times> kernel) res" where
  "prepare_return h addr me k =
     (if killed me k \<noteq> 0 then rbind (kexit addr me (-1) k) (\<lambda>k. Ret (False, k))
      else
        let k = store_tf me 0 (h_satp h) k; k = store_tf me 8 (p_kstack (pr k me) + PGSIZE) k;
            k = store_tf me 16 (h_usertrap h) k; k = store_tf me 32 (h_tp h) k in
        Ret (True, k))"

definition usertrapret :: "hart \<Rightarrow> (nat \<Rightarrow> uint64) \<Rightarrow> nat \<Rightarrow> kernel \<Rightarrow> (trap_result \<times> kernel) res" where
  "usertrapret h addr me k =
     rbind (prepare_return h addr me k) (\<lambda>(ok, k). Ret (if ok then ToUser (MAKE_SATP (p_pagetable (pr k me))) else Exited, k))"

definition after_trap :: "hart \<Rightarrow> (nat \<Rightarrow> uint64) \<Rightarrow> nat \<Rightarrow> nat \<Rightarrow> kernel \<Rightarrow> (trap_result \<times> kernel) res" where
  "after_trap h addr me which_dev k =
     (let k = (if killed me k \<noteq> 0 then setkilled me k else k) in
      if which_dev = 2 then rbind (sched me (yield_cpu me k)) (\<lambda>k. Ret (Yields, k)) else usertrapret h addr me k)"

definition usertrap ::
  "hart \<Rightarrow> (nat \<Rightarrow> uint64) \<Rightarrow> file_reader \<Rightarrow> (syscall_name \<Rightarrow> kernel \<Rightarrow> (uint64 \<times> kernel) res) \<Rightarrow> nat \<Rightarrow> uint64 \<Rightarrow> uint64 \<Rightarrow> uint64 \<Rightarrow>
    uint32 \<times> kernel \<Rightarrow> (trap_result \<times> uint32 \<times> kernel) res" where
  "usertrap h addr rd call me scause sepc stval = (\<lambda>(ticks, k).
     let k = store_tf me 24 sepc k in
     if scause = 8 then
       let k = (if killed me k \<noteq> 0 then setkilled me k else k); k = store_tf me 24 (load_tf me 24 k + 4) k in
       rbind (syscall call me k) (\<lambda>k. rbind (after_trap h addr me 0 k) (\<lambda>(r, k). Ret (r, ticks, k)))
     else
       case devintr h (Some me) scause (ticks, k) of (which_dev, ticks, k) \<Rightarrow>
         if which_dev \<noteq> 0 then rbind (after_trap h addr me which_dev k) (\<lambda>(r, k). Ret (r, ticks, k))
         else if scause = 12 \<or> scause = 13 \<or> scause = 15 then
           rbind (demand_page_load_new rd (k_mem k) (pr k me) stval (scause = 15) (scause = 12)) (\<lambda>(r, m, p).
             let k = set_proc (k\<lparr>k_mem := m\<rparr>) me p in
             if r = 0 then rbind (usertrapret h addr me k) (\<lambda>(r, k). Ret (r, ticks, k))
             else rbind (after_trap h addr me 0 (setkilled me k)) (\<lambda>(r, k). Ret (r, ticks, k)))
         else rbind (after_trap h addr me 0 (setkilled me k)) (\<lambda>(r, k). Ret (r, ticks, k)))"

text \<open>Traps from the kernel; \<open>me\<close> is absent when the processor runs the scheduler.\<close>

definition kerneltrap :: "hart \<Rightarrow> nat option \<Rightarrow> uint64 \<Rightarrow> uint32 \<times> kernel \<Rightarrow> (uint32 \<times> kernel) res" where
  "kerneltrap h me scause st =
     (case devintr h me scause st of (which_dev, ticks, k) \<Rightarrow>
        if which_dev = 0 then Panic ''kerneltrap''
        else case me of
          Some p \<Rightarrow> if which_dev = 2 then rbind (sched p (yield_cpu p k)) (\<lambda>k. Ret (ticks, k)) else Ret (ticks, k)
        | None \<Rightarrow> Ret (ticks, k))"

end
