(* ===== verification/Trap_Props.thy ===== *)
theory Trap_Props
  imports Trap User_Copy_Props File_Props
begin

text \<open>
  How a trap from user space ends.
\<close>

lemma store_tf_fields [simp]:
  "procs (store_tf me off v k) = procs k" "initproc (store_tf me off v k) = initproc k" "nextpid (store_tf me off v k) = nextpid k"
  by (simp_all add: store_tf_def)

lemma prepare_return_ok:
  assumes "prepare_return h addr me k = Ret (True, k')"
  shows "p_killed (pr k me) = 0 \<and> procs k' = procs k"
  using assms by (auto simp: prepare_return_def killed_def Let_def res_simps split: if_splits)

lemma usertrapret_user: "usertrapret h addr me k = Ret (ToUser satp, k') \<Longrightarrow> p_killed (pr k' me) = 0 \<and> satp = MAKE_SATP (p_pagetable (pr k' me))"
  by (auto simp: usertrapret_def res_simps dest!: prepare_return_ok split: if_splits)

lemma after_trap_user: "after_trap h addr me w k = Ret (ToUser satp, k') \<Longrightarrow> p_killed (pr k' me) = 0 \<and> satp = MAKE_SATP (p_pagetable (pr k' me))"
  by (auto simp: after_trap_def Let_def res_simps dest: usertrapret_user split: if_splits)

lemma usertrap_user:
  assumes "usertrap h addr rd call me scause sepc stval st = Ret (ToUser satp, ticks', k')"
  shows "p_killed (pr k' me) = 0 \<and> satp = MAKE_SATP (p_pagetable (pr k' me))"
  using assms unfolding usertrap_def Let_def case_prod_unfold
  by (auto simp: res_simps dest: usertrapret_user after_trap_user split: if_splits)

lemma fault_no_device:
  assumes "scause \<in> {12, 13, 15}"
  shows "devintr h me scause st = (0, st)"
  using assms by (auto simp: devintr_def split: prod.splits)

lemma killed_exits:
  assumes "p_killed (pr k me) \<noteq> 0"
  shows "usertrapret h addr me k = rbind (kexit addr me (-1) k) (\<lambda>k. Ret (Exited, k))"
  using assms by (cases "kexit addr me (-1) k") (simp_all add: usertrapret_def prepare_return_def killed_def)

lemma usertrap_fault_eq:
  assumes sc: "scause \<in> {12, 13, 15}" and me: "me < length (procs k)"
    and h: "demand_page_load_new rd (k_mem (store_tf me 24 sepc k)) (pr k me) stval (scause = 15) (scause = 12) = Ret (r, m, p)"
    and kp: "p_killed p = 0"
  shows "r = 0 \<Longrightarrow> \<exists>k'. usertrap h addr rd call me scause sepc stval (ticks, k) = Ret (ToUser (MAKE_SATP (p_pagetable p)), ticks, k') \<and>
      procs k' = (procs k)[me := p]"
    "r \<noteq> 0 \<Longrightarrow> \<exists>k1. usertrap h addr rd call me scause sepc stval (ticks, k) =
      rbind (kexit addr me (-1) k1) (\<lambda>k'. Ret (Exited, ticks, k')) \<and> k_mem k1 = m \<and> procs k1 = (procs k)[me := p\<lparr>p_killed := 1\<rparr>]"
proof -
  let ?k0 = "store_tf me 24 sepc k"
  let ?k = "set_proc (?k0\<lparr>k_mem := m\<rparr>) me p"
  have eq: "usertrap h addr rd call me scause sepc stval (ticks, k) =
      (if r = 0 then rbind (usertrapret h addr me ?k) (\<lambda>(r, k). Ret (r, ticks, k))
       else rbind (after_trap h addr me 0 (setkilled me ?k)) (\<lambda>(r, k). Ret (r, ticks, k)))"
    using sc h fault_no_device [OF sc] by (auto simp: usertrap_def Let_def)
  have p: "procs ?k = (procs k)[me := p]" by (simp add: set_proc_def)
  show "\<exists>k'. usertrap h addr rd call me scause sepc stval (ticks, k) = Ret (ToUser (MAKE_SATP (p_pagetable p)), ticks, k') \<and>
      procs k' = (procs k)[me := p]" if "r = 0"
    using eq that me p kp by (auto simp: usertrapret_def prepare_return_def killed_def Let_def)
  let ?k1 = "setkilled me (setkilled me ?k)"
  have k1: "procs ?k1 = (procs k)[me := p\<lparr>p_killed := 1\<rparr>]" "k_mem ?k1 = m" "killed me (setkilled me ?k) \<noteq> 0" "p_killed (pr ?k1 me) \<noteq> 0"
    using me by (simp_all add: setkilled_def set_proc_def killed_def)
  have "after_trap h addr me 0 (setkilled me ?k) = rbind (kexit addr me (-1) ?k1) (\<lambda>k. Ret (Exited, k))"
    using killed_exits [OF k1(4)] k1(3) by (simp add: after_trap_def)
  then show "\<exists>k1. usertrap h addr rd call me scause sepc stval (ticks, k) =
      rbind (kexit addr me (-1) k1) (\<lambda>k'. Ret (Exited, ticks, k')) \<and> k_mem k1 = m \<and> procs k1 = (procs k)[me := p\<lparr>p_killed := 1\<rparr>]" if "r \<noteq> 0"
    using eq that k1(1,2) by (intro exI [of _ ?k1], cases "kexit addr me (-1) ?k1") simp_all
qed

lemma handler_maps:
  assumes rd: "reader rd" and inv: "page_inv s fl p" and ok: "demand_page_load_new rd s p va w x = Ret (0, s', p')"
  shows "va < MAXVA" "pte_of (mem s') (p_pagetable p) (PGROUNDDOWN va) AND PTE_V \<noteq> 0"
    "pte_of (mem s) (p_pagetable p) (PGROUNDDOWN va) AND PTE_V \<noteq> 0 \<or> fault_allowed p va"
proof -
  show va: "va < MAXVA" using ok by (auto simp: demand_page_load_new_def not_less [symmetric] split: if_splits)
  have "pte_of (mem s') (p_pagetable p) (PGROUNDDOWN va) AND PTE_V \<noteq> 0 \<and>
      (pte_of (mem s) (p_pagetable p) (PGROUNDDOWN va) AND PTE_V \<noteq> 0 \<or> fault_allowed p va)"
  proof (cases "pte_of (mem s) (p_pagetable p) (PGROUNDDOWN va) AND PTE_V = 0")
    case True
    note L = handler_loads [OF rd inv True ok]
    then have "user_pte (pte_of (mem s') (p_pagetable p) (PGROUNDDOWN va))" by (auto simp: page_loaded_def upage_def split: if_splits)
    then show ?thesis using L user_pte_valid by blast
  next
    case False
    then have "mem s' = mem s"
      by (cases rule: demand_page_load_cases [OF rd inv va, where w = w and x = x]) (use ok in \<open>auto split: if_splits\<close>)
    then show ?thesis using False by simp
  qed
  then show "pte_of (mem s') (p_pagetable p) (PGROUNDDOWN va) AND PTE_V \<noteq> 0"
    "pte_of (mem s) (p_pagetable p) (PGROUNDDOWN va) AND PTE_V \<noteq> 0 \<or> fault_allowed p va" by simp_all
qed

text \<open>Writing the trapframe, a page of its own, changes nothing of the address space.\<close>

lemma page_inv_store_tf:
  assumes inv: "page_inv (k_mem k) fl (pr k me)" and tf: "fresh_frame (k_mem k) fl (p_pagetable (pr k me)) (p_trapframe (pr k me))"
    and i: "i < 512"
  shows "page_inv (k_mem (store_tf me (8 * i) v k)) fl (pr k me)"
    "pte_of (mem (k_mem (store_tf me (8 * i) v k))) (p_pagetable (pr k me)) b = pte_of (mem (k_mem k)) (p_pagetable (pr k me)) b"
proof -
  let ?t = "p_trapframe (pr k me)" and ?root = "p_pagetable (pr k me)"
  let ?m = "store64 (mem (k_mem k)) (?t + 8 * i) v"
  have as: "as_inv (k_mem k) fl ?root" using inv by (simp add: page_inv_def)
  have al: "aligned 12 ?t" using tf by (simp add: fresh_frame_def phys_page_def)
  have fr: "same_page (mem (k_mem k)) ?m q" if "q \<noteq> ?t" for q
    using same_page_store64 [OF al i that [symmetric]] by (simp add: slot_def)
  note F = as_inv_fill [OF as tf fr]
  show "pte_of (mem (k_mem (store_tf me (8 * i) v k))) ?root b = pte_of (mem (k_mem k)) ?root b" using F(3) by (simp add: store_tf_def)
  show "page_inv (k_mem (store_tf me (8 * i) v k)) fl (pr k me)"
    using F(1,3) inv lists_inv_cong [of "pte_of ?m ?root" "pte_of (mem (k_mem k)) ?root" "pr k me"] by (simp add: page_inv_def store_tf_def)
qed


section \<open>Properties\<close>


text \<open>The process of the earlier witnesses reads an address behind its break.\<close>

definition trap_proc :: proc where
  "trap_proc = fresh_proc\<lparr>p_trapframe := 0x80106000\<rparr>"

definition demo_hart :: hart where
  "demo_hart = \<lparr>h_cpuid = 0, h_satp = 0, h_usertrap = 0, h_tp = 0, h_irq = 0, h_uartintr = id, h_diskintr = id, h_ticks_chan = 0\<rparr>"


end
