(* ===== verification/Spec2Isabelle.thy ===== *)
theory Spec2Isabelle
  imports Pager_Props Bakery_Props Pipe Console Log_Crash Printf Grep Shell_Props Fs_Paths Fs_Inodes File_Props User_Copy_Props Process_Props Sysproc_Props Trap_Props
begin

text \<open>
  Verification of a course repository with three programs: \<^verbatim>\<open>src/A\<close>, the xv6 kernel for RISC-V changed to
  load pages on demand, replace them in FIFO order and swap them; \<^verbatim>\<open>src/B\<close>, a packet sniffer; \<^verbatim>\<open>src/C\<close>, a
  simulation of a bakery with threads.  The development covers the kernel from physical memory up to
  the handling of page faults and processes, the file system with its log, the user programs \<^verbatim>\<open>sh\<close> and \<^verbatim>\<open>grep\<close>,
  and the bakery.

  \<^bold>\<open>How the parts interact.\<close>  \<^verbatim>\<open>kalloc.c\<close> hands out 4096-byte pages of physical memory.  \<^verbatim>\<open>vm.c\<close> builds Sv39 page
  tables from them; \<^verbatim>\<open>demand_page_load_new\<close> maps a page of a process when it is first used, with the
  contents of the program file, of the swap area or zeros, and evicts the oldest page when 40 are resident.
  \<^verbatim>\<open>trap.c\<close> calls it on a page fault and ends the process if it fails; \<^verbatim>\<open>copyin\<close>, \<^verbatim>\<open>copyout\<close> and \<^verbatim>\<open>copyinstr\<close>
  call it when a system call touches a page that is not mapped.  \<^verbatim>\<open>proc.c\<close> keeps the table of processes.  A
  system call on files goes through descriptors (\<^verbatim>\<open>sysfile.c\<close>, \<^verbatim>\<open>file.c\<close>) to pipes, the console or inodes
  (\<^verbatim>\<open>fs.c\<close>), whose blocks are written through the log (\<^verbatim>\<open>log.c\<close>) and the buffer cache (\<^verbatim>\<open>bio.c\<close>).

  \<^bold>\<open>Conventions\<close> (\<open>Prelude\<close>).  C integers are words of their width where wrap-around matters and
  \<^typ>\<open>int\<close> where the code uses \<^verbatim>\<open>-1\<close>; a call of \<^verbatim>\<open>panic\<close> is the value \<open>Panic\<close> of the result type; state is
  passed explicitly, in records that extend each other upwards: \<open>kmem\<close> and \<open>machine\<close> for memory, and \<open>bcache\<close>,
  \<open>logsys\<close>, \<open>fsys\<close>, \<open>filesys\<close> for the file side; \<open>kernel\<close> joins both with the process table.  A
  pointer into a table is the index of the entry.  What runs under one lock, up to the next point where
  it sleeps, is one function; the interleavings are those of the step relations.

  \<^bold>\<open>The theories\<close>, with the sources they model and what is proved.
  \<^item> \<open>Phys_Mem\<close>, \<open>Kalloc\<close>: byte memory, \<^verbatim>\<open>memset\<close>, \<^verbatim>\<open>memmove\<close>, \<^verbatim>\<open>memcmp\<close> of \<^verbatim>\<open>string.c\<close>; \<^verbatim>\<open>kalloc.c\<close>.  The linked
    free list refines a stack of pages, and \<^verbatim>\<open>kinit\<close> frees every page between \<^verbatim>\<open>end\<close> and \<^verbatim>\<open>PHYSTOP\<close>.
  \<^item> \<open>Page_Table\<close>, \<open>Page_Tree\<close>, \<open>Address_Space\<close>: \<^verbatim>\<open>riscv.h\<close> and \<^verbatim>\<open>vm.c\<close>.  A page table means a finite map from pages
    to frames; mapping and unmapping are updates of it and free exactly the frames they should.
  \<^item> \<open>Proc_Types\<close>, \<open>Resident_Set\<close>, \<open>Swap_Area\<close>, \<open>Demand_Paging\<close>, \<open>Pager\<close>, \<open>Pager_Props\<close>: \<^verbatim>\<open>proc.h\<close> and the pager of
    \<^verbatim>\<open>vm.c\<close>.  The fault handler keeps the invariant of the process, loads the right contents, evicts in FIFO
    order, succeeds when memory is left, and loses no page but a clean victim.
  \<^item> \<open>User_Copy\<close>, \<open>User_Copy_Props\<close>: \<^verbatim>\<open>copyout\<close>, \<^verbatim>\<open>copyin\<close>, \<^verbatim>\<open>copyinstr\<close>.  Safe for every user address; they read
    back what was written and change no other user byte.
  \<^item> \<open>Process\<close>, \<open>Process_Props\<close>: \<^verbatim>\<open>proc.c\<close>.  The process table under every interleaving of its
    operations: a living parent for every process, distinct identifiers, no lost wakeup of \<^verbatim>\<open>wait\<close>.
  \<^item> \<open>Sysproc\<close>, \<open>Sysproc_Props\<close>, \<open>Trap\<close>, \<open>Trap_Props\<close>: \<^verbatim>\<open>syscall.c\<close>, \<^verbatim>\<open>sysproc.c\<close> with \<^verbatim>\<open>memstat\<close>, \<^verbatim>\<open>trap.c\<close>.
    \<^verbatim>\<open>memstat\<close> reports the pager's state; a page fault is served or ends the process.
  \<^item> \<open>Fifo_Spec\<close>, \<open>Ring\<close>, \<open>Pipe\<close>, \<open>Console\<close>: \<^verbatim>\<open>pipe.c\<close>, \<^verbatim>\<open>console.c\<close>.  Bytes leave a pipe in the order they entered
    it, under concurrent readers and writers; the console refines a line discipline.
  \<^item> \<open>Bytes\<close>, \<open>Block_Cache\<close>, \<open>Log\<close>, \<open>Log_Ops\<close>, \<open>Log_Crash\<close>: \<^verbatim>\<open>bio.c\<close>, \<^verbatim>\<open>log.c\<close>.  After a crash at any write of a
    commit, recovery shows all of the transaction or nothing; a full log makes the kernel panic.
  \<^item> \<open>Fs\<close>, \<open>Fs_Table\<close>, \<open>Fs_Paths\<close>, \<open>Fs_Alloc\<close>, \<open>Fs_Alloc_Props\<close>, \<open>Fs_Inodes\<close>: \<^verbatim>\<open>fs.c\<close>.  The inode table refines a
    multiset of references, the bitmap a set of free blocks; path splitting; inodes on disk.
  \<^item> \<open>Fcntl\<close>, \<open>File\<close>, \<open>Sysfile\<close>, \<open>File_Frame\<close>, \<open>File_Props\<close>: \<^verbatim>\<open>fcntl.h\<close>, \<^verbatim>\<open>file.c\<close>, \<^verbatim>\<open>sysfile.c\<close>.  The reference count of every
    open file is the number of descriptors that name it, on failing paths too.
  \<^item> \<open>Cstring\<close>, \<open>Printf\<close>: \<^verbatim>\<open>string.c\<close>, \<^verbatim>\<open>user/ulib.c\<close>, both \<^verbatim>\<open>printf.c\<close>.  Bounds and round trips of the string
    functions; the two printers print the same text.
  \<^item> \<open>Grep\<close>, \<open>Shell\<close>, \<open>Shell_Props\<close>: \<^verbatim>\<open>user/grep.c\<close>, the parser of \<^verbatim>\<open>user/sh.c\<close>.  The matcher decides the language of
    the pattern; the parser ends and reads back printed commands.
  \<^item> \<open>Bakery\<close>, \<open>Bakery_Props\<close>: \<^verbatim>\<open>bakery.c\<close>.  Capacity, no lost request, timing and array bounds in every
    reachable state.

  \<^bold>\<open>Interfaces\<close> are locales, interpreted on the model's definitions: \<open>page_allocator\<close> (\<open>Kalloc\<close>),
  \<open>address_space\<close> (\<open>Address_Space\<close>), \<open>fifo_buffer\<close> (the resident set and the pipe), and in \<open>Transition_System\<close>
  \<open>invariant_system\<close> (the bakery, the pipe, the process table) and \<open>user_buffer\<close> (\<^verbatim>\<open>copyout\<close> and \<^verbatim>\<open>copyin\<close>).

  \<^bold>\<open>Bounds and fuel.\<close>  \<^verbatim>\<open>freewalk\<close> descends at most three levels of page tables and is undefined on deeper,
  cyclic ones.  The shell's parser has fuel \<open>4 * length + 4\<close>, which is proved to be enough.  An operation of the
  file system carries the number of blocks it may still log (\<open>room\<close>).  All other loops terminate by a
  measure.  The contents of a program file are a parameter of the pager that returns at most the bytes
  asked for (\<open>reader\<close>), as \<^verbatim>\<open>readi\<close> does.

  \<^bold>\<open>Not modelled.\<close>  \<^verbatim>\<open>exec.c\<close> (but \<^verbatim>\<open>flags2perm\<close>), the locks and the per-CPU structures, the
  drivers \<^verbatim>\<open>uart.c\<close>, \<^verbatim>\<open>virtio_disk.c\<close>, \<^verbatim>\<open>plic.c\<close>, the boot code and the assembly files work on hardware registers or
  atomic instructions; the disk is the array of blocks the cache reads and writes.  The other user
  programs are thin, \<^verbatim>\<open>usertests.c\<close> and \<^verbatim>\<open>grind.c\<close> are tests, and the packet sniffer is a terminal program around
  \<^verbatim>\<open>libpcap\<close> whose source is not part of the repository.  Messages on the console are modelled where the pager
  prints its events, and left out elsewhere.
\<close>

end
